(* ===== verification/Adl_Prelude.thy ===== *)
theory Adl_Prelude
  imports Main
begin

text \<open>
  Shared vocabulary of the development: the C++ integer conversions the sources rely on, the
  ways an operation can go wrong (a failed \<open>assert\<close>, signed overflow, an access outside an
  object, a read of an uninitialised byte, an uncaught exception), the \<open>errno\<close> values the
  sources test, what a system call returns, and list lemmas about bytes at a position.
  Memory cells are \<open>char option\<close>: \<open>None\<close> is a byte nobody has written yet.
\<close>

named_theorems fault_simps \<open>rewriting of the result type\<close>
named_theorems cint_simps \<open>rewriting of the C++ integer conversions\<close>

section \<open>Machine integers\<close>

definition INT_MAX :: int where
  "INT_MAX = 2147483647"

definition INT_MIN :: int where
  "INT_MIN = -2147483648"

definition fits_int :: "int \<Rightarrow> bool" where
  "fits_int x \<longleftrightarrow> INT_MIN \<le> x \<and> x \<le> INT_MAX"

text \<open>\<open>int\<close> to \<open>size_t\<close> (64 bits) and back to a 32-bit \<open>int\<close>.\<close>

definition to_size_t :: "int \<Rightarrow> int" where
  "to_size_t x = x mod 2 ^ 64"

definition to_int :: "int \<Rightarrow> int" where
  "to_int x = (x + 2 ^ 31) mod 2 ^ 32 - 2 ^ 31"

lemma to_size_t_id [cint_simps]: "0 \<le> x \<Longrightarrow> x \<le> INT_MAX \<Longrightarrow> to_size_t x = x"
  by (simp add: to_size_t_def INT_MAX_def)

lemma to_int_id [cint_simps]: "fits_int x \<Longrightarrow> to_int x = x"
  by (simp add: to_int_def fits_int_def INT_MAX_def INT_MIN_def)

lemma fits_int_nonneg: "0 \<le> x \<Longrightarrow> x \<le> INT_MAX \<Longrightarrow> fits_int x"
  by (simp add: fits_int_def INT_MIN_def)

section \<open>Faults and results\<close>

datatype fault =
    Assert_failed
  | Int_overflow
  | Out_of_bounds
  | Uninit_read
  | Never_returns
  | Invalid_argument
  | Out_of_range
  | Length_error
  | System_error
  | Null_deref
  | Abort

type_synonym 'a result = "fault + 'a"

definition bind_res :: "'a result \<Rightarrow> ('a \<Rightarrow> 'b result) \<Rightarrow> 'b result" where
  "bind_res m f = (case m of Inl e \<Rightarrow> Inl e | Inr x \<Rightarrow> f x)"

lemma bind_res_simps [simp, fault_simps]:
  "bind_res (Inl e) f = Inl e" "bind_res (Inr x) f = f x"
  by (simp_all add: bind_res_def)

lemma bind_res_Inr_iff:
  "bind_res m f = Inr y \<longleftrightarrow> (\<exists>x. m = Inr x \<and> f x = Inr y)"
  by (cases m) auto

lemma bind_res_InrE [elim!]:
  assumes "bind_res m f = Inr y"
  obtains x where "m = Inr x" and "f x = Inr y"
  using assms by (auto simp: bind_res_Inr_iff)

lemma bind_res_cong [fundef_cong]:
  "m = m' \<Longrightarrow> (\<And>x. m' = Inr x \<Longrightarrow> f x = f' x) \<Longrightarrow> bind_res m f = bind_res m' f'"
  by (cases m') auto

definition cassert :: "bool \<Rightarrow> unit result" where
  "cassert p = (if p then Inr () else Inl Assert_failed)"

lemma cassert_simps [simp, fault_simps]:
  "cassert True = Inr ()" "cassert False = Inl Assert_failed"
  by (simp_all add: cassert_def)

lemma cassert_Inr [simp]: "cassert p = Inr u \<longleftrightarrow> p"
  by (simp add: cassert_def)

section \<open>Loops\<close>

text \<open>One pass of a loop body either goes on with a new state or leaves the loop; a pass can
  fault, and when it contains an inner loop it may never end (\<open>None\<close>).  \<open>run_loop\<close> repeats
  the body; the rules below are how the development reasons about loops that need not end.\<close>

datatype ('s, 'r) flow = Continue 's | Return 'r

partial_function (option) run_loop ::
    "('s \<Rightarrow> ('s, 'r) flow result option) \<Rightarrow> 's \<Rightarrow> 'r result option" where
  "run_loop body s =
     (case body s of
        None \<Rightarrow> None
      | Some (Inl e) \<Rightarrow> Some (Inl e)
      | Some (Inr (Return r)) \<Rightarrow> Some (Inr r)
      | Some (Inr (Continue s')) \<Rightarrow> run_loop body s')"

declare run_loop.simps [code]

lemma run_loop_step:
  "body s = Some (Inr (Continue s')) \<Longrightarrow> run_loop body s = run_loop body s'"
  "body s = Some (Inr (Return r)) \<Longrightarrow> run_loop body s = Some (Inr r)"
  "body s = Some (Inl e) \<Longrightarrow> run_loop body s = Some (Inl e)"
  by (subst run_loop.simps, simp)+

text \<open>Partial correctness: an invariant of the passes that continue holds where the loop is left.\<close>

lemma run_loop_invariant:
  assumes "run_loop body s = Some x" "I s"
    "\<And>s s'. I s \<Longrightarrow> body s = Some (Inr (Continue s')) \<Longrightarrow> I s'"
    "\<And>s r. I s \<Longrightarrow> body s = Some (Inr (Return r)) \<Longrightarrow> Q (Inr r)"
    "\<And>s e. I s \<Longrightarrow> body s = Some (Inl e) \<Longrightarrow> Q (Inl e)"
  shows "Q x"
proof -
  have "body = body \<longrightarrow> I s \<longrightarrow> Q x"
  proof (rule run_loop.raw_induct [where P = "\<lambda>b s x. b = body \<longrightarrow> I s \<longrightarrow> Q x", OF _ assms(1)])
    fix f b s x
    assume IH: "\<And>b s x. f b s = Some x \<Longrightarrow> b = body \<longrightarrow> I s \<longrightarrow> Q x"
      and step: "(case b s of None \<Rightarrow> None | Some (Inl e) \<Rightarrow> Some (Inl e)
        | Some (Inr (Return r)) \<Rightarrow> Some (Inr r) | Some (Inr (Continue s')) \<Rightarrow> f b s') = Some x"
    show "b = body \<longrightarrow> I s \<longrightarrow> Q x"
      using step assms(3-5) by (auto dest!: IH split: option.splits sum.splits flow.splits)
  qed
  with assms(2) show ?thesis by simp
qed

lemma run_loop_returns:
  assumes "run_loop body s = Some (Inr r)" "I s"
    "\<And>s s'. I s \<Longrightarrow> body s = Some (Inr (Continue s')) \<Longrightarrow> I s'"
    "\<And>s r. I s \<Longrightarrow> body s = Some (Inr (Return r)) \<Longrightarrow> Q r"
  shows "Q r"
proof -
  have "\<forall>r'. Inr r = (Inr r' :: _ result) \<longrightarrow> Q r'"
    by (rule run_loop_invariant [where I = I and Q = "\<lambda>x. \<forall>r'. x = Inr r' \<longrightarrow> Q r'", OF assms(1,2)])
      (use assms(3,4) in auto)
  then show ?thesis by simp
qed

lemma run_loop_faults:
  fixes body :: "'s \<Rightarrow> ('s, 'r) flow result option"
  assumes "run_loop body s = Some (Inl e)" "I s"
    "\<And>s s'. I s \<Longrightarrow> body s = Some (Inr (Continue s')) \<Longrightarrow> I s'"
    "\<And>s e. I s \<Longrightarrow> body s = Some (Inl e) \<Longrightarrow> Q e"
  shows "Q e"
proof -
  have "\<forall>e'. (Inl e :: 'r result) = Inl e' \<longrightarrow> Q e'"
    by (rule run_loop_invariant [where I = I and Q = "\<lambda>x. \<forall>e'. x = Inl e' \<longrightarrow> Q e'", OF assms(1,2)])
      (use assms(3,4) in auto)
  then show ?thesis by simp
qed

text \<open>Divergence: a set of states that every pass continues from and stays in.\<close>

lemma run_loop_diverges:
  assumes "I s" "\<And>s. I s \<Longrightarrow> \<exists>s'. body s = Some (Inr (Continue s')) \<and> I s'"
  shows "run_loop body s = None"
proof (rule ccontr)
  assume "run_loop body s \<noteq> None"
  then obtain x where "run_loop body s = Some x" by blast
  then have False by (rule run_loop_invariant [where I = I]) (use assms in fastforce)+
  then show False .
qed

text \<open>Termination: a measure that every continuing pass decreases.\<close>

lemma run_loop_terminates:
  fixes m :: "'s \<Rightarrow> nat"
  assumes "I s" "\<And>s. I s \<Longrightarrow> body s \<noteq> None"
    "\<And>s s'. I s \<Longrightarrow> body s = Some (Inr (Continue s')) \<Longrightarrow> I s' \<and> m s' < m s"
  shows "run_loop body s \<noteq> None"
  using assms(1)
proof (induction "m s" arbitrary: s rule: less_induct)
  case less
  show ?case
  proof (cases "body s")
    case None
    with assms(2) less.prems show ?thesis by blast
  next
    case (Some x)
    with less assms(3) show ?thesis
      by (subst run_loop.simps) (auto split: sum.splits flow.splits)
  qed
qed

section \<open>Computations that may not end\<close>

text \<open>The result of a call that contains such a loop: \<open>None\<close> when it never returns.\<close>

type_synonym 'a outcome = "'a result option"

definition bind_out :: "'a outcome \<Rightarrow> ('a \<Rightarrow> 'b outcome) \<Rightarrow> 'b outcome" where
  "bind_out m f = (case m of None \<Rightarrow> None | Some (Inl e) \<Rightarrow> Some (Inl e) | Some (Inr x) \<Rightarrow> f x)"

abbreviation ok :: "'a \<Rightarrow> 'a outcome" where
  "ok x \<equiv> Some (Inr x)"

lemma bind_out_simps [simp, fault_simps]:
  "bind_out None f = None" "bind_out (Some (Inl e)) f = Some (Inl e)" "bind_out (ok x) f = f x"
  by (simp_all add: bind_out_def)

lemma bind_out_ok_iff: "bind_out m f = ok y \<longleftrightarrow> (\<exists>x. m = ok x \<and> f x = ok y)"
  by (auto simp: bind_out_def split: option.splits sum.splits)

lemma bind_out_okE [elim!]:
  assumes "bind_out m f = ok y"
  obtains x where "m = ok x" "f x = ok y"
  using assms by (auto simp: bind_out_ok_iff)

section \<open>Transition systems\<close>

text \<open>States reachable from an initial state by any number of steps, and the interface through
  which every component with interleaved operations proves its invariant once.\<close>

definition reachable :: "('s \<Rightarrow> bool) \<Rightarrow> ('s \<Rightarrow> 's \<Rightarrow> bool) \<Rightarrow> 's \<Rightarrow> bool" where
  "reachable init step t \<longleftrightarrow> (\<exists>s. init s \<and> step\<^sup>*\<^sup>* s t)"

lemma reachable_init: "init s \<Longrightarrow> reachable init step s"
  by (auto simp: reachable_def)

lemma reachable_step: "reachable init step s \<Longrightarrow> step s t \<Longrightarrow> reachable init step t"
  by (auto simp: reachable_def intro: rtranclp.rtrancl_into_rtrancl)

locale invariant_system =
  fixes init :: "'s \<Rightarrow> bool" and step :: "'s \<Rightarrow> 's \<Rightarrow> bool" and inv :: "'s \<Rightarrow> bool"
  assumes inv_init: "init s \<Longrightarrow> inv s"
    and inv_step: "inv s \<Longrightarrow> step s t \<Longrightarrow> inv t"
begin

lemma inv_steps: "step\<^sup>*\<^sup>* s t \<Longrightarrow> inv s \<Longrightarrow> inv t"
  by (induction rule: rtranclp_induct) (auto intro: inv_step)

lemma inv_reachable: "reachable init step t \<Longrightarrow> inv t"
  by (auto simp: reachable_def intro: inv_steps inv_init)

end

section \<open>System calls\<close>

text \<open>On Linux \<open>EWOULDBLOCK\<close> and \<open>EAGAIN\<close> are the same number, so one constructor stands
  for both of the source's tests.\<close>

datatype errno =
    EINTR | EAGAIN | EBADF | EPIPE | ECONNRESET | EMFILE | ENFILE | ENOSPC | ECONNABORTED
  | EPROTO | EPERM | EFAULT | EINVAL | ENOBUFS | ENOMEM | ENOTSOCK | EOPNOTSUPP | ENOENT
  | E_other nat

abbreviation EWOULDBLOCK :: errno where
  "EWOULDBLOCK \<equiv> EAGAIN"

text \<open>What a reading call gives back: the bytes it stored (none: end of file) or -1 and errno.\<close>

datatype sysret = Ret "char list" | Fail errno

text \<open>What a writing call gives back: how many bytes it took, or -1 and errno.\<close>

datatype wret = Wrote nat | WFail errno

section \<open>Bytes at a position\<close>

lemma drop_eq_ConsD:
  "drop i xs = y # ys \<Longrightarrow> i < length xs \<and> xs ! i = y \<and> drop (Suc i) xs = ys"
  by (metis Cons_nth_drop_Suc drop_all linorder_not_less list.distinct(1) list.inject)

lemma nth_via_drop_append:
  assumes "drop i xs = s @ y # ys"
  shows "i + length s < length xs" and "xs ! (i + length s) = y"
    and "drop (Suc (i + length s)) xs = ys"
proof -
  have "drop (i + length s) xs = y # ys"
    using assms by (metis add.commute append_eq_conv_conj drop_drop)
  then show "i + length s < length xs" and "xs ! (i + length s) = y"
    and "drop (Suc (i + length s)) xs = ys"
    by (auto dest: drop_eq_ConsD)
qed

lemma drop_append_skip: "drop i xs = s @ ys \<Longrightarrow> drop (i + length s) xs = ys"
  by (metis add.commute append_eq_conv_conj drop_drop)

lemma take_drop_prefix: "drop i xs = s @ ys \<Longrightarrow> take (length s) (drop i xs) = s"
  by simp

lemma map_the_map_Some [simp]: "map the (map Some xs) = xs"
  by (induction xs) auto

lemma map_Some_map_the: "None \<notin> set cs \<Longrightarrow> map Some (map the cs) = cs"
  by (induction cs) auto

end
