(* ===== verification/C_String.thy ===== *)
theory C_String
  imports Adl_Prelude
begin

text \<open>
  Character-level helpers: reading a memory block at an index, \<open>starts_with\<close> of
  \<open>src/src/tool/util.cpp\<close>, and the two standard-library conversions the server uses on its
  \<open>Content-Length\<close> header, \<open>std::to_string\<close> and \<open>std::stoi\<close>, with the lemma that they
  are inverse to each other on the range of \<open>int\<close>.
\<close>

abbreviation CR :: char where "CR \<equiv> CHR 0x0D"
abbreviation LF :: char where "LF \<equiv> CHR 0x0A"
abbreviation SP :: char where "SP \<equiv> CHR 0x20"
abbreviation CRLF :: string where "CRLF \<equiv> [CR, LF]"

section \<open>Reading memory\<close>

definition peek_at :: "char option list \<Rightarrow> nat \<Rightarrow> char result" where
  "peek_at buf i =
     (if i < length buf then (case buf ! i of None \<Rightarrow> Inl Uninit_read | Some c \<Rightarrow> Inr c)
      else Inl Out_of_bounds)"

definition substr_at :: "char option list \<Rightarrow> nat \<Rightarrow> nat \<Rightarrow> string result" where
  "substr_at buf i n =
     (if length buf < i + n then Inl Out_of_bounds
      else let cs = take n (drop i buf) in
           if None \<in> set cs then Inl Uninit_read else Inr (map the cs))"

lemma peek_at_InrD: "peek_at buf i = Inr c \<Longrightarrow> i < length buf \<and> buf ! i = Some c"
  by (auto simp: peek_at_def split: if_splits option.splits)

lemma peek_at_drop: "drop i buf = Some c # rest \<Longrightarrow> peek_at buf i = Inr c"
  by (auto simp: peek_at_def dest: drop_eq_ConsD)

lemma peek_at_ok: "i < n \<Longrightarrow> n \<le> length buf \<Longrightarrow> None \<notin> set (take n buf) \<Longrightarrow> \<exists>c. peek_at buf i = Inr c"
proof -
  assume a: "i < n" "n \<le> length buf" "None \<notin> set (take n buf)"
  then have "buf ! i \<in> set (take n buf)" by (metis in_set_conv_nth length_take min.absorb2 nth_take)
  with a show ?thesis by (cases "buf ! i") (auto simp: peek_at_def)
qed

lemma substr_at_drop:
  assumes "drop i buf = map Some s @ rest" "i \<le> length buf"
  shows "substr_at buf i (length s) = Inr s"
proof -
  have "length s \<le> length (drop i buf)" using assms(1) by simp
  then have "i + length s \<le> length buf" using assms(2) by simp
  moreover have "take (length s) (drop i buf) = map Some s" using assms(1) by simp
  moreover have "None \<notin> set (map Some s)" by auto
  ultimately show ?thesis by (simp add: substr_at_def Let_def comp_def)
qed

lemma substr_at_ok:
  assumes "i + m \<le> n" "n \<le> length buf" "None \<notin> set (take n buf)"
  shows "\<exists>s. substr_at buf i m = Inr s \<and> length s = m"
proof -
  have "take m (drop i buf) = drop i (take (i + m) (take n buf))"
    using assms(1) by (simp add: drop_take min.absorb1)
  then have "None \<notin> set (take m (drop i buf))"
    using assms(3) by (metis in_set_dropD in_set_takeD)
  with assms show ?thesis by (simp add: substr_at_def Let_def)
qed

section \<open>Prefix tests\<close>

text \<open>\<open>starts_with\<close> walks both strings until the prefix ends or they differ; so does
  \<open>strncmp(s, literal, strlen(literal)) == 0\<close>.\<close>

fun starts_with :: "char option list \<Rightarrow> nat \<Rightarrow> string \<Rightarrow> bool result" where
  "starts_with buf i [] = Inr True"
| "starts_with buf i (p # ps) =
     bind_res (peek_at buf i) (\<lambda>c. if c \<noteq> p then Inr False else starts_with buf (Suc i) ps)"

fun strncmp_eq :: "char option list \<Rightarrow> nat \<Rightarrow> string \<Rightarrow> bool result" where
  "strncmp_eq buf i [] = Inr True"
| "strncmp_eq buf i (p # ps) =
     bind_res (peek_at buf i) (\<lambda>c. if c \<noteq> p then Inr False else strncmp_eq buf (Suc i) ps)"

lemma strncmp_eq_starts_with: "strncmp_eq buf i ps = starts_with buf i ps"
proof (induction ps arbitrary: i)
  case (Cons p ps)
  then show ?case by (cases "peek_at buf i") simp_all
qed simp

lemma starts_with_True:
  "drop i buf = map Some ps @ rest \<Longrightarrow> starts_with buf i ps = Inr True"
  by (induction ps arbitrary: i) (auto simp: peek_at_drop dest: drop_eq_ConsD)

lemma starts_with_differs:
  "drop i buf = map Some s @ Some c # rest \<Longrightarrow> length s < length ps \<Longrightarrow> take (length s) ps = s
    \<Longrightarrow> ps ! length s \<noteq> c \<Longrightarrow> starts_with buf i ps = Inr False"
proof (induction s arbitrary: i ps)
  case Nil
  then show ?case by (cases ps) (auto simp: peek_at_drop)
next
  case (Cons a s)
  then obtain qs where ps: "ps = a # qs" by (cases ps) auto
  have "peek_at buf i = Inr a" using Cons.prems(1) by (simp add: peek_at_drop)
  moreover have "drop (Suc i) buf = map Some s @ Some c # rest"
    using Cons.prems(1) by (auto dest: drop_eq_ConsD)
  ultimately show ?case using Cons.IH [of "Suc i" qs] Cons.prems ps by simp
qed

text \<open>A prefix test stops at the first byte that differs, so a delimiter that does not occur in
  the prefix bounds how far it reads.\<close>

lemma starts_with_bounded:
  assumes "i \<le> e" "e < length buf" "None \<notin> set (take (Suc e) buf)" "buf ! e = Some d" "d \<notin> set ps"
  shows "\<exists>v. starts_with buf i ps = Inr v"
  using assms
proof (induction ps arbitrary: i)
  case Nil
  show ?case by auto
next
  case (Cons p ps)
  obtain c where c: "peek_at buf i = Inr c"
    using peek_at_ok [of i "Suc e" buf] Cons.prems by auto
  show ?case
  proof (cases "c = p")
    case True
    with Cons.prems c have "i \<noteq> e" by (auto dest: peek_at_InrD)
    with Cons.prems have "Suc i \<le> e" by simp
    with Cons.IH [of "Suc i"] Cons.prems c True show ?thesis by simp
  next
    case False
    with c show ?thesis by auto
  qed
qed

section \<open>A text at a position\<close>

fun text_at :: "char option list \<Rightarrow> nat \<Rightarrow> string \<Rightarrow> bool" where
  "text_at buf i [] \<longleftrightarrow> i \<le> length buf"
| "text_at buf i (c # s) \<longleftrightarrow> peek_at buf i = Inr c \<and> text_at buf (Suc i) s"

lemma text_at_le: "text_at buf i s \<Longrightarrow> i + length s \<le> length buf"
  by (induction s arbitrary: i) fastforce+

lemma text_at_append:
  "text_at buf i (s @ t) \<longleftrightarrow> text_at buf i s \<and> text_at buf (i + length s) t"
  by (induction s arbitrary: i) (auto dest: text_at_le)

lemma text_at_drop: "text_at buf i s \<longleftrightarrow> i \<le> length buf \<and> (\<exists>rest. drop i buf = map Some s @ rest)"
proof (induction s arbitrary: i)
  case (Cons c s)
  show ?case
  proof
    assume a: "text_at buf i (c # s)"
    then have i: "i < length buf" "buf ! i = Some c" by (auto dest: peek_at_InrD)
    moreover obtain rest where "drop (Suc i) buf = map Some s @ rest"
      using a Cons.IH by auto
    ultimately show "i \<le> length buf \<and> (\<exists>rest. drop i buf = map Some (c # s) @ rest)"
      by (metis Cons_eq_appendI Cons_nth_drop_Suc less_imp_le_nat list.simps(9))
  next
    assume "i \<le> length buf \<and> (\<exists>rest. drop i buf = map Some (c # s) @ rest)"
    then obtain rest where d: "drop i buf = Some c # map Some s @ rest" by auto
    with Cons.IH [of "Suc i"] drop_eq_ConsD [OF d] peek_at_drop [OF d]
    show "text_at buf i (c # s)" by auto
  qed
qed simp

lemma text_at_start: "text_at (map Some s @ rest) 0 s"
  by (simp add: text_at_drop)

lemma text_at_substr: "text_at buf i s \<Longrightarrow> substr_at buf i (length s) = Inr s"
  by (auto simp: text_at_drop intro: substr_at_drop)

lemma text_at_starts_with: "text_at buf i s \<Longrightarrow> starts_with buf i s = Inr True"
  by (auto simp: text_at_drop intro: starts_with_True)

section \<open>Readable memory\<close>

text \<open>The first \<open>n\<close> bytes exist and have been written.\<close>

definition readable_mem :: "char option list \<Rightarrow> nat \<Rightarrow> bool" where
  "readable_mem buf n \<longleftrightarrow> n \<le> length buf \<and> None \<notin> set (take n buf)"

lemma readable_peek: "readable_mem buf n \<Longrightarrow> i < n \<Longrightarrow> \<exists>c. peek_at buf i = Inr c"
  using peek_at_ok by (simp add: readable_mem_def)

lemma readable_substr: "readable_mem buf n \<Longrightarrow> i + m \<le> n \<Longrightarrow> \<exists>s. substr_at buf i m = Inr s"
  using substr_at_ok by (fastforce simp: readable_mem_def)

lemma readable_mono: "readable_mem buf n \<Longrightarrow> m \<le> n \<Longrightarrow> readable_mem buf m"
  by (auto simp: readable_mem_def dest: set_take_subset_set_take [THEN subsetD])

lemma starts_with_line:
  assumes "readable_mem buf e" "peek_at buf (e - 1) = Inr LF" "i < e" "LF \<notin> set ps"
  shows "\<exists>v. starts_with buf i ps = Inr v"
  using starts_with_bounded [of i "e - 1" buf LF ps] assms
  by (auto simp: readable_mem_def dest: peek_at_InrD)

lemma starts_with_text: "starts_with buf i ps = Inr True \<Longrightarrow> i \<le> length buf \<Longrightarrow> text_at buf i ps"
  by (induction ps arbitrary: i) (auto dest: peek_at_InrD split: if_splits)

lemma text_at_nth: "text_at buf i s \<Longrightarrow> j < length s \<Longrightarrow> peek_at buf (i + j) = Inr (s ! j)"
proof (induction s arbitrary: i j)
  case (Cons c s)
  then show ?case using Cons.IH [of "Suc i" "j - 1"] by (cases j) auto
qed simp

section \<open>Decimal conversions\<close>

definition is_digit :: "char \<Rightarrow> bool" where
  "is_digit c \<longleftrightarrow> 48 \<le> (of_char c :: nat) \<and> (of_char c :: nat) \<le> 57"

definition digit_val :: "char \<Rightarrow> int" where
  "digit_val c = of_char c - 48"

definition digit_char :: "nat \<Rightarrow> char" where
  "digit_char d = char_of (48 + d)"

fun nat_digits :: "nat \<Rightarrow> string" where
  "nat_digits n = (if n < 10 then [digit_char n] else nat_digits (n div 10) @ [digit_char (n mod 10)])"

declare nat_digits.simps [simp del]

definition to_string :: "int \<Rightarrow> string" where
  "to_string x = (if x < 0 then CHR ''-'' # nat_digits (nat (- x)) else nat_digits (nat x))"

definition is_space :: "char \<Rightarrow> bool" where
  "is_space c \<longleftrightarrow> c = SP \<or> (9 \<le> (of_char c :: nat) \<and> (of_char c :: nat) \<le> 13)"

definition digits_val :: "string \<Rightarrow> int" where
  "digits_val ds = foldl (\<lambda>acc c. 10 * acc + digit_val c) 0 ds"

definition stoi :: "string \<Rightarrow> int result" where
  "stoi s =
     (let t = dropWhile is_space s;
          neg = (t \<noteq> [] \<and> hd t = CHR ''-'');
          u = (if t \<noteq> [] \<and> (hd t = CHR ''-'' \<or> hd t = CHR ''+'') then tl t else t);
          ds = takeWhile is_digit u;
          v = (if neg then - digits_val ds else digits_val ds)
      in if ds = [] then Inl Invalid_argument
         else if fits_int v then Inr v else Inl Out_of_range)"

lemma digit_char_props:
  assumes "d < 10"
  shows "is_digit (digit_char d)" "digit_val (digit_char d) = int d"
    "\<not> is_space (digit_char d)" "digit_char d \<noteq> CHR ''-''" "digit_char d \<noteq> CHR ''+''"
    "digit_char d \<noteq> CR" "digit_char d \<noteq> SP"
proof -
  have v: "of_char (digit_char d) = 48 + d" using assms by (simp add: digit_char_def)
  have vi: "(of_char (digit_char d) :: int) = 48 + int d"
    using v by (metis of_nat_add of_nat_numeral of_nat_of_char)
  show "is_digit (digit_char d)" "digit_val (digit_char d) = int d"
    using assms v vi by (simp_all add: is_digit_def digit_val_def)
  have "digit_char d \<noteq> c" if "(of_char c :: nat) < 48" for c
    using that v by auto
  then show "digit_char d \<noteq> CHR ''-''" "digit_char d \<noteq> CHR ''+''" "digit_char d \<noteq> CR"
    and sp: "digit_char d \<noteq> SP" by simp_all
  show "\<not> is_space (digit_char d)" using v sp by (simp add: is_space_def)
qed

lemma nat_digits_set: "c \<in> set (nat_digits n) \<Longrightarrow> \<exists>d<10. c = digit_char d"
proof (induction n rule: nat_digits.induct)
  case (1 n)
  show ?case
  proof (cases "n < 10")
    case True
    with "1.prems" show ?thesis by (subst (asm) nat_digits.simps) auto
  next
    case False
    with "1.prems" have "c \<in> set (nat_digits (n div 10)) \<or> c = digit_char (n mod 10)"
      by (subst (asm) nat_digits.simps) auto
    with "1.IH" [OF False] show ?thesis by (metis mod_less_divisor zero_less_numeral)
  qed
qed

lemma nat_digits_all_digits: "\<forall>c\<in>set (nat_digits n). is_digit c"
  using nat_digits_set digit_char_props(1) by blast

lemma nat_digits_not_Nil: "nat_digits n \<noteq> []"
  by (subst nat_digits.simps) simp

lemma digits_val_snoc: "digits_val (ds @ [c]) = 10 * digits_val ds + digit_val c"
  by (simp add: digits_val_def)

lemma digits_val_nat_digits: "digits_val (nat_digits n) = int n"
proof (induction n rule: nat_digits.induct)
  case (1 n)
  show ?case
  proof (cases "n < 10")
    case True
    then show ?thesis
      by (subst nat_digits.simps) (simp add: digits_val_def digit_char_props)
  next
    case False
    with "1.IH" show ?thesis
      by (subst nat_digits.simps) (simp add: digits_val_snoc digit_char_props zdiv_int zmod_int)
  qed
qed

lemma hd_nat_digits:
  "\<not> is_space (hd (nat_digits n)) \<and> hd (nat_digits n) \<noteq> CHR ''-'' \<and> hd (nat_digits n) \<noteq> CHR ''+''"
  using nat_digits_set [of "hd (nat_digits n)" n] nat_digits_not_Nil [of n]
  by (auto dest: digit_char_props(3-5))

lemma takeWhile_all: "\<forall>c\<in>set ds. P c \<Longrightarrow> takeWhile P ds = ds"
  by (simp add: takeWhile_eq_all_conv)

lemma stoi_to_string:
  assumes "fits_int x"
  shows "stoi (to_string x) = Inr x"
proof -
  note D = nat_digits_all_digits [THEN takeWhile_all] nat_digits_not_Nil digits_val_nat_digits
  show ?thesis
  proof (cases "x < 0")
    case True
    then have "dropWhile is_space (to_string x) = CHR ''-'' # nat_digits (nat (- x))"
      by (simp add: to_string_def is_space_def)
    with True assms show ?thesis by (simp add: stoi_def Let_def D)
  next
    case False
    have "dropWhile is_space (nat_digits (nat x)) = nat_digits (nat x)"
      using hd_nat_digits [of "nat x"] nat_digits_not_Nil [of "nat x"]
      by (cases "nat_digits (nat x)") auto
    with False assms hd_nat_digits [of "nat x"] show ?thesis
      by (simp add: stoi_def Let_def to_string_def D)
  qed
qed

lemma to_string_plain: "0 \<le> x \<Longrightarrow> CR \<notin> set (to_string x) \<and> SP \<notin> set (to_string x)"
  by (auto simp: to_string_def dest!: nat_digits_set dest: digit_char_props(6,7))

end
