(* ===== verification/Http_Parser.thy ===== *)
theory Http_Parser
  imports C_String
begin

text \<open>
  \<open>src/src/http/httpParser.h\<close> and \<open>httpParser.cpp\<close>: the request parser, as the nest of state
  machines it is.  \<open>hp_buf\<close> is the memory the pointer \<open>buf_\<close> can reach (the message and
  whatever the receive buffer holds after it), \<open>hp_len\<close> the length the parser is told.  Every
  read goes through \<open>peek_at\<close>, so a read past the block or of an unwritten byte is a fault of
  the model.  The two loops that can spin for ever, \<open>requestHeadParse\<close> and \<open>parse\<close>, are
  instances of \<open>run_loop\<close>: \<open>None\<close> means that the call never returns.
\<close>

section \<open>Requests\<close>

datatype http_method = GET | POST | DONT_UNDERSTAND

record httpRequestLine =
  rl_version :: string
  rl_url :: string
  rl_method :: "http_method option"

type_synonym headMap = "string \<rightharpoonup> string"

record httpRequest =
  rq_parseSize :: nat
  rq_line :: httpRequestLine
  rq_head :: headMap
  rq_body :: string

definition new_httpRequest :: httpRequest where
  "new_httpRequest =
     \<lparr>rq_parseSize = 0, rq_line = \<lparr>rl_version = [], rl_url = [], rl_method = None\<rparr>,
      rq_head = Map.empty, rq_body = []\<rparr>"

text \<open>\<open>std::map::insert\<close> keeps the entry that is already there.\<close>

definition head_add :: "headMap \<Rightarrow> string \<Rightarrow> string \<Rightarrow> headMap" where
  "head_add m k v = (if m k = None then m(k \<mapsto> v) else m)"

definition head_remove :: "headMap \<Rightarrow> string \<Rightarrow> headMap" where
  "head_remove m k = m(k := None)"

definition head_getValue :: "headMap \<Rightarrow> string \<Rightarrow> string" where
  "head_getValue m k = (case m k of Some v \<Rightarrow> v | None \<Rightarrow> [])"

definition head_get :: "headMap \<Rightarrow> string \<Rightarrow> string \<times> string" where
  "head_get m k = (case m k of Some v \<Rightarrow> (k, v) | None \<Rightarrow> ([], []))"

section \<open>The parser object\<close>

datatype FinnalState = Success | Failed | Incomplete
datatype LineState = LineOk | LineBad | LineIncomplete
datatype ProcessState = Line | Head | Body

record httpParser =
  hp_final :: FinnalState
  hp_line :: LineState
  hp_process :: ProcessState
  hp_request :: httpRequest
  hp_lbeg :: nat
  hp_lend :: nat
  hp_cur :: nat
  hp_buf :: "char option list"
  hp_len :: nat

definition new_httpParser :: "char option list \<Rightarrow> nat \<Rightarrow> httpParser" where
  "new_httpParser buf len =
     \<lparr>hp_final = Incomplete, hp_line = LineIncomplete, hp_process = Line,
      hp_request = new_httpRequest, hp_lbeg = 0, hp_lend = 0, hp_cur = 0,
      hp_buf = buf, hp_len = len\<rparr>"

definition set_line :: "(httpRequestLine \<Rightarrow> httpRequestLine) \<Rightarrow> httpParser \<Rightarrow> httpParser" where
  "set_line f p = p\<lparr>hp_request := (hp_request p)\<lparr>rq_line := f (rq_line (hp_request p))\<rparr>\<rparr>"

abbreviation setMethod :: "http_method \<Rightarrow> httpParser \<Rightarrow> httpParser" where
  "setMethod m \<equiv> set_line (\<lambda>l. l\<lparr>rl_method := Some m\<rparr>)"

abbreviation setUrl :: "string \<Rightarrow> httpParser \<Rightarrow> httpParser" where
  "setUrl u \<equiv> set_line (\<lambda>l. l\<lparr>rl_url := u\<rparr>)"

abbreviation setVersion :: "string \<Rightarrow> httpParser \<Rightarrow> httpParser" where
  "setVersion v \<equiv> set_line (\<lambda>l. l\<lparr>rl_version := v\<rparr>)"

section \<open>The request line\<close>

text \<open>The first loop of \<open>requestLineParse\<close>: the cursor after the loop, and whether it left
  through \<open>goto finished1\<close> because the input ended right after a carriage return.\<close>

function line_scan :: "char option list \<Rightarrow> nat \<Rightarrow> nat \<Rightarrow> (nat \<times> bool) result" where
  "line_scan buf len cur =
     (if cur = len then Inr (cur, False)
      else bind_res (peek_at buf cur) (\<lambda>c.
        if c \<noteq> CR then line_scan buf len (Suc cur)
        else if Suc cur = len then Inr (Suc cur, True)
        else bind_res (peek_at buf (Suc cur)) (\<lambda>d.
          if d = LF then Inr (Suc (Suc cur), False)
          else line_scan buf len (Suc (Suc cur)))))"
  by pat_completeness auto
termination
  by (relation "measure (\<lambda>(buf, len, cur). length buf - cur)") (auto dest!: peek_at_InrD)

declare line_scan.simps [simp del]

text \<open>\<open>while (cur_ != stop && buf_[cur_++] != c) continue;\<close>\<close>

function scan_past :: "char option list \<Rightarrow> nat \<Rightarrow> char \<Rightarrow> nat \<Rightarrow> nat result" where
  "scan_past buf stop c cur =
     (if cur = stop then Inr cur
      else bind_res (peek_at buf cur) (\<lambda>d.
        if d \<noteq> c then scan_past buf stop c (Suc cur) else Inr (Suc cur)))"
  by pat_completeness auto
termination
  by (relation "measure (\<lambda>(buf, stop, c, cur). length buf - cur)") (auto dest!: peek_at_InrD)

declare scan_past.simps [simp del]

text \<open>The second loop, one definition per value of \<open>rlState\<close>; each starts with the loop test.\<close>

definition rl_version_step :: "httpParser \<Rightarrow> httpParser result" where
  "rl_version_step p =
     (if hp_cur p = hp_lend p then Inr p
      else bind_res (strncmp_eq (hp_buf p) (hp_cur p) ''HTTP/1.1'') (\<lambda>is11.
           bind_res (if is11 then Inr True else strncmp_eq (hp_buf p) (hp_cur p) ''HTTP/1.0'') (\<lambda>ok.
           if ok then bind_res (substr_at (hp_buf p) (hp_cur p) 8) (\<lambda>v.
                  Inr ((setVersion v p)\<lparr>hp_cur := hp_lend p, hp_line := LineOk\<rparr>))
           else Inr (p\<lparr>hp_cur := hp_lend p, hp_line := LineBad\<rparr>))))"

definition rl_url_step :: "httpParser \<Rightarrow> httpParser result" where
  "rl_url_step p =
     (if hp_cur p = hp_lend p then Inr p
      else bind_res (scan_past (hp_buf p) (hp_lend p) SP (hp_cur p)) (\<lambda>cur.
           if cur = hp_lend p then Inr (p\<lparr>hp_cur := cur\<rparr>)
           else bind_res (substr_at (hp_buf p) (hp_cur p) (cur - hp_cur p - 1)) (\<lambda>u.
                rl_version_step ((setUrl u p)\<lparr>hp_cur := cur\<rparr>))))"

definition rl_space_step :: "httpParser \<Rightarrow> httpParser result" where
  "rl_space_step p =
     (if hp_cur p = hp_lend p then Inr p
      else bind_res (peek_at (hp_buf p) (hp_cur p)) (\<lambda>c.
           if c \<noteq> SP then Inr (p\<lparr>hp_cur := Suc (hp_cur p)\<rparr>)
           else rl_url_step (p\<lparr>hp_cur := Suc (hp_cur p)\<rparr>)))"

definition rl_method_step :: "httpParser \<Rightarrow> httpParser result" where
  "rl_method_step p =
     (if hp_cur p = hp_lend p then Inr p
      else let len = hp_lend p - hp_lbeg p; buf = hp_buf p; beg = hp_lbeg p in
        bind_res (if 3 \<le> len then starts_with buf beg ''GET'' else Inr False) (\<lambda>isGet.
        if isGet then rl_space_step ((setMethod GET p)\<lparr>hp_cur := hp_cur p + 3\<rparr>)
        else bind_res (if 4 \<le> len then starts_with buf beg ''POST'' else Inr False) (\<lambda>isPost.
        if isPost then rl_space_step ((setMethod POST p)\<lparr>hp_cur := hp_cur p + 4\<rparr>)
        else bind_res (starts_with buf beg ''HEAD'') (\<lambda>isHead.
             bind_res (if isHead then starts_with buf beg ''PATCH'' else Inr False) (\<lambda>unsupported.
             if unsupported then Inr (p\<lparr>hp_line := LineBad\<rparr>)
             else Inr (p\<lparr>hp_line := LineBad\<rparr>))))))"

definition requestLineParse :: "httpParser \<Rightarrow> httpParser result" where
  "requestLineParse p =
     bind_res (line_scan (hp_buf p) (hp_len p) (hp_cur p)) (\<lambda>(cur, atEnd).
       if atEnd then Inr (p\<lparr>hp_cur := cur, hp_line := LineIncomplete\<rparr>)
       else rl_method_step (p\<lparr>hp_lend := cur, hp_cur := hp_lbeg p\<rparr>))"

section \<open>The header lines\<close>

text \<open>\<open>for (cur_ = l_beg_; cur_ < l_end_; cur_++) if (buf_[cur_] == ' ') break;\<close>\<close>

function find_space :: "char option list \<Rightarrow> nat \<Rightarrow> nat \<Rightarrow> nat result" where
  "find_space buf stop cur =
     (if cur < stop then bind_res (peek_at buf cur) (\<lambda>c.
        if c = SP then Inr cur else find_space buf stop (Suc cur))
      else Inr cur)"
  by pat_completeness auto
termination
  by (relation "measure (\<lambda>(buf, stop, cur). length buf - cur)") (auto dest!: peek_at_InrD)

declare find_space.simps [simp del]

text \<open>\<open>std::string(first, last)\<close> with both ends given as positions; a range of negative length
  makes the constructor throw \<open>std::length_error\<close>.\<close>

definition string_range :: "char option list \<Rightarrow> int \<Rightarrow> int \<Rightarrow> string result" where
  "string_range buf i j =
     (if j < i then Inl Length_error
      else if i < 0 then Inl Out_of_bounds
      else substr_at buf (nat i) (nat (j - i)))"

text \<open>One pass of the loop, with its test: \<open>Return\<close> for the loop's exits, \<open>Continue\<close> for its
  \<open>continue\<close> and its end.\<close>

definition head_iteration :: "httpParser \<Rightarrow> (httpParser, httpParser) flow result" where
  "head_iteration p =
     (if hp_cur p = hp_len p then Inr (Return p)
      else let p1 = p\<lparr>hp_cur := hp_lend p, hp_lbeg := hp_lend p, hp_line := LineIncomplete\<rparr> in
        bind_res (scan_past (hp_buf p1) (hp_len p1) CR (hp_cur p1)) (\<lambda>cur2.
        if cur2 = hp_len p1 then Inr (Return (p1\<lparr>hp_cur := cur2\<rparr>))
        else bind_res (peek_at (hp_buf p1) cur2) (\<lambda>c.
        if c \<noteq> LF then Inr (Continue (p1\<lparr>hp_cur := Suc cur2\<rparr>))
        else let p4 = p1\<lparr>hp_cur := Suc cur2, hp_lend := Suc cur2\<rparr> in
          if hp_lbeg p4 + 2 = hp_lend p4 then Inr (Return (p4\<lparr>hp_line := LineOk\<rparr>))
          else bind_res (find_space (hp_buf p4) (hp_lend p4) (hp_lbeg p4)) (\<lambda>cur5.
          if cur5 = hp_lend p4 then Inr (Return (p4\<lparr>hp_cur := cur5, hp_line := LineBad\<rparr>))
          else bind_res (string_range (hp_buf p4) (int (hp_lbeg p4)) (int cur5 - 1)) (\<lambda>k.
               bind_res (string_range (hp_buf p4) (int cur5 + 1) (int (hp_lend p4) - 2)) (\<lambda>v.
               Inr (Continue (p4\<lparr>hp_cur := cur5, hp_line := LineOk,
                 hp_request := (hp_request p4)\<lparr>rq_head :=
                   head_add (rq_head (hp_request p4)) k v\<rparr>\<rparr>))))))))"

definition requestHeadParse :: "httpParser \<Rightarrow> httpParser result option" where
  "requestHeadParse = run_loop (\<lambda>p. Some (head_iteration p))"

section \<open>The body and the whole request\<close>

definition requestBodyParse :: "httpParser \<Rightarrow> int \<Rightarrow> httpParser result" where
  "requestBodyParse p len =
     (if \<not> fits_int (int (hp_cur p) + len) then Inl Int_overflow
      else if int (hp_cur p) + len > int (hp_len p) then Inr (p\<lparr>hp_line := LineIncomplete\<rparr>)
      else bind_res (substr_at (hp_buf p) (hp_cur p) (nat len)) (\<lambda>body.
        Inr (p\<lparr>hp_request := (hp_request p)\<lparr>rq_body := body\<rparr>,
               hp_cur := hp_cur p + nat len, hp_line := LineOk\<rparr>)))"

abbreviation set_parseSize :: "httpParser \<Rightarrow> httpParser" where
  "set_parseSize p \<equiv> p\<lparr>hp_request := (hp_request p)\<lparr>rq_parseSize := hp_cur p\<rparr>, hp_final := Success\<rparr>"

definition parse_line_state :: "httpParser \<Rightarrow> (httpParser, httpParser) flow result" where
  "parse_line_state p =
     bind_res (requestLineParse p) (\<lambda>p'.
       Inr (case hp_line p' of
              LineBad \<Rightarrow> Return (p'\<lparr>hp_final := Failed\<rparr>)
            | LineOk \<Rightarrow> Continue (p'\<lparr>hp_process := Head\<rparr>)
            | LineIncomplete \<Rightarrow> Return (p'\<lparr>hp_final := Incomplete\<rparr>)))"

definition parse_head_state :: "httpParser \<Rightarrow> (httpParser, httpParser) flow result option" where
  "parse_head_state p =
     map_option (\<lambda>r. bind_res r (\<lambda>p'.
       Inr (case hp_line p' of
              LineBad \<Rightarrow> Return (p'\<lparr>hp_final := Failed\<rparr>)
            | LineOk \<Rightarrow>
                (if rl_method (rq_line (hp_request p')) = Some GET then Return (set_parseSize p')
                 else Continue (p'\<lparr>hp_process := Body\<rparr>))
            | LineIncomplete \<Rightarrow> Return (p'\<lparr>hp_final := Incomplete\<rparr>)))) (requestHeadParse p)"

definition parse_body_state :: "httpParser \<Rightarrow> (httpParser, httpParser) flow result" where
  "parse_body_state p =
     (let kv = head_get (rq_head (hp_request p)) ''Content-Length'' in
      if rl_method (rq_line (hp_request p)) = Some POST \<and> fst kv \<noteq> [] \<and> hp_cur p < hp_len p
      then bind_res (stoi (snd kv)) (\<lambda>value.
        if value > 0
        then bind_res (requestBodyParse p value) (\<lambda>p'.
          Inr (case hp_line p' of
                 LineBad \<Rightarrow> Return (p'\<lparr>hp_final := Failed\<rparr>)
               | LineOk \<Rightarrow> Return (set_parseSize p')
               | LineIncomplete \<Rightarrow> Return (p'\<lparr>hp_final := Incomplete\<rparr>)))
        else Inr (Continue p))
      else Inr (Return (p\<lparr>hp_final := Failed\<rparr>)))"

definition parse_iteration :: "httpParser \<Rightarrow> (httpParser, httpParser) flow result option" where
  "parse_iteration q =
     (if hp_cur q = hp_len q then Some (Inr (Return q))
      else let p = q\<lparr>hp_line := LineIncomplete\<rparr> in
        case hp_process p of
          Line \<Rightarrow> Some (parse_line_state p)
        | Head \<Rightarrow> parse_head_state p
        | Body \<Rightarrow> Some (parse_body_state p))"

definition parse_loop :: "httpParser \<Rightarrow> httpParser result option" where
  "parse_loop = run_loop parse_iteration"

text \<open>The constructor followed by \<open>parse()\<close>, as \<open>httpMessageCallback\<close> uses them.\<close>

definition parse_request :: "char option list \<Rightarrow> nat \<Rightarrow> httpParser result option" where
  "parse_request buf len = parse_loop (new_httpParser buf len)"

text \<open>The loops unrolled once.\<close>

lemma requestHeadParse_unfold:
  "requestHeadParse p = (case head_iteration p of
     Inl e \<Rightarrow> Some (Inl e)
   | Inr (Return p') \<Rightarrow> Some (Inr p')
   | Inr (Continue p') \<Rightarrow> requestHeadParse p')"
  unfolding requestHeadParse_def by (subst run_loop.simps) simp

lemma parse_loop_unfold:
  "parse_loop q = (case parse_iteration q of
     None \<Rightarrow> None
   | Some (Inl e) \<Rightarrow> Some (Inl e)
   | Some (Inr (Return p')) \<Rightarrow> Some (Inr p')
   | Some (Inr (Continue p')) \<Rightarrow> parse_loop p')"
  unfolding parse_loop_def by (subst run_loop.simps) simp

lemmas parse_states = parse_iteration_def parse_line_state_def parse_head_state_def parse_body_state_def

text \<open>Rewriting a call on a concrete message to its result.\<close>

lemmas parser_eval = parse_request_def parse_loop_unfold parse_iteration_def parse_line_state_def
  parse_head_state_def parse_body_state_def new_httpParser_def new_httpRequest_def
  requestLineParse_def line_scan.simps peek_at_def rl_method_step_def rl_space_step_def
  rl_url_step_def scan_past.simps rl_version_step_def set_line_def substr_at_def
  requestHeadParse_unfold head_iteration_def find_space.simps string_range_def Let_def requestBodyParse_def
  head_get_def head_add_def

section \<open>Scanning a text that is there\<close>

lemma scan_past_found:
  assumes "text_at buf cur (s @ [c])" "c \<notin> set s" "cur + length s < stop"
  shows "scan_past buf stop c cur = Inr (Suc (cur + length s))"
  using assms
proof (induction s arbitrary: cur)
  case Nil
  then show ?case by (subst scan_past.simps) simp
next
  case (Cons d s)
  then show ?case using Cons.IH [of "Suc cur"] by (subst scan_past.simps) auto
qed

lemma line_scan_found:
  assumes "text_at buf cur (s @ CRLF)" "CR \<notin> set s" "cur + length s + 2 \<le> len"
  shows "line_scan buf len cur = Inr (cur + length s + 2, False)"
  using assms
proof (induction s arbitrary: cur)
  case Nil
  then show ?case by (subst line_scan.simps) simp
next
  case (Cons d s)
  then show ?case using Cons.IH [of "Suc cur"] by (subst line_scan.simps) auto
qed

lemma find_space_found:
  assumes "text_at buf cur (s @ [SP])" "SP \<notin> set s" "cur + length s < stop"
  shows "find_space buf stop cur = Inr (cur + length s)"
  using assms
proof (induction s arbitrary: cur)
  case Nil
  then show ?case by (subst find_space.simps) simp
next
  case (Cons d s)
  then show ?case using Cons.IH [of "Suc cur"] by (subst find_space.simps) auto
qed

section \<open>Well-formed requests\<close>

fun method_text :: "http_method \<Rightarrow> string" where
  "method_text GET = ''GET''"
| "method_text POST = ''POST''"
| "method_text DONT_UNDERSTAND = []"

definition line_text :: "http_method \<Rightarrow> string \<Rightarrow> string \<Rightarrow> string" where
  "line_text m u v = method_text m @ [SP] @ u @ [SP] @ v @ CRLF"

definition header_line :: "string \<times> string \<Rightarrow> string" where
  "header_line kv = fst kv @ '': '' @ snd kv @ CRLF"

definition head_text :: "(string \<times> string) list \<Rightarrow> string" where
  "head_text hs = concat (map header_line hs) @ CRLF"

definition request_text :: "http_method \<Rightarrow> string \<Rightarrow> string \<Rightarrow> (string \<times> string) list \<Rightarrow> string" where
  "request_text m u v hs = line_text m u v @ head_text hs"

definition ok_url :: "string \<Rightarrow> bool" where
  "ok_url u \<longleftrightarrow> SP \<notin> set u \<and> CR \<notin> set u"

definition ok_version :: "string \<Rightarrow> bool" where
  "ok_version v \<longleftrightarrow> v = ''HTTP/1.1'' \<or> v = ''HTTP/1.0''"

definition ok_header :: "string \<times> string \<Rightarrow> bool" where
  "ok_header kv \<longleftrightarrow> SP \<notin> set (fst kv) \<and> CR \<notin> set (fst kv) \<and> CR \<notin> set (snd kv)"

lemma strncmp_version:
  assumes "text_at buf i v" "ok_version v"
  shows "bind_res (strncmp_eq buf i ''HTTP/1.1'') (\<lambda>is11.
      bind_res (if is11 then Inr True else strncmp_eq buf i ''HTTP/1.0'') f) = f True"
  using assms by (auto simp: ok_version_def)

lemma rl_version_step_ok:
  assumes "text_at (hp_buf p) (hp_cur p) v" "ok_version v" "hp_cur p \<noteq> hp_lend p"
  shows "rl_version_step p = Inr ((setVersion v p)\<lparr>hp_cur := hp_lend p, hp_line := LineOk\<rparr>)"
proof -
  have "length v = 8" using assms(2) by (auto simp: ok_version_def)
  then have "substr_at (hp_buf p) (hp_cur p) 8 = Inr v"
    using text_at_substr [OF assms(1)] by simp
  with assms(3) show ?thesis
    by (simp add: rl_version_step_def strncmp_version [OF assms(1,2)] del: strncmp_eq.simps)
qed

lemma rl_url_step_ok:
  assumes "text_at (hp_buf p) (hp_cur p) (u @ [SP] @ v @ CRLF)" "ok_url u" "ok_version v"
    "hp_lend p = hp_cur p + length (u @ [SP] @ v @ CRLF)"
  shows "rl_url_step p = Inr ((setVersion v (setUrl u p))\<lparr>hp_cur := hp_lend p, hp_line := LineOk\<rparr>)"
proof -
  let ?c = "Suc (hp_cur p + length u)"
  have at: "text_at (hp_buf p) (hp_cur p) (u @ [SP])" "text_at (hp_buf p) (hp_cur p) u"
    "text_at (hp_buf p) ?c v"
    using assms(1) by (simp_all add: text_at_append)
  have "scan_past (hp_buf p) (hp_lend p) SP (hp_cur p) = Inr ?c"
    using scan_past_found [OF at(1)] assms(2,4) by (simp add: ok_url_def)
  moreover have "substr_at (hp_buf p) (hp_cur p) (?c - hp_cur p - 1) = Inr u"
    using text_at_substr [OF at(2)] by simp
  moreover have "rl_version_step ((setUrl u p)\<lparr>hp_cur := ?c\<rparr>)
      = Inr ((setVersion v (setUrl u p))\<lparr>hp_cur := hp_lend p, hp_line := LineOk\<rparr>)"
    using rl_version_step_ok [of "(setUrl u p)\<lparr>hp_cur := ?c\<rparr>" v] at(3) assms(3,4)
    by (simp add: set_line_def)
  ultimately show ?thesis using assms(4) by (simp add: rl_url_step_def)
qed

lemma rl_space_step_ok:
  assumes "text_at (hp_buf p) (hp_cur p) ([SP] @ u @ [SP] @ v @ CRLF)" "ok_url u" "ok_version v"
    "hp_lend p = hp_cur p + length ([SP] @ u @ [SP] @ v @ CRLF)"
  shows "rl_space_step p = Inr ((setVersion v (setUrl u p))\<lparr>hp_cur := hp_lend p, hp_line := LineOk\<rparr>)"
  using rl_url_step_ok [of "p\<lparr>hp_cur := Suc (hp_cur p)\<rparr>" u v] assms
  by (simp add: rl_space_step_def set_line_def)

lemma rl_method_step_ok:
  assumes "text_at (hp_buf p) (hp_lbeg p) (line_text m u v)" "ok_url u" "ok_version v"
    "m = GET \<or> m = POST" "hp_cur p = hp_lbeg p"
    "hp_lend p = hp_lbeg p + length (line_text m u v)"
  shows "rl_method_step p =
    Inr ((setVersion v (setUrl u (setMethod m p)))\<lparr>hp_cur := hp_lend p, hp_line := LineOk\<rparr>)"
proof -
  let ?p = "(setMethod m p)\<lparr>hp_cur := hp_cur p + length (method_text m)\<rparr>"
  have rest: "text_at (hp_buf p) (hp_lbeg p + length (method_text m)) ([SP] @ u @ [SP] @ v @ CRLF)"
    and start: "text_at (hp_buf p) (hp_lbeg p) (method_text m)"
    using assms(1) by (simp_all add: line_text_def text_at_append)
  have "rl_space_step ?p =
      Inr ((setVersion v (setUrl u (setMethod m p)))\<lparr>hp_cur := hp_lend p, hp_line := LineOk\<rparr>)"
    using rl_space_step_ok [of ?p u v] rest assms(2,3,5,6) by (simp add: set_line_def line_text_def)
  moreover have "rl_method_step p = rl_space_step ?p"
    using assms(4-6) start text_at_starts_with [OF start]
    by (auto simp: rl_method_step_def line_text_def eval_nat_numeral)
  ultimately show ?thesis by simp
qed

lemma requestLineParse_ok:
  assumes "text_at (hp_buf p) 0 (line_text m u v)" "ok_url u" "ok_version v" "m = GET \<or> m = POST"
    "hp_cur p = 0" "hp_lbeg p = 0" "length (line_text m u v) \<le> hp_len p"
  shows "requestLineParse p = Inr ((setVersion v (setUrl u (setMethod m p)))
    \<lparr>hp_lend := length (line_text m u v), hp_cur := length (line_text m u v), hp_line := LineOk\<rparr>)"
proof -
  let ?s = "method_text m @ [SP] @ u @ [SP] @ v"
  have "line_scan (hp_buf p) (hp_len p) 0 = Inr (length ?s + 2, False)"
    using line_scan_found [of "hp_buf p" 0 ?s "hp_len p"] assms
    by (auto simp: line_text_def ok_url_def ok_version_def)
  then have "requestLineParse p = rl_method_step (p\<lparr>hp_lend := length (line_text m u v), hp_cur := 0\<rparr>)"
    using assms(5,6) by (simp add: requestLineParse_def line_text_def)
  then show ?thesis
    using rl_method_step_ok [of "p\<lparr>hp_lend := length (line_text m u v), hp_cur := 0\<rparr>" m u v] assms
    by (simp add: set_line_def)
qed

section \<open>Header blocks\<close>

definition head_put :: "string \<Rightarrow> string \<Rightarrow> httpParser \<Rightarrow> httpParser" where
  "head_put k v p = p\<lparr>hp_request := (hp_request p)\<lparr>rq_head := head_add (rq_head (hp_request p)) k v\<rparr>\<rparr>"

text \<open>One header line: the next line is taken and its key and value recorded.\<close>

lemma requestHeadParse_header:
  assumes "text_at (hp_buf p) (hp_lend p) (header_line kv)" "ok_header kv"
    "hp_lend p + length (header_line kv) \<le> hp_len p" "hp_cur p \<noteq> hp_len p"
  shows "requestHeadParse p = requestHeadParse ((head_put (fst kv) (snd kv) p)
    \<lparr>hp_cur := hp_lend p + length (fst kv) + 1, hp_lbeg := hp_lend p,
     hp_lend := hp_lend p + length (header_line kv), hp_line := LineOk\<rparr>)"
proof -
  obtain k v where kv: "kv = (k, v)" by fastforce
  let ?b = "hp_buf p" and ?e = "hp_lend p" and ?s = "k @ '': '' @ v"
  let ?n = "?e + length (header_line kv)"
  have hl: "header_line kv = ?s @ CRLF" using kv by (simp add: header_line_def)
  then have len: "?n = ?e + length k + length v + 4" by simp
  have at: "text_at ?b ?e (?s @ [CR])" "peek_at ?b (Suc (?e + length ?s)) = Inr LF"
    "text_at ?b ?e ((k @ '':'') @ [SP])" "text_at ?b ?e k" "text_at ?b (?e + length k + 2) v"
    using assms(1) unfolding hl by (simp_all add: text_at_append add.assoc)
  have "scan_past ?b (hp_len p) CR ?e = Inr (Suc (?e + length ?s))"
    using scan_past_found [OF at(1)] assms(2,3) kv len by (simp add: ok_header_def)
  moreover have "find_space ?b (Suc (Suc (?e + length ?s))) ?e = Inr (?e + length k + 1)"
    using find_space_found [OF at(3)] assms(2) kv by (simp add: ok_header_def)
  moreover have "string_range ?b (int ?e) (int (?e + length k + 1) - 1) = Inr k"
    using text_at_substr [OF at(4)] by (simp add: string_range_def)
  moreover have "string_range ?b (int (?e + length k + 1) + 1) (int (Suc (Suc (?e + length ?s))) - 2) = Inr v"
    using text_at_substr [OF at(5)] by (simp add: string_range_def nat_add_distrib)
  ultimately show ?thesis
    using assms(3,4) at(2) len kv
    by (subst requestHeadParse_unfold) (cases p; simp add: head_iteration_def Let_def head_put_def eval_nat_numeral)
qed

lemma requestHeadParse_blank:
  assumes "text_at (hp_buf p) (hp_lend p) CRLF" "hp_lend p + 2 \<le> hp_len p" "hp_cur p \<noteq> hp_len p"
  shows "requestHeadParse p = Some (Inr (p\<lparr>hp_cur := hp_lend p + 2, hp_lbeg := hp_lend p,
    hp_lend := hp_lend p + 2, hp_line := LineOk\<rparr>))"
proof -
  have "scan_past (hp_buf p) (hp_len p) CR (hp_lend p) = Inr (Suc (hp_lend p))"
    using scan_past_found [of "hp_buf p" "hp_lend p" "[]" CR "hp_len p"] assms by simp
  with assms show ?thesis by (subst requestHeadParse_unfold) (simp add: head_iteration_def Let_def)
qed

definition head_fold :: "(string \<times> string) list \<Rightarrow> headMap \<Rightarrow> headMap" where
  "head_fold hs m = foldl (\<lambda>m kv. head_add m (fst kv) (snd kv)) m hs"

text \<open>Adding headers in order keeps the first value of every name: the association list read
  from the left.\<close>

lemma head_fold_lookup: "head_fold hs m k = (case m k of Some v \<Rightarrow> Some v | None \<Rightarrow> map_of hs k)"
  by (induction hs arbitrary: m) (auto simp: head_fold_def head_add_def split: option.splits)

lemma requestHeadParse_ok:
  assumes "text_at (hp_buf p) (hp_lend p) (head_text hs)" "\<forall>kv\<in>set hs. ok_header kv"
    "hp_lend p + length (head_text hs) \<le> hp_len p" "hp_cur p \<noteq> hp_len p"
  shows "\<exists>b. requestHeadParse p = Some (Inr (p\<lparr>hp_cur := hp_lend p + length (head_text hs), hp_lbeg := b,
    hp_lend := hp_lend p + length (head_text hs), hp_line := LineOk,
    hp_request := (hp_request p)\<lparr>rq_head := head_fold hs (rq_head (hp_request p))\<rparr>\<rparr>))"
  using assms
proof (induction hs arbitrary: p)
  case Nil
  then show ?case
    using requestHeadParse_blank [of p] by (cases p) (simp add: head_text_def head_fold_def)
next
  case (Cons kv hs)
  let ?p = "(head_put (fst kv) (snd kv) p)\<lparr>hp_cur := hp_lend p + length (fst kv) + 1,
    hp_lbeg := hp_lend p, hp_lend := hp_lend p + length (header_line kv), hp_line := LineOk\<rparr>"
  have split: "head_text (kv # hs) = header_line kv @ head_text hs" by (simp add: head_text_def)
  have room: "hp_lend p + length (header_line kv) + length (head_text hs) \<le> hp_len p"
    "length (fst kv) + 1 < length (header_line kv)" "0 < length (head_text hs)"
    using Cons.prems(3) split by (simp_all add: header_line_def head_text_def)
  have "requestHeadParse p = requestHeadParse ?p"
    using requestHeadParse_header [of p kv] Cons.prems split room by (simp add: text_at_append)
  moreover have "\<exists>b. requestHeadParse ?p = Some (Inr (?p\<lparr>
    hp_cur := hp_lend ?p + length (head_text hs), hp_lbeg := b,
    hp_lend := hp_lend ?p + length (head_text hs), hp_line := LineOk,
    hp_request := (hp_request ?p)\<lparr>rq_head := head_fold hs (rq_head (hp_request ?p))\<rparr>\<rparr>))"
    using Cons.prems split room
    by (intro Cons.IH) (simp_all add: head_put_def text_at_append)
  ultimately show ?case using split by (cases p) (simp add: head_put_def head_fold_def add.assoc)
qed


section \<open>Whole requests\<close>

definition parsed_line :: "http_method \<Rightarrow> string \<Rightarrow> string \<Rightarrow> httpRequestLine" where
  "parsed_line m u v = \<lparr>rl_version = v, rl_url = u, rl_method = Some m\<rparr>"

lemma parse_request_head:
  assumes "text_at buf 0 (request_text m u v hs)" "length (request_text m u v hs) \<le> len"
    "m = GET \<or> m = POST" "ok_url u" "ok_version v" "\<forall>kv\<in>set hs. ok_header kv"
  shows "\<exists>p. parse_request buf len = (if m = GET then Some (Inr (set_parseSize p))
        else parse_loop (p\<lparr>hp_process := Body\<rparr>))
    \<and> hp_cur p = length (request_text m u v hs) \<and> hp_len p = len \<and> hp_buf p = buf
    \<and> hp_final p = Incomplete \<and> hp_request p = \<lparr>rq_parseSize = 0, rq_line = parsed_line m u v,
        rq_head = head_fold hs Map.empty, rq_body = []\<rparr>"
proof -
  let ?n = "length (line_text m u v)"
  let ?p0 = "(new_httpParser buf len)\<lparr>hp_line := LineIncomplete\<rparr>"
  let ?p1 = "(setVersion v (setUrl u (setMethod m ?p0)))\<lparr>hp_lend := ?n, hp_cur := ?n, hp_line := LineOk\<rparr>"
  let ?p2 = "?p1\<lparr>hp_process := Head, hp_line := LineIncomplete\<rparr>"
  have at: "text_at buf 0 (line_text m u v)" "text_at buf ?n (head_text hs)"
    using assms(1) by (simp_all add: request_text_def text_at_append)
  have n: "0 < length (head_text hs)" "0 < ?n" "?n + length (head_text hs) \<le> len"
    "len \<noteq> 0" "?n \<noteq> len"
    using assms(2) by (simp_all add: request_text_def head_text_def line_text_def)
  have line: "requestLineParse ?p0 = Inr ?p1"
    using requestLineParse_ok [of ?p0 m u v] at(1) assms n by (simp add: new_httpParser_def)
  obtain b where head: "requestHeadParse ?p2 = Some (Inr (?p2\<lparr>hp_cur := ?n + length (head_text hs),
      hp_lbeg := b, hp_lend := ?n + length (head_text hs), hp_line := LineOk,
      hp_request := (hp_request ?p2)\<lparr>rq_head := head_fold hs Map.empty\<rparr>\<rparr>))" (is "_ = Some (Inr ?p3)")
    using requestHeadParse_ok [of ?p2 hs] at(2) assms(6) n
    by (auto simp: new_httpParser_def set_line_def new_httpRequest_def)
  have "parse_request buf len = parse_loop (?p1\<lparr>hp_process := Head\<rparr>)"
    using line n unfolding parse_request_def
    by (subst parse_loop_unfold) (simp add: parse_states new_httpParser_def set_line_def Let_def)
  also have "\<dots> = (if m = GET then Some (Inr (set_parseSize ?p3)) else parse_loop (?p3\<lparr>hp_process := Body\<rparr>))"
    using head n
    by (subst parse_loop_unfold) (simp add: parse_states new_httpParser_def set_line_def Let_def new_httpRequest_def)
  finally show ?thesis
    by (intro exI [of _ ?p3])
      (simp add: request_text_def new_httpParser_def set_line_def new_httpRequest_def parsed_line_def)
qed


lemma head_fold_empty: "head_fold hs Map.empty = map_of hs"
  by (rule ext) (simp add: head_fold_lookup)

lemma requestBodyParse_ok:
  assumes "text_at (hp_buf p) (hp_cur p) body" "hp_cur p + length body \<le> hp_len p"
    "int (hp_len p) \<le> INT_MAX"
  shows "requestBodyParse p (int (length body)) = Inr (p\<lparr>hp_request := (hp_request p)\<lparr>rq_body := body\<rparr>,
    hp_cur := hp_cur p + length body, hp_line := LineOk\<rparr>)"
proof -
  have "fits_int (int (hp_cur p) + int (length body))"
    using assms(2,3) by (simp add: fits_int_def INT_MIN_def)
  with assms(2) text_at_substr [OF assms(1)] show ?thesis by (simp add: requestBodyParse_def)
qed

section \<open>Properties\<close>

lemma parse_get_ok:
  assumes "ok_url u" "ok_version v" "\<forall>kv\<in>set hs. ok_header kv"
  shows "\<exists>p. parse_request (map Some (request_text GET u v hs @ rest) @ tail)
        (length (request_text GET u v hs @ rest)) = Some (Inr p)
    \<and> hp_final p = Success \<and> hp_request p = \<lparr>rq_parseSize = length (request_text GET u v hs),
        rq_line = parsed_line GET u v, rq_head = map_of hs, rq_body = []\<rparr>"
proof -
  let ?b = "map Some (request_text GET u v hs @ rest) @ tail"
  have "text_at ?b 0 (request_text GET u v hs)"
    using text_at_start [of "request_text GET u v hs" "map Some rest @ tail"] by simp
  from parse_request_head [OF this _ _ assms, of "length (request_text GET u v hs @ rest)"]
  show ?thesis by (auto simp: head_fold_empty)
qed

text \<open>C1: parsing inverts printing for GET requests. A request line with any URL free of spaces
  and carriage returns and either HTTP version, any list of header lines and the blank line,
  followed by anything at all in the message and in memory, parses to Success; the method, URL,
  version and headers are those printed (the first value of a repeated name wins), and
  \<open>parseSize_\<close> is exactly the length of the request, so a pipelined second request stays in the
  buffer.\<close>

theorem parse_get_request:
  assumes "ok_url u" "ok_version v" "\<forall>kv\<in>set hs. ok_header kv"
  shows "\<exists>p. parse_request (map Some (request_text GET u v hs @ rest) @ tail)
        (length (request_text GET u v hs @ rest)) = Some (Inr p)
    \<and> hp_final p = Success \<and> hp_request p = \<lparr>rq_parseSize = length (request_text GET u v hs),
        rq_line = parsed_line GET u v, rq_head = map_of hs, rq_body = []\<rparr>"
  using assms by (rule parse_get_ok)

theorem parse_get_request_witness:
  "\<exists>p. parse_request (map Some (request_text GET ''/a.txt'' ''HTTP/1.1'' [(''Host'', ''x y''), (''Host'', ''z'')] @ ''GET'') @ [None])
        (length (request_text GET ''/a.txt'' ''HTTP/1.1'' [(''Host'', ''x y''), (''Host'', ''z'')] @ ''GET'')) = Some (Inr p)
    \<and> hp_final p = Success \<and> rq_head (hp_request p) ''Host'' = Some ''x y''"
  using parse_get_request [of "''/a.txt''" "''HTTP/1.1''" "[(''Host'', ''x y''), (''Host'', ''z'')]" "''GET''" "[None]"]
  by (auto simp: ok_url_def ok_version_def ok_header_def)

lemma parse_post_ok:
  assumes "ok_url u" "ok_version v" "\<forall>kv\<in>set hs. ok_header kv"
    "map_of hs ''Content-Length'' = Some (to_string (int (length body)))" "body \<noteq> []"
    "int (length (request_text POST u v hs @ body @ rest)) \<le> INT_MAX"
  shows "\<exists>p. parse_request (map Some (request_text POST u v hs @ body @ rest) @ tail)
        (length (request_text POST u v hs @ body @ rest)) = Some (Inr p)
    \<and> hp_final p = Success \<and> hp_request p = \<lparr>rq_parseSize = length (request_text POST u v hs @ body),
        rq_line = parsed_line POST u v, rq_head = map_of hs, rq_body = body\<rparr>"
proof -
  let ?t = "request_text POST u v hs"
  let ?b = "map Some (?t @ body @ rest) @ tail"
  have at: "text_at ?b 0 ?t" "text_at ?b (length ?t) body"
    using text_at_start [of "?t @ body" "map Some rest @ tail"] by (simp_all add: text_at_append)
  have fit: "fits_int (int (length body))"
    using assms(6) by (simp add: fits_int_def INT_MIN_def)
  from parse_request_head [OF at(1) _ _ assms(1-3), of "length (?t @ body @ rest)"]
  obtain p where p: "parse_request ?b (length (?t @ body @ rest)) = parse_loop (p\<lparr>hp_process := Body\<rparr>)"
    "hp_cur p = length ?t" "hp_len p = length (?t @ body @ rest)" "hp_buf p = ?b"
    "hp_request p = \<lparr>rq_parseSize = 0, rq_line = parsed_line POST u v, rq_head = map_of hs, rq_body = []\<rparr>"
    by (auto simp: head_fold_empty)
  let ?p = "p\<lparr>hp_process := Body, hp_line := LineIncomplete\<rparr>"
  have body: "requestBodyParse ?p (int (length body)) = Inr (?p\<lparr>hp_request := (hp_request p)\<lparr>rq_body := body\<rparr>,
      hp_cur := length ?t + length body, hp_line := LineOk\<rparr>)"
    using requestBodyParse_ok [of ?p body] at(2) p(2-4) assms(6) by simp
  have "parse_loop (p\<lparr>hp_process := Body\<rparr>) = Some (Inr (set_parseSize (?p\<lparr>hp_request := (hp_request p)\<lparr>rq_body := body\<rparr>,
      hp_cur := length ?t + length body, hp_line := LineOk\<rparr>)))"
    using p(2,3,5) body assms(4,5) fit
    by (subst parse_loop_unfold) (simp add: parse_states Let_def head_get_def stoi_to_string parsed_line_def)
  with p show ?thesis by simp
qed

text \<open>C2: parsing inverts printing for POST requests. With a \<open>Content-Length\<close> header that is
  \<open>std::to_string\<close> of the body's length and a non-empty body present in the message, the result
  is Success with exactly that body, and \<open>parseSize_\<close> covers head and body.\<close>

theorem parse_post_request:
  assumes "ok_url u" "ok_version v" "\<forall>kv\<in>set hs. ok_header kv"
    "map_of hs ''Content-Length'' = Some (to_string (int (length body)))" "body \<noteq> []"
    "int (length (request_text POST u v hs @ body @ rest)) \<le> INT_MAX"
  shows "\<exists>p. parse_request (map Some (request_text POST u v hs @ body @ rest) @ tail)
        (length (request_text POST u v hs @ body @ rest)) = Some (Inr p)
    \<and> hp_final p = Success \<and> hp_request p = \<lparr>rq_parseSize = length (request_text POST u v hs @ body),
        rq_line = parsed_line POST u v, rq_head = map_of hs, rq_body = body\<rparr>"
  using assms by (rule parse_post_ok)

theorem parse_post_request_witness:
  "\<exists>p. parse_request (map Some (request_text POST ''/f'' ''HTTP/1.0'' [(''Content-Length'', to_string 5)] @ ''hello'' @ []) @ [])
        (length (request_text POST ''/f'' ''HTTP/1.0'' [(''Content-Length'', to_string 5)] @ ''hello'' @ [])) = Some (Inr p)
    \<and> hp_final p = Success \<and> rq_body (hp_request p) = ''hello''"
proof -
  have "CR \<notin> set (to_string 5)" using to_string_plain [of 5] by simp
  moreover have "length (to_string 5) = 1"
    by (simp add: to_string_def nat_digits.simps)
  ultimately show ?thesis
    using parse_post_request [of "''/f''" "''HTTP/1.0''" "[(''Content-Length'', to_string 5)]" "''hello''" "[]" "[]"]
    by (auto simp: ok_url_def ok_version_def ok_header_def INT_MAX_def request_text_def line_text_def
        head_text_def header_line_def)
qed

end
