(* ===== verification/Parser_Safety.thy ===== *)
theory Parser_Safety
  imports Http_Parser
begin

text \<open>
  What the request parser does on arbitrary messages: its indices stay inside the message, it
  reads only written bytes of the message once the first line is complete, an accepted request
  has a positive size that the message covers, and exactly which inputs make its loops spin.
  The loop rules of the prelude carry the proofs: an invariant for the returns, one for the
  faults, a measure for termination and a closed set of states for divergence.
\<close>

section \<open>Indices stay inside the message\<close>

definition idx_ok :: "httpParser \<Rightarrow> bool" where
  "idx_ok p \<longleftrightarrow> hp_lbeg p \<le> hp_lend p \<and> hp_lend p \<le> hp_len p \<and> hp_cur p \<le> hp_len p"

definition same_input :: "httpParser \<Rightarrow> httpParser \<Rightarrow> bool" where
  "same_input p p' \<longleftrightarrow> hp_buf p' = hp_buf p \<and> hp_len p' = hp_len p \<and> hp_final p' = hp_final p"

lemma same_input_refl [simp]: "same_input p p"
  by (simp add: same_input_def)

lemma same_input_trans: "same_input p q \<Longrightarrow> same_input q r \<Longrightarrow> same_input p r"
  by (simp add: same_input_def)

lemma scan_past_bounds:
  "scan_past buf stop c cur = Inr c' \<Longrightarrow> cur \<le> stop \<Longrightarrow> cur \<le> c' \<and> c' \<le> stop"
proof (induction buf stop c cur rule: scan_past.induct)
  case (1 buf stop c cur)
  show ?case
  proof (cases "cur = stop")
    case True
    with "1.prems" show ?thesis by (subst (asm) scan_past.simps) simp
  next
    case False
    with "1.prems" obtain d where d: "peek_at buf cur = Inr d"
      and r: "(if d \<noteq> c then scan_past buf stop c (Suc cur) else Inr (Suc cur)) = Inr c'"
      by (subst (asm) scan_past.simps) auto
    with "1.IH" [OF False d] "1.prems"(2) False show ?thesis by (auto split: if_splits)
  qed
qed

lemma line_scan_bounds:
  "line_scan buf len cur = Inr (c', e) \<Longrightarrow> cur \<le> len \<Longrightarrow> cur \<le> c' \<and> c' \<le> len"
proof (induction buf len cur rule: line_scan.induct)
  case (1 buf len cur)
  show ?case
  proof (cases "cur = len")
    case True
    with "1.prems" show ?thesis by (subst (asm) line_scan.simps) simp
  next
    case False
    with "1.prems" obtain d where d: "peek_at buf cur = Inr d"
      by (subst (asm) line_scan.simps) auto
    show ?thesis
    proof (cases "d = CR \<and> Suc cur \<noteq> len")
      case True
      with "1.prems" False d obtain e' where e': "peek_at buf (Suc cur) = Inr e'"
        and "(if e' = LF then Inr (Suc (Suc cur), False) else line_scan buf len (Suc (Suc cur))) = Inr (c', e)"
        by (subst (asm) line_scan.simps) auto
      with "1.IH"(2) [OF False d _ _ e'] True "1.prems"(2) False show ?thesis by (auto split: if_splits)
    next
      case nCR: False
      with "1.prems" False d "1.IH"(1) [OF False d] show ?thesis
        by (subst (asm) line_scan.simps) (auto split: if_splits)
    qed
  qed
qed

lemma find_space_bounds:
  "find_space buf stop cur = Inr c' \<Longrightarrow> cur \<le> stop \<Longrightarrow> cur \<le> c' \<and> c' \<le> stop"
proof (induction buf stop cur rule: find_space.induct)
  case (1 buf stop cur)
  show ?case
  proof (cases "cur < stop")
    case False
    with "1.prems" show ?thesis by (subst (asm) find_space.simps) simp
  next
    case True
    with "1.prems" obtain d where d: "peek_at buf cur = Inr d"
      and r: "(if d = SP then Inr cur else find_space buf stop (Suc cur)) = Inr c'"
      by (subst (asm) find_space.simps) auto
    with "1.IH" [OF True d] True show ?thesis by (auto split: if_splits)
  qed
qed

lemmas rl_frame = set_line_def same_input_def

lemma rl_version_step_idx:
  "rl_version_step p = Inr p' \<Longrightarrow> hp_lend p \<le> hp_len p \<Longrightarrow> hp_cur p \<le> hp_lend p
    \<Longrightarrow> hp_cur p' \<le> hp_lend p \<and> hp_lend p' = hp_lend p \<and> hp_lbeg p' = hp_lbeg p \<and> same_input p p'"
  by (auto simp: rl_version_step_def rl_frame split: if_splits)

lemma rl_url_step_idx:
  assumes "rl_url_step p = Inr p'" "hp_lend p \<le> hp_len p" "hp_cur p \<le> hp_lend p"
  shows "hp_cur p' \<le> hp_lend p \<and> hp_lend p' = hp_lend p \<and> hp_lbeg p' = hp_lbeg p \<and> same_input p p'"
proof (cases "hp_cur p = hp_lend p")
  case True
  with assms show ?thesis by (simp add: rl_url_step_def)
next
  case False
  with assms(1) obtain cur where cur: "scan_past (hp_buf p) (hp_lend p) SP (hp_cur p) = Inr cur"
    by (auto simp: rl_url_step_def)
  note b = scan_past_bounds [OF cur assms(3)]
  from assms(1) False cur b
  have "p' = p\<lparr>hp_cur := cur\<rparr> \<or> (\<exists>u. rl_version_step ((setUrl u p)\<lparr>hp_cur := cur\<rparr>) = Inr p')"
    by (auto simp: rl_url_step_def split: if_splits)
  with b assms(2) show ?thesis
    by (auto dest!: rl_version_step_idx simp: rl_frame)
qed

lemma rl_space_step_idx:
  "rl_space_step p = Inr p' \<Longrightarrow> hp_lend p \<le> hp_len p \<Longrightarrow> hp_cur p \<le> hp_lend p
    \<Longrightarrow> hp_cur p' \<le> hp_lend p \<and> hp_lend p' = hp_lend p \<and> hp_lbeg p' = hp_lbeg p \<and> same_input p p'"
  by (auto simp: rl_space_step_def rl_frame split: if_splits dest!: rl_url_step_idx)

lemma rl_method_step_cases:
  assumes "rl_method_step p = Inr p'" "hp_cur p \<noteq> hp_lend p"
  obtains m k where "rl_space_step ((setMethod m p)\<lparr>hp_cur := hp_cur p + k\<rparr>) = Inr p'"
      "k \<le> hp_lend p - hp_lbeg p"
    | "p' = p\<lparr>hp_line := LineBad\<rparr>"
proof -
  define g where "g = (if 3 \<le> hp_lend p - hp_lbeg p then starts_with (hp_buf p) (hp_lbeg p) ''GET'' else Inr False)"
  define h where "h = (if 4 \<le> hp_lend p - hp_lbeg p then starts_with (hp_buf p) (hp_lbeg p) ''POST'' else Inr False)"
  have len: "g = Inr True \<Longrightarrow> 3 \<le> hp_lend p - hp_lbeg p" "h = Inr True \<Longrightarrow> 4 \<le> hp_lend p - hp_lbeg p"
    by (simp_all add: g_def h_def split: if_splits)
  from assms obtain isGet where get: "g = Inr isGet"
    unfolding rl_method_step_def Let_def g_def [symmetric] by auto
  show ?thesis
  proof (cases isGet)
    case True
    with assms get have "rl_space_step ((setMethod GET p)\<lparr>hp_cur := hp_cur p + 3\<rparr>) = Inr p'"
      unfolding rl_method_step_def Let_def g_def [symmetric] by simp
    with that(1) get True len(1) show ?thesis by blast
  next
    case noGet: False
    with assms get obtain isPost where post: "h = Inr isPost"
      unfolding rl_method_step_def Let_def g_def [symmetric] h_def [symmetric] by auto
    show ?thesis
    proof (cases isPost)
      case True
      with assms get post noGet have "rl_space_step ((setMethod POST p)\<lparr>hp_cur := hp_cur p + 4\<rparr>) = Inr p'"
        unfolding rl_method_step_def Let_def g_def [symmetric] h_def [symmetric] by simp
      with that(1) post True len(2) show ?thesis by blast
    next
      case False
      with assms get post noGet have "p' = p\<lparr>hp_line := LineBad\<rparr>"
        unfolding rl_method_step_def Let_def g_def [symmetric] h_def [symmetric]
        by (auto simp del: starts_with.simps)
      with that(2) show ?thesis .
    qed
  qed
qed

lemma rl_method_step_idx:
  assumes "rl_method_step p = Inr p'" "hp_lend p \<le> hp_len p" "hp_cur p = hp_lbeg p" "hp_lbeg p \<le> hp_lend p"
  shows "hp_cur p' \<le> hp_lend p \<and> hp_lend p' = hp_lend p \<and> hp_lbeg p' = hp_lbeg p \<and> same_input p p'"
proof (cases "hp_cur p = hp_lend p")
  case True
  with assms show ?thesis by (simp add: rl_method_step_def)
next
  case False
  from assms(1) False show ?thesis
  proof (cases rule: rl_method_step_cases)
    case (1 m k)
    from rl_space_step_idx [OF 1(1)] 1(2) assms(2-4) show ?thesis by (simp add: rl_frame)
  next
    case 2
    with assms(2-4) show ?thesis by (simp add: same_input_def)
  qed
qed

lemma requestLineParse_idx:
  assumes "requestLineParse p = Inr p'" "idx_ok p" "hp_cur p = hp_lbeg p"
  shows "idx_ok p' \<and> same_input p p'"
proof -
  from assms(1) obtain c e where c: "line_scan (hp_buf p) (hp_len p) (hp_cur p) = Inr (c, e)"
    and r: "(if e then Inr (p\<lparr>hp_cur := c, hp_line := LineIncomplete\<rparr>)
       else rl_method_step (p\<lparr>hp_lend := c, hp_cur := hp_lbeg p\<rparr>)) = Inr p'"
    by (auto simp: requestLineParse_def)
  have b: "hp_cur p \<le> c" "c \<le> hp_len p" using line_scan_bounds [OF c] assms(2) by (simp_all add: idx_ok_def)
  show ?thesis
  proof (cases e)
    case True
    with r assms(2) b show ?thesis by (auto simp: idx_ok_def same_input_def)
  next
    case False
    with r have "rl_method_step (p\<lparr>hp_lend := c, hp_cur := hp_lbeg p\<rparr>) = Inr p'" by simp
    from rl_method_step_idx [OF this] b assms(2,3) show ?thesis
      by (auto simp: idx_ok_def same_input_def)
  qed
qed

lemma rl_version_step_ok_end:
  "rl_version_step p = Inr p' \<Longrightarrow> hp_line p' = LineOk \<Longrightarrow> hp_line p \<noteq> LineOk
    \<Longrightarrow> hp_cur p' = hp_lend p"
  by (auto simp: rl_version_step_def rl_frame split: if_splits)

lemma rl_url_step_ok_end:
  "rl_url_step p = Inr p' \<Longrightarrow> hp_line p' = LineOk \<Longrightarrow> hp_line p \<noteq> LineOk \<Longrightarrow> hp_cur p' = hp_lend p"
  by (auto simp: rl_url_step_def rl_frame split: if_splits dest!: rl_version_step_ok_end)

lemma rl_space_step_ok_end:
  "rl_space_step p = Inr p' \<Longrightarrow> hp_line p' = LineOk \<Longrightarrow> hp_line p \<noteq> LineOk \<Longrightarrow> hp_cur p' = hp_lend p"
  by (auto simp: rl_space_step_def rl_frame split: if_splits dest!: rl_url_step_ok_end)

text \<open>A request line that was accepted is not empty and the cursor stands behind it.\<close>

lemma requestLineParse_ok_end:
  assumes "requestLineParse p = Inr p'" "hp_line p' = LineOk" "hp_line p \<noteq> LineOk" "idx_ok p"
    "hp_cur p = hp_lbeg p"
  shows "hp_cur p' = hp_lend p' \<and> 0 < hp_lend p'"
proof -
  from assms(1) obtain c e where c: "line_scan (hp_buf p) (hp_len p) (hp_cur p) = Inr (c, e)"
    and r: "(if e then Inr (p\<lparr>hp_cur := c, hp_line := LineIncomplete\<rparr>)
       else rl_method_step (p\<lparr>hp_lend := c, hp_cur := hp_lbeg p\<rparr>)) = Inr p'"
    by (auto simp: requestLineParse_def)
  let ?q = "p\<lparr>hp_lend := c, hp_cur := hp_lbeg p\<rparr>"
  have b: "hp_cur p \<le> c" "c \<le> hp_len p" using line_scan_bounds [OF c] assms(4) by (simp_all add: idx_ok_def)
  from r assms(2) have m: "rl_method_step ?q = Inr p'" by (auto split: if_splits)
  have ne: "hp_cur ?q \<noteq> hp_lend ?q"
  proof
    assume "hp_cur ?q = hp_lend ?q"
    with m have "p' = ?q" by (simp add: rl_method_step_def)
    with assms(2,3) show False by simp
  qed
  from m ne show ?thesis
  proof (cases rule: rl_method_step_cases)
    case (1 m k)
    from rl_space_step_ok_end [OF 1(1)] rl_space_step_idx [OF 1(1)] 1(2) assms(2,3,5) b ne
    show ?thesis by (simp add: rl_frame)
  next
    case 2
    with assms(2) show ?thesis by simp
  qed
qed

text \<open>The loop over the header lines keeps every index inside the message, whatever it returns.\<close>

lemma string_range_Inr: "string_range buf i j = Inr s \<Longrightarrow> 0 \<le> i \<and> i \<le> j"
  by (simp add: string_range_def split: if_splits)

definition head_inv :: "httpParser \<Rightarrow> bool" where
  "head_inv p \<longleftrightarrow> idx_ok p \<and> 0 < hp_lend p \<and> 0 < hp_cur p"

definition frame_line :: "httpParser \<Rightarrow> httpParser \<Rightarrow> bool" where
  "frame_line p p' \<longleftrightarrow> same_input p p' \<and> hp_process p' = hp_process p
    \<and> rq_line (hp_request p') = rq_line (hp_request p)"

text \<open>What one pass over the header lines can do when it goes on: skip a lone carriage return,
  or record a header and advance to the next line.\<close>

lemma head_iteration_Continue:
  assumes "head_iteration p = Inr (Continue p')" "idx_ok p"
  obtains (bare) c where "p' = p\<lparr>hp_cur := Suc c, hp_lbeg := hp_lend p, hp_line := LineIncomplete\<rparr>"
      "hp_lend p \<le> c" "c < hp_len p" "scan_past (hp_buf p) (hp_len p) CR (hp_lend p) = Inr c"
      "peek_at (hp_buf p) c \<noteq> Inr LF"
    | (line) c d k v where "p' = (head_put k v p)\<lparr>hp_cur := d, hp_lbeg := hp_lend p, hp_lend := Suc c, hp_line := LineOk\<rparr>"
      "hp_lend p \<le> c" "c < hp_len p" "hp_lend p \<le> d" "d \<le> c"
proof -
  let ?b = "hp_buf p" and ?e = "hp_lend p"
  from assms(1) obtain c where ne: "hp_cur p \<noteq> hp_len p"
    and c: "scan_past ?b (hp_len p) CR ?e = Inr c" and ce: "c \<noteq> hp_len p"
    by (auto simp: head_iteration_def Let_def split: if_splits)
  have b: "?e \<le> c" "c < hp_len p" using scan_past_bounds [OF c] assms(2) ce by (auto simp: idx_ok_def)
  from assms(1) ne c ce obtain x where x: "peek_at ?b c = Inr x"
    by (auto simp: head_iteration_def Let_def split: if_splits)
  show ?thesis
  proof (cases "x = LF")
    case False
    with assms(1) ne c ce x have "p' = p\<lparr>hp_cur := Suc c, hp_lbeg := ?e, hp_line := LineIncomplete\<rparr>"
      by (cases p) (auto simp: head_iteration_def Let_def)
    with bare b c x False show ?thesis by simp
  next
    case True
    with assms(1) ne c ce x obtain d k v where d: "find_space ?b (Suc c) ?e = Inr d" "d \<noteq> Suc c"
      and p': "p' = (head_put k v p)\<lparr>hp_cur := d, hp_lbeg := ?e, hp_lend := Suc c, hp_line := LineOk\<rparr>"
      by (cases p) (auto simp: head_iteration_def Let_def head_put_def split: if_splits)
    from find_space_bounds [OF d(1)] b d(2) line [OF p'] show ?thesis by simp
  qed
qed

lemma head_iteration_Return:
  assumes "head_iteration p = Inr (Return p')" "idx_ok p" "hp_cur p \<noteq> hp_len p"
  obtains (more) "hp_line p' = LineIncomplete" "hp_cur p' = hp_len p" "hp_lend p' = hp_lend p"
      "hp_lbeg p' = hp_lend p" "frame_line p p'"
    | (blank) "hp_line p' = LineOk" "hp_cur p' = hp_lend p'" "hp_lend p' = hp_lend p + 2"
      "hp_lbeg p' = hp_lend p" "hp_lend p' \<le> hp_len p" "frame_line p p'"
      "hp_request p' = hp_request p"
    | (bad) "hp_line p' = LineBad" "hp_cur p' = hp_lend p'" "hp_lend p < hp_lend p'"
      "hp_lbeg p' = hp_lend p" "hp_lend p' \<le> hp_len p" "frame_line p p'"
proof -
  let ?b = "hp_buf p" and ?e = "hp_lend p"
  note defs = head_iteration_def Let_def frame_line_def same_input_def
  from assms(1,3) obtain c where c: "scan_past ?b (hp_len p) CR ?e = Inr c"
    by (auto simp: head_iteration_def Let_def split: if_splits)
  have b: "?e \<le> c" "c \<le> hp_len p" using scan_past_bounds [OF c] assms(2) by (auto simp: idx_ok_def)
  show ?thesis
  proof (cases "c = hp_len p")
    case True
    with more assms(1,3) c show ?thesis by (auto simp: defs)
  next
    case ce: False
    with assms(1,3) c have x: "peek_at ?b c = Inr LF"
      by (auto simp: head_iteration_def Let_def split: if_splits)
    show ?thesis
    proof (cases "hp_lend p + 2 = Suc c")
      case True
      with blank assms(1,3) c ce x b show ?thesis by (auto simp: defs)
    next
      case False
      with assms(1,3) c ce x have "p' = p\<lparr>hp_lbeg := ?e, hp_lend := Suc c, hp_cur := Suc c, hp_line := LineBad\<rparr>"
        by (cases p) (auto simp: head_iteration_def Let_def split: if_splits)
      with bad b ce show ?thesis by (simp add: defs)
    qed
  qed
qed

lemma head_iteration_inv:
  assumes "head_iteration p = Inr (Continue p')" "head_inv p"
  shows "head_inv p' \<and> frame_line p p'"
proof -
  from assms(2) have "idx_ok p" by (simp add: head_inv_def)
  with assms(1) show ?thesis
  proof (cases rule: head_iteration_Continue)
    case (bare c)
    with assms(2) show ?thesis by (simp add: head_inv_def idx_ok_def frame_line_def same_input_def)
  next
    case (line c d k v)
    with assms(2) show ?thesis
      by (simp add: head_inv_def idx_ok_def frame_line_def same_input_def head_put_def)
  qed
qed

lemma frame_line_refl [simp]: "frame_line p p"
  by (simp add: frame_line_def)

lemma frame_line_trans: "frame_line p q \<Longrightarrow> frame_line q r \<Longrightarrow> frame_line p r"
  by (auto simp: frame_line_def same_input_def)

lemma requestHeadParse_idx:
  assumes "requestHeadParse p = Some (Inr p')" "head_inv p"
  shows "head_inv p' \<and> frame_line p p'"
proof -
  show ?thesis
  proof (rule run_loop_returns [where I = "\<lambda>q. head_inv q \<and> frame_line p q", OF assms(1) [unfolded requestHeadParse_def]])
    fix q r assume q: "head_inv q \<and> frame_line p q" and "Some (head_iteration q) = Some (Inr (Return r))"
    then have step: "head_iteration q = Inr (Return r)" by simp
    have "head_inv r \<and> frame_line q r"
    proof (cases "hp_cur q = hp_len q")
      case True
      with step q show ?thesis by (simp add: head_iteration_def)
    next
      case False
      have "idx_ok q" using q by (simp add: head_inv_def)
      from step this False show ?thesis
        by (cases rule: head_iteration_Return)
          (use q in \<open>auto simp: head_inv_def idx_ok_def frame_line_def same_input_def\<close>)
    qed
    with q show "head_inv r \<and> frame_line p r"
      by (auto intro: frame_line_trans)
  qed (use assms(2) in \<open>auto dest: head_iteration_inv intro: frame_line_trans\<close>)
qed

section \<open>What a finished parse says\<close>

definition parse_inv :: "httpParser \<Rightarrow> bool" where
  "parse_inv p \<longleftrightarrow> hp_final p = Incomplete \<and>
     (if hp_process p = Line then hp_cur p = 0 \<and> hp_lbeg p = 0 \<and> hp_lend p = 0 else head_inv p)"

lemma parse_inv_init: "parse_inv (new_httpParser buf len)"
  by (simp add: parse_inv_def new_httpParser_def)

lemma requestBodyParse_idx:
  "requestBodyParse p n = Inr p' \<Longrightarrow> head_inv p \<Longrightarrow> 0 \<le> n \<Longrightarrow> head_inv p' \<and> same_input p p'"
  by (auto simp: requestBodyParse_def head_inv_def idx_ok_def same_input_def split: if_splits)

lemma head_inv_line [simp]: "head_inv (p\<lparr>hp_line := l\<rparr>) = head_inv p"
  "head_inv (p\<lparr>hp_process := s\<rparr>) = head_inv p"
  by (simp_all add: head_inv_def idx_ok_def)

lemma requestLineParse_head_inv:
  assumes "requestLineParse p = Inr p'" "hp_line p' = LineOk" "hp_line p \<noteq> LineOk"
    "hp_cur p = 0" "hp_lbeg p = 0" "hp_lend p = 0"
  shows "head_inv p'"
proof -
  have "idx_ok p" using assms(4-6) by (simp add: idx_ok_def)
  with requestLineParse_idx [OF assms(1)] requestLineParse_ok_end [OF assms(1-3)] assms(4-6)
  show ?thesis by (simp add: head_inv_def)
qed

lemma parse_iteration_inv:
  assumes "parse_iteration q = Some (Inr (Continue q'))" "parse_inv q"
  shows "parse_inv q' \<and> hp_buf q' = hp_buf q \<and> hp_len q' = hp_len q"
proof -
  let ?p = "q\<lparr>hp_line := LineIncomplete\<rparr>"
  have ne: "hp_cur q \<noteq> hp_len q" using assms(1) by (auto simp: parse_iteration_def)
  consider (l) "hp_process q = Line" | (h) "hp_process q = Head" | (b) "hp_process q = Body"
    by (cases "hp_process q") auto
  then show ?thesis
  proof cases
    case l
    with assms ne obtain p' where p': "requestLineParse ?p = Inr p'" "hp_line p' = LineOk"
      "q' = p'\<lparr>hp_process := Head\<rparr>"
      by (auto simp: parse_iteration_def parse_line_state_def split: LineState.splits)
    have z: "hp_cur ?p = 0" "hp_lbeg ?p = 0" "hp_lend ?p = 0" "idx_ok ?p" "hp_line ?p \<noteq> LineOk"
      using assms(2) l by (simp_all add: parse_inv_def idx_ok_def)
    from requestLineParse_idx [OF p'(1)] requestLineParse_head_inv [OF p'(1,2)] z p'(3) assms(2)
    show ?thesis by (simp add: parse_inv_def same_input_def)
  next
    case h
    with assms ne obtain p' where p': "requestHeadParse ?p = Some (Inr p')"
      "q' = p'\<lparr>hp_process := Body\<rparr>"
      by (auto simp: parse_iteration_def parse_head_state_def split: LineState.splits if_splits)
    have "head_inv ?p" using assms(2) h by (simp add: parse_inv_def)
    from requestHeadParse_idx [OF p'(1) this] p'(2) assms(2)
    show ?thesis by (simp add: parse_inv_def frame_line_def same_input_def)
  next
    case b
    with assms ne have "q' = ?p"
      by (auto simp: parse_iteration_def parse_body_state_def Let_def split: LineState.splits if_splits)
    with assms(2) b show ?thesis by (simp add: parse_inv_def)
  qed
qed

lemma parse_iteration_Success:
  assumes "parse_iteration q = Some (Inr (Return p))" "parse_inv q" "hp_final p = Success"
  shows "rq_parseSize (hp_request p) = hp_cur p \<and> head_inv p \<and> hp_len p = hp_len q"
proof -
  let ?p = "q\<lparr>hp_line := LineIncomplete\<rparr>"
  have ne: "hp_cur q \<noteq> hp_len q"
    using assms by (auto simp: parse_iteration_def parse_inv_def)
  have final: "hp_final ?p = Incomplete" using assms(2) by (simp add: parse_inv_def)
  consider (l) "hp_process q = Line" | (h) "hp_process q = Head" | (b) "hp_process q = Body"
    by (cases "hp_process q") auto
  then show ?thesis
  proof cases
    case l
    with assms ne show ?thesis
      by (auto simp: parse_iteration_def parse_line_state_def split: LineState.splits)
  next
    case h
    with assms ne obtain p' where p': "requestHeadParse ?p = Some (Inr p')" "p = set_parseSize p'"
      by (auto simp: parse_iteration_def parse_head_state_def split: LineState.splits if_splits)
    have "head_inv ?p" using assms(2) h by (simp add: parse_inv_def)
    from requestHeadParse_idx [OF p'(1) this] p'(2)
    show ?thesis by (simp add: head_inv_def idx_ok_def frame_line_def same_input_def)
  next
    case b
    with assms ne obtain n p' where p': "requestBodyParse ?p n = Inr p'" "0 < n" "p = set_parseSize p'"
      by (auto simp: parse_iteration_def parse_body_state_def Let_def split: LineState.splits if_splits)
    have "head_inv ?p" using assms(2) b by (simp add: parse_inv_def)
    from requestBodyParse_idx [OF p'(1) this] p'(2,3)
    show ?thesis by (simp add: head_inv_def idx_ok_def same_input_def)
  qed
qed

section \<open>Memory safety\<close>

lemma scan_past_readable: "readable_mem buf n \<Longrightarrow> cur \<le> stop \<Longrightarrow> stop \<le> n \<Longrightarrow> \<exists>c'. scan_past buf stop c cur = Inr c'"
proof (induction "stop - cur" arbitrary: cur)
  case 0
  then show ?case by (subst scan_past.simps) simp
next
  case (Suc k)
  then obtain d where "peek_at buf cur = Inr d" using readable_peek [of buf n cur] by fastforce
  with Suc show ?case by (subst scan_past.simps) auto
qed

lemma find_space_readable: "readable_mem buf n \<Longrightarrow> cur \<le> stop \<Longrightarrow> stop \<le> n \<Longrightarrow> \<exists>c'. find_space buf stop cur = Inr c'"
proof (induction "stop - cur" arbitrary: cur)
  case 0
  then show ?case by (subst find_space.simps) simp
next
  case (Suc k)
  then obtain d where "peek_at buf cur = Inr d" using readable_peek [of buf n cur] by fastforce
  with Suc show ?case by (subst find_space.simps) auto
qed

lemma string_range_readable:
  assumes "readable_mem buf n" "0 \<le> i" "j \<le> int n" "string_range buf i j = Inl e"
  shows "e = Length_error"
proof (cases "j < i")
  case True
  with assms(4) show ?thesis by (simp add: string_range_def)
next
  case False
  have "nat i + nat (j - i) \<le> n" using False assms(2,3) by linarith
  with readable_substr [OF assms(1)] False assms(2,4) show ?thesis by (fastforce simp: string_range_def)
qed

lemma head_iteration_fault:
  assumes "head_iteration p = Inl e" "idx_ok p" "readable_mem (hp_buf p) (hp_len p)"
  shows "e = Length_error"
proof -
  let ?b = "hp_buf p" and ?e = "hp_lend p"
  obtain c where c: "scan_past ?b (hp_len p) CR ?e = Inr c"
    using scan_past_readable [OF assms(3), of ?e "hp_len p" CR] assms(2) by (auto simp: idx_ok_def)
  have b: "?e \<le> c" "c \<le> hp_len p" using scan_past_bounds [OF c] assms(2) by (auto simp: idx_ok_def)
  from assms(1) c have ce: "hp_cur p \<noteq> hp_len p" "c < hp_len p"
    using b by (auto simp: head_iteration_def Let_def split: if_splits)
  obtain x where x: "peek_at ?b c = Inr x" using readable_peek [OF assms(3) ce(2)] by blast
  obtain d where d: "find_space ?b (Suc c) ?e = Inr d"
    using find_space_readable [OF assms(3), of ?e "Suc c"] b ce by auto
  have db: "?e \<le> d" "d \<le> Suc c" using find_space_bounds [OF d] b by auto
  from assms(1) c ce x d
  have "string_range ?b (int ?e) (int d - 1) = Inl e \<or> string_range ?b (int d + 1) (int (Suc c) - 2) = Inl e"
    by (cases "string_range ?b (int ?e) (int d - 1)"; cases "string_range ?b (int d + 1) (int (Suc c) - 2)")
      (auto simp: head_iteration_def Let_def split: if_splits)
  with string_range_readable [OF assms(3), of "int ?e" "int d - 1" e]
    string_range_readable [OF assms(3), of "int d + 1" "int (Suc c) - 2" e] db ce show ?thesis by auto
qed

lemma requestHeadParse_fault:
  assumes "requestHeadParse p = Some (Inl e)" "head_inv p" "readable_mem (hp_buf p) (hp_len p)"
  shows "e = Length_error"
proof (rule run_loop_faults [where I = "\<lambda>q. head_inv q \<and> frame_line p q", OF assms(1) [unfolded requestHeadParse_def]])
  fix q e assume "head_inv q \<and> frame_line p q" "Some (head_iteration q) = Some (Inl e)"
  with head_iteration_fault [of q e] assms(3) show "e = Length_error"
    by (simp add: head_inv_def frame_line_def same_input_def)
qed (use assms(2) in \<open>auto dest: head_iteration_inv intro: frame_line_trans\<close>)

lemma rl_version_step_safe:
  assumes "readable_mem (hp_buf p) (hp_lend p)" "peek_at (hp_buf p) (hp_lend p - 1) = Inr LF" "hp_cur p \<le> hp_lend p"
  shows "\<exists>p'. rl_version_step p = Inr p'"
proof (cases "hp_cur p = hp_lend p")
  case True
  then show ?thesis by (simp add: rl_version_step_def)
next
  case False
  let ?s = "\<lambda>v. starts_with (hp_buf p) (hp_cur p) v"
  have i: "hp_cur p < hp_lend p" "hp_cur p \<le> length (hp_buf p)"
    using False assms(1,3) by (auto simp: readable_mem_def)
  obtain a b where ab: "?s ''HTTP/1.1'' = Inr a" "?s ''HTTP/1.0'' = Inr b"
    using starts_with_line [OF assms(1,2) i(1), of "''HTTP/1.1''"]
      starts_with_line [OF assms(1,2) i(1), of "''HTTP/1.0''"] by auto
  have "\<exists>v. substr_at (hp_buf p) (hp_cur p) 8 = Inr v" if "a \<or> b"
    using that ab i(2) starts_with_text [of "hp_buf p" "hp_cur p" "''HTTP/1.1''"]
      starts_with_text [of "hp_buf p" "hp_cur p" "''HTTP/1.0''"]
      text_at_substr [of "hp_buf p" "hp_cur p" "''HTTP/1.1''"]
      text_at_substr [of "hp_buf p" "hp_cur p" "''HTTP/1.0''"]
    by (auto simp: eval_nat_numeral simp del: starts_with.simps text_at.simps)
  with ab False show ?thesis
    by (cases a; cases b) (auto simp: rl_version_step_def strncmp_eq_starts_with simp del: strncmp_eq.simps starts_with.simps)
qed

lemma rl_url_step_safe:
  assumes "readable_mem (hp_buf p) (hp_lend p)" "peek_at (hp_buf p) (hp_lend p - 1) = Inr LF" "hp_cur p \<le> hp_lend p"
  shows "\<exists>p'. rl_url_step p = Inr p'"
proof -
  obtain c where c: "scan_past (hp_buf p) (hp_lend p) SP (hp_cur p) = Inr c"
    using scan_past_readable [OF assms(1,3)] by auto
  note b = scan_past_bounds [OF c assms(3)]
  obtain u where u: "substr_at (hp_buf p) (hp_cur p) (c - hp_cur p - 1) = Inr u"
    using readable_substr [OF assms(1), of "hp_cur p" "c - hp_cur p - 1"] b by fastforce
  have "\<exists>p'. rl_version_step ((setUrl u p)\<lparr>hp_cur := c\<rparr>) = Inr p'"
    by (rule rl_version_step_safe) (use assms b in \<open>simp_all add: set_line_def\<close>)
  with c u show ?thesis by (auto simp: rl_url_step_def)
qed

lemma rl_space_step_safe:
  assumes "readable_mem (hp_buf p) (hp_lend p)" "peek_at (hp_buf p) (hp_lend p - 1) = Inr LF" "hp_cur p \<le> hp_lend p"
  shows "\<exists>p'. rl_space_step p = Inr p'"
proof (cases "hp_cur p = hp_lend p")
  case False
  then obtain x where "peek_at (hp_buf p) (hp_cur p) = Inr x"
    using readable_peek [OF assms(1)] assms(3) by fastforce
  with rl_url_step_safe [of "p\<lparr>hp_cur := Suc (hp_cur p)\<rparr>"] assms False show ?thesis
    by (auto simp: rl_space_step_def)
qed (simp add: rl_space_step_def)

lemma rl_method_step_safe:
  assumes "readable_mem (hp_buf p) (hp_lend p)" "peek_at (hp_buf p) (hp_lend p - 1) = Inr LF"
    "hp_cur p = hp_lbeg p" "hp_lbeg p \<le> hp_lend p"
  shows "\<exists>p'. rl_method_step p = Inr p'"
proof (cases "hp_cur p = hp_lend p")
  case False
  let ?s = "\<lambda>v. starts_with (hp_buf p) (hp_lbeg p) v"
  have i: "hp_lbeg p < hp_lend p" using False assms(3,4) by simp
  note line = starts_with_line [OF assms(1,2) i]
  obtain a b c d where ab: "?s ''GET'' = Inr a" "?s ''POST'' = Inr b" "?s ''HEAD'' = Inr c" "?s ''PATCH'' = Inr d"
    using line [of "''GET''"] line [of "''POST''"] line [of "''HEAD''"] line [of "''PATCH''"]
    by (auto simp del: starts_with.simps)
  have k: "\<exists>p'. rl_space_step ((setMethod m p)\<lparr>hp_cur := hp_cur p + k\<rparr>) = Inr p'" if "k \<le> hp_lend p - hp_lbeg p" for m k
    by (rule rl_space_step_safe) (use assms that in \<open>simp_all add: set_line_def\<close>)
  from ab False k [of 3 GET] k [of 4 POST] show ?thesis
    by (cases a; cases b; cases c) (auto simp: rl_method_step_def Let_def simp del: starts_with.simps)
qed (simp add: rl_method_step_def)

lemma requestLineParse_safe:
  assumes "text_at (hp_buf p) 0 (s @ CRLF)" "CR \<notin> set s" "length s + 2 \<le> hp_len p"
    "readable_mem (hp_buf p) (hp_len p)" "hp_cur p = 0" "hp_lbeg p = 0"
  shows "\<exists>p'. requestLineParse p = Inr p'"
proof -
  have "line_scan (hp_buf p) (hp_len p) 0 = Inr (length s + 2, False)"
    using line_scan_found [OF assms(1,2)] assms(3) by simp
  moreover have "\<exists>p'. rl_method_step (p\<lparr>hp_lend := length s + 2, hp_cur := 0\<rparr>) = Inr p'"
    by (rule rl_method_step_safe)
      (use assms readable_mono in \<open>auto simp: text_at_append\<close>)
  ultimately show ?thesis using assms(5,6) by (simp add: requestLineParse_def)
qed

lemma stoi_fault: "stoi s = Inl e \<Longrightarrow> e = Invalid_argument \<or> e = Out_of_range"
  by (auto simp: stoi_def Let_def split: if_splits)

lemma requestBodyParse_fault:
  assumes "requestBodyParse p n = Inl e" "readable_mem (hp_buf p) (hp_len p)" "0 \<le> n"
  shows "e = Int_overflow"
proof (rule ccontr)
  assume "e \<noteq> Int_overflow"
  with assms(1) have ov: "fits_int (int (hp_cur p) + n)" and le: "\<not> int (hp_cur p) + n > int (hp_len p)"
    by (auto simp: requestBodyParse_def split: if_splits)
  then have "hp_cur p + nat n \<le> hp_len p" using assms(3) by linarith
  from readable_substr [OF assms(2) this] ov le assms(1) show False
    by (auto simp: requestBodyParse_def)
qed

definition first_line_complete :: "char option list \<Rightarrow> nat \<Rightarrow> bool" where
  "first_line_complete buf len \<longleftrightarrow>
     (\<exists>s. text_at buf 0 (s @ CRLF) \<and> CR \<notin> set s \<and> length s + 2 \<le> len)"

lemma parse_iteration_fault:
  assumes "parse_iteration q = Some (Inl e)" "parse_inv q" "first_line_complete (hp_buf q) (hp_len q)"
    "readable_mem (hp_buf q) (hp_len q)"
  shows "e \<in> {Length_error, Invalid_argument, Out_of_range, Int_overflow}"
proof -
  let ?p = "q\<lparr>hp_line := LineIncomplete\<rparr>"
  have ne: "hp_cur q \<noteq> hp_len q" using assms(1) by (auto simp: parse_iteration_def)
  consider (l) "hp_process q = Line" | (h) "hp_process q = Head" | (b) "hp_process q = Body"
    by (cases "hp_process q") auto
  then show ?thesis
  proof cases
    case l
    from assms(3) obtain s where "text_at (hp_buf q) 0 (s @ CRLF)" "CR \<notin> set s" "length s + 2 \<le> hp_len q"
      by (auto simp: first_line_complete_def)
    with requestLineParse_safe [of ?p s] assms(2,4) l obtain p' where "requestLineParse ?p = Inr p'"
      by (auto simp: parse_inv_def)
    with assms(1) l ne show ?thesis by (simp add: parse_iteration_def parse_line_state_def)
  next
    case h
    with assms(1) ne have "requestHeadParse ?p = Some (Inl e)"
      by (cases "requestHeadParse ?p")
        (auto simp: parse_iteration_def parse_head_state_def bind_res_def split: sum.splits)
    from requestHeadParse_fault [OF this] assms(2,4) h show ?thesis by (simp add: parse_inv_def)
  next
    case b
    with assms(1) ne have "(\<exists>v. stoi v = Inl e) \<or> (\<exists>n>0. requestBodyParse ?p n = Inl e)"
      by (auto simp: parse_iteration_def parse_body_state_def Let_def bind_res_def split: sum.splits if_splits)
    with stoi_fault requestBodyParse_fault [of ?p _ e] assms(4) show ?thesis by fastforce
  qed
qed

section \<open>Returning and not returning\<close>

fun no_bare_CR :: "string \<Rightarrow> bool" where
  "no_bare_CR (c # d # s) \<longleftrightarrow> (c = CR \<longrightarrow> d = LF) \<and> no_bare_CR (d # s)"
| "no_bare_CR _ \<longleftrightarrow> True"

lemma no_bare_CR_nth: "no_bare_CR s \<Longrightarrow> Suc i < length s \<Longrightarrow> s ! i = CR \<Longrightarrow> s ! Suc i = LF"
proof (induction s arbitrary: i rule: no_bare_CR.induct)
  case (1 c d s)
  then show ?case by (cases i) auto
qed auto

lemma scan_past_before:
  assumes "scan_past buf stop c cur = Inr c'" "cur \<le> stop" "c' \<noteq> stop"
  shows "cur < c' \<and> peek_at buf (c' - 1) = Inr c"
  using assms
proof (induction buf stop c cur rule: scan_past.induct)
  case (1 buf stop c cur)
  then have ne: "cur \<noteq> stop" by (auto simp: scan_past.simps)
  with "1.prems" obtain d where d: "peek_at buf cur = Inr d"
    and r: "(if d \<noteq> c then scan_past buf stop c (Suc cur) else Inr (Suc cur)) = Inr c'"
    by (subst (asm) scan_past.simps) auto
  with "1.IH" [OF ne d] "1.prems"(2,3) ne show ?case by (auto split: if_splits)
qed

definition cr_then_lf :: "char option list \<Rightarrow> nat \<Rightarrow> nat \<Rightarrow> bool" where
  "cr_then_lf buf from len \<longleftrightarrow>
     (\<forall>i. from \<le> i \<and> Suc i < len \<and> peek_at buf i = Inr CR \<longrightarrow> peek_at buf (Suc i) = Inr LF)"

lemma requestHeadParse_returns:
  assumes "head_inv p" "cr_then_lf (hp_buf p) (hp_lend p) (hp_len p)"
  shows "requestHeadParse p \<noteq> None"
  unfolding requestHeadParse_def
proof (rule run_loop_terminates [where I = "\<lambda>q. head_inv q \<and> cr_then_lf (hp_buf q) (hp_lend q) (hp_len q)"
      and m = "\<lambda>q. hp_len q - hp_lend q"])
  fix q q' assume q: "head_inv q \<and> cr_then_lf (hp_buf q) (hp_lend q) (hp_len q)"
    and "Some (head_iteration q) = Some (Inr (Continue q'))"
  then have step: "head_iteration q = Inr (Continue q')" by simp
  have idx: "idx_ok q" using q by (simp add: head_inv_def)
  have inv: "head_inv q'" using head_iteration_inv step q by blast
  from step idx show "(head_inv q' \<and> cr_then_lf (hp_buf q') (hp_lend q') (hp_len q')) \<and>
      hp_len q' - hp_lend q' < hp_len q - hp_lend q"
  proof (cases rule: head_iteration_Continue)
    case (bare c)
    from scan_past_before [OF bare(4)] bare(2,3) have "hp_lend q < c" "peek_at (hp_buf q) (c - 1) = Inr CR"
      by simp_all
    with q bare(3) have "peek_at (hp_buf q) (Suc (c - 1)) = Inr LF"
      unfolding cr_then_lf_def by (metis Suc_diff_1 less_Suc_eq_le not_gr_zero not_less_zero)
    with bare(5) \<open>hp_lend q < c\<close> show ?thesis by simp
  next
    case (line c d k v)
    with q inv show ?thesis by (auto simp: cr_then_lf_def head_put_def)
  qed
qed (use assms in auto)

lemma cr_then_lf_text: "text_at buf i s \<Longrightarrow> no_bare_CR s \<Longrightarrow> cr_then_lf buf i (i + length s)"
proof -
  assume t: "text_at buf i s" and n: "no_bare_CR s"
  note nth = text_at_nth [OF t]
  show ?thesis unfolding cr_then_lf_def
  proof (intro allI impI, elim conjE)
    fix k assume "i \<le> k" "Suc k < i + length s" "peek_at buf k = Inr CR"
    then obtain j where j: "k = i + j" "Suc j < length s" "peek_at buf (i + j) = Inr CR"
      using le_Suc_ex by auto
    with nth [of j] nth [of "Suc j"] no_bare_CR_nth [OF n, of j] show "peek_at buf (Suc k) = Inr LF" by simp
  qed
qed

lemma parse_request_line:
  assumes "text_at buf 0 (line_text m u v)" "length (line_text m u v) \<le> len"
    "m = GET \<or> m = POST" "ok_url u" "ok_version v"
  shows "\<exists>p. parse_request buf len = parse_loop p \<and> hp_process p = Head \<and> head_inv p
    \<and> hp_final p = Incomplete
    \<and> hp_lend p = length (line_text m u v) \<and> hp_cur p = length (line_text m u v) \<and> hp_len p = len \<and> hp_buf p = buf
    \<and> hp_request p = \<lparr>rq_parseSize = 0, rq_line = parsed_line m u v, rq_head = Map.empty, rq_body = []\<rparr>"
proof -
  let ?n = "length (line_text m u v)"
  let ?p0 = "(new_httpParser buf len)\<lparr>hp_line := LineIncomplete\<rparr>"
  let ?p1 = "(setVersion v (setUrl u (setMethod m ?p0)))\<lparr>hp_lend := ?n, hp_cur := ?n, hp_line := LineOk\<rparr>"
  have n: "0 < ?n" by (simp add: line_text_def)
  have line: "requestLineParse ?p0 = Inr ?p1"
    using requestLineParse_ok [of ?p0 m u v] assms by (simp add: new_httpParser_def)
  have "parse_request buf len = parse_loop (?p1\<lparr>hp_process := Head\<rparr>)"
    using line n assms(2) unfolding parse_request_def
    by (subst parse_loop_unfold) (auto simp: parse_states new_httpParser_def set_line_def Let_def)
  with n assms(2) show ?thesis
    by (intro exI [of _ "?p1\<lparr>hp_process := Head\<rparr>"])
      (simp add: new_httpParser_def set_line_def new_httpRequest_def parsed_line_def head_inv_def idx_ok_def)
qed

lemma requestHeadParse_headers:
  assumes "text_at (hp_buf p) (hp_lend p) (concat (map header_line hs))" "\<forall>kv\<in>set hs. ok_header kv"
    "hp_lend p + length (concat (map header_line hs)) < hp_len p" "hp_cur p \<noteq> hp_len p"
  shows "\<exists>q. requestHeadParse p = requestHeadParse q \<and> hp_cur q \<noteq> hp_len q \<and> hp_len q = hp_len p
    \<and> hp_buf q = hp_buf p \<and> hp_lend q = hp_lend p + length (concat (map header_line hs))"
  using assms
proof (induction hs arbitrary: p)
  case Nil
  then show ?case by auto
next
  case (Cons kv hs)
  let ?p = "(head_put (fst kv) (snd kv) p)\<lparr>hp_cur := hp_lend p + length (fst kv) + 1,
    hp_lbeg := hp_lend p, hp_lend := hp_lend p + length (header_line kv), hp_line := LineOk\<rparr>"
  have "length (fst kv) + 1 < length (header_line kv)" by (simp add: header_line_def)
  moreover have "requestHeadParse p = requestHeadParse ?p"
    using requestHeadParse_header [of p kv] Cons.prems by (simp add: text_at_append)
  moreover have "\<exists>q. requestHeadParse ?p = requestHeadParse q \<and> hp_cur q \<noteq> hp_len q \<and> hp_len q = hp_len ?p
    \<and> hp_buf q = hp_buf ?p \<and> hp_lend q = hp_lend ?p + length (concat (map header_line hs))"
    using Cons.prems calculation(1)
    by (intro Cons.IH) (simp_all add: head_put_def text_at_append)
  ultimately show ?case by (auto simp: head_put_def add.assoc)
qed

lemma requestHeadParse_bare_CR:
  assumes "text_at (hp_buf p) (hp_lend p) (s @ [CR, c])" "CR \<notin> set s" "c \<noteq> LF"
    "hp_lend p + length s + 2 < hp_len p" "hp_cur p \<noteq> hp_len p"
  shows "requestHeadParse p = None"
  unfolding requestHeadParse_def
proof (rule run_loop_diverges [where I = "\<lambda>q. hp_buf q = hp_buf p \<and> hp_lend q = hp_lend p \<and> hp_len q = hp_len p
      \<and> hp_cur q \<noteq> hp_len q"])
  fix q :: httpParser assume q: "hp_buf q = hp_buf p \<and> hp_lend q = hp_lend p \<and> hp_len q = hp_len p \<and> hp_cur q \<noteq> hp_len q"
  have "scan_past (hp_buf p) (hp_len p) CR (hp_lend p) = Inr (Suc (hp_lend p + length s))"
    using scan_past_found [of "hp_buf p" "hp_lend p" s CR "hp_len p"] assms(1,2,4) by (simp add: text_at_append)
  moreover have "peek_at (hp_buf p) (Suc (hp_lend p + length s)) = Inr c"
    using assms(1) by (simp add: text_at_append)
  ultimately show "\<exists>q'. Some (head_iteration q) = Some (Inr (Continue q')) \<and> hp_buf q' = hp_buf p
      \<and> hp_lend q' = hp_lend p \<and> hp_len q' = hp_len p \<and> hp_cur q' \<noteq> hp_len q'"
    using q assms(3,4) by (simp add: head_iteration_def Let_def)
qed (use assms in simp)

section \<open>Properties\<close>

lemma parse_success_size:
  assumes "parse_request buf len = Some (Inr p)" "hp_final p = Success"
  shows "0 < rq_parseSize (hp_request p) \<and> rq_parseSize (hp_request p) \<le> len"
proof -
  have "hp_final p = Success \<longrightarrow> rq_parseSize (hp_request p) = hp_cur p \<and> head_inv p \<and> hp_len p = len"
  proof (rule run_loop_returns [where I = "\<lambda>q. parse_inv q \<and> hp_len q = len",
        OF assms(1) [unfolded parse_request_def parse_loop_def]])
    show "parse_inv (new_httpParser buf len) \<and> hp_len (new_httpParser buf len) = len"
      using parse_inv_init [of buf len] by (simp add: new_httpParser_def)
  qed (auto dest: parse_iteration_inv parse_iteration_Success)
  with assms(2) show ?thesis by (simp add: head_inv_def idx_ok_def)
qed

text \<open>Whenever the parser reports Success, \<open>parseSize_\<close> is at least one and at most the
  number of bytes it was given, for every message and whatever memory follows it: the buffer is
  never asked to retrieve more than it holds, and every accepted request consumes input.\<close>

theorem parse_success_bounds:
  assumes "parse_request buf len = Some (Inr p)" "hp_final p = Success"
  shows "0 < rq_parseSize (hp_request p) \<and> rq_parseSize (hp_request p) \<le> len"
  using assms by (rule parse_success_size)

theorem parse_success_bounds_witness:
  "\<exists>p. parse_request (map Some (request_text GET ''/'' ''HTTP/1.1'' [] @ ''GET'')) 21 = Some (Inr p)
    \<and> 0 < rq_parseSize (hp_request p) \<and> rq_parseSize (hp_request p) \<le> 21"
proof -
  have "\<exists>p. parse_request (map Some (request_text GET ''/'' ''HTTP/1.1'' [] @ ''GET'')) 21 = Some (Inr p)
      \<and> hp_final p = Success"
    by (simp add: parser_eval request_text_def line_text_def head_text_def)
  then show ?thesis using parse_success_bounds by blast
qed

text \<open>C9: memory safety.  Once the first line is complete (a CRLF lies within the message and no
  carriage return before it), the parser reads neither past the \<open>len_\<close> bytes it was given nor
  a byte nobody wrote, whatever follows the first line; the only faults left are the exceptions
  of \<open>std::string\<close> and \<open>std::stoi\<close> and the signed overflow in \<open>requestBodyParse\<close>.\<close>

theorem parse_memory_safe:
  assumes "first_line_complete buf len" "readable_mem buf len" "parse_request buf len = Some (Inl e)"
  shows "e \<in> {Length_error, Invalid_argument, Out_of_range, Int_overflow}"
proof (rule run_loop_faults [where I = "\<lambda>q. parse_inv q \<and> hp_len q = len \<and> hp_buf q = buf",
        OF assms(3) [unfolded parse_request_def parse_loop_def]])
  show "parse_inv (new_httpParser buf len) \<and> hp_len (new_httpParser buf len) = len
      \<and> hp_buf (new_httpParser buf len) = buf"
    using parse_inv_init [of buf len] by (simp add: new_httpParser_def)
qed (use assms(1,2) in \<open>auto dest: parse_iteration_inv dest!: parse_iteration_fault\<close>)

theorem parse_memory_safe_witness:
  "\<exists>e. parse_request (map Some (line_text GET ''/'' ''HTTP/1.1'' @ '' a: b'' @ CRLF)) 23 = Some (Inl e)
    \<and> e \<in> {Length_error, Invalid_argument, Out_of_range, Int_overflow}"
proof -
  let ?b = "map Some (line_text GET ''/'' ''HTTP/1.1'' @ '' a: b'' @ CRLF)"
  have "text_at ?b 0 ((''GET / HTTP/1.1'') @ CRLF)" by (simp add: line_text_def peek_at_def)
  then have "first_line_complete ?b 23" unfolding first_line_complete_def
    by (intro exI [of _ "''GET / HTTP/1.1''"]) simp
  moreover have "readable_mem ?b 23" by (simp add: readable_mem_def line_text_def)
  moreover have "parse_request ?b 23 = Some (Inl Length_error)"
    by (simp add: parser_eval line_text_def)
  ultimately show ?thesis using parse_memory_safe by blast
qed

text \<open>C38: termination.  A well-formed GET request line followed by any bytes in which every
  carriage return (the last byte apart) is followed by a line feed is parsed in finitely many
  steps, complete or not, well-formed or not.\<close>

theorem parse_get_returns:
  assumes "ok_url u" "ok_version v" "no_bare_CR rest"
  shows "parse_request (map Some (line_text GET u v @ rest) @ tail) (length (line_text GET u v @ rest)) \<noteq> None"
proof -
  let ?l = "line_text GET u v" and ?b = "map Some (line_text GET u v @ rest) @ tail"
  have at: "text_at ?b 0 ?l" "text_at ?b (length ?l) rest"
    using text_at_start [of "?l @ rest" tail] by (simp_all add: text_at_append)
  from parse_request_line [OF at(1) _ _ assms(1,2), of "length (?l @ rest)"]
  obtain p where p: "parse_request ?b (length (?l @ rest)) = parse_loop p" "hp_process p = Head" "head_inv p"
    "hp_lend p = length ?l" "hp_len p = length (?l @ rest)" "hp_buf p = ?b"
    "rl_method (rq_line (hp_request p)) = Some GET"
    by (auto simp: parsed_line_def)
  let ?p = "p\<lparr>hp_line := LineIncomplete\<rparr>"
  have "requestHeadParse ?p \<noteq> None"
    using cr_then_lf_text [OF at(2) assms(3)] p
    by (intro requestHeadParse_returns) simp_all
  then obtain r where r: "requestHeadParse ?p = Some r" by blast
  have "rl_method (rq_line (hp_request p')) = Some GET" if "r = Inr p'" for p'
    using requestHeadParse_idx [of ?p p'] r that p(3,7) by (simp add: frame_line_def)
  with r p(1,2) show ?thesis
    by (subst p(1), subst parse_loop_unfold)
      (auto simp: parse_states Let_def bind_res_def split: sum.splits LineState.splits flow.splits)
qed

theorem parse_get_returns_witness:
  "parse_request (map Some (line_text GET ''/x'' ''HTTP/1.0'' @ ''junk'' @ CRLF) @ [None])
    (length (line_text GET ''/x'' ''HTTP/1.0'' @ ''junk'' @ CRLF)) \<noteq> None"
  using parse_get_returns [of "''/x''" "''HTTP/1.0''" "''junk'' @ CRLF" "[None]"]
  by (simp add: ok_url_def ok_version_def)

text \<open>C39: without that condition the parser does not return: after a good request line and any good
  headers, a carriage return that is followed by something other than a line feed and at least
  one more byte makes \<open>requestHeadParse\<close> rescan the same line for ever.\<close>

theorem parse_bare_CR_hangs:
  assumes "m = GET \<or> m = POST" "ok_url u" "ok_version v" "\<forall>kv\<in>set hs. ok_header kv"
    "CR \<notin> set s" "c \<noteq> LF"
  shows "parse_request (map Some (line_text m u v @ concat (map header_line hs) @ s @ [CR, c, d] @ rest) @ tail)
    (length (line_text m u v @ concat (map header_line hs) @ s @ [CR, c, d] @ rest)) = None"
proof -
  let ?l = "line_text m u v" and ?h = "concat (map header_line hs)" and ?r = "s @ [CR, c, d] @ rest"
  let ?b = "map Some (?l @ ?h @ ?r) @ tail"
  have at: "text_at ?b 0 ?l" "text_at ?b (length ?l) ?h" "text_at ?b (length ?l + length ?h) (s @ [CR, c])"
    using text_at_start [of "?l @ ?h @ ?r" tail] by (simp_all add: text_at_append)
  from parse_request_line [OF at(1) _ assms(1-3), of "length (?l @ ?h @ ?r)"]
  obtain p where p: "parse_request ?b (length (?l @ ?h @ ?r)) = parse_loop p" "hp_process p = Head"
    "hp_lend p = length ?l" "hp_cur p = length ?l" "hp_len p = length (?l @ ?h @ ?r)" "hp_buf p = ?b"
    by auto
  let ?p = "p\<lparr>hp_line := LineIncomplete\<rparr>"
  obtain q where q: "requestHeadParse ?p = requestHeadParse q" "hp_cur q \<noteq> hp_len q"
    "hp_len q = length (?l @ ?h @ ?r)" "hp_buf q = ?b" "hp_lend q = length ?l + length ?h"
    using requestHeadParse_headers [of ?p hs] at(2) assms(4) p by auto
  have "requestHeadParse q = None"
    using requestHeadParse_bare_CR [of q s c] at(3) assms(5,6) q by simp
  with q(1) p show ?thesis
    by (subst p(1), subst parse_loop_unfold) (simp add: parse_states Let_def)
qed

theorem parse_bare_CR_hangs_witness:
  "parse_request (map Some (line_text GET ''/'' ''HTTP/1.1'' @ header_line (''Host'', ''h'') @ ''X: y'' @ [CR, CR, LF]))
    (length (line_text GET ''/'' ''HTTP/1.1'' @ header_line (''Host'', ''h'') @ ''X: y'' @ [CR, CR, LF])) = None"
  using parse_bare_CR_hangs [of GET "''/''" "''HTTP/1.1''" "[(''Host'', ''h'')]" "''X: y''" CR LF "[]" "[]"]
  by (simp add: ok_url_def ok_version_def ok_header_def)

text \<open>Nor does it return on a POST request whose \<open>Content-Length\<close> is zero or negative when
  any byte (of a pipelined request, say) follows the head: the body state is entered again and
  again without consuming anything.\<close>

theorem parse_post_empty_hangs:
  assumes "ok_url u" "ok_version v" "\<forall>kv\<in>set hs. ok_header kv"
    "map_of hs ''Content-Length'' = Some (to_string n)" "fits_int n" "n \<le> 0" "rest \<noteq> []"
  shows "parse_request (map Some (request_text POST u v hs @ rest) @ tail)
    (length (request_text POST u v hs @ rest)) = None"
proof -
  let ?t = "request_text POST u v hs" and ?b = "map Some (request_text POST u v hs @ rest) @ tail"
  have "text_at ?b 0 ?t" using text_at_start [of ?t "map Some rest @ tail"] by simp
  from parse_request_head [OF this _ _ assms(1-3), of "length (?t @ rest)"]
  obtain p where p: "parse_request ?b (length (?t @ rest)) = parse_loop (p\<lparr>hp_process := Body\<rparr>)"
    "hp_cur p = length ?t" "hp_len p = length (?t @ rest)"
    "hp_request p = \<lparr>rq_parseSize = 0, rq_line = parsed_line POST u v, rq_head = map_of hs, rq_body = []\<rparr>"
    by (auto simp: head_fold_empty)
  have "parse_loop (p\<lparr>hp_process := Body\<rparr>) = None"
    unfolding parse_loop_def
  proof (rule run_loop_diverges [where I = "\<lambda>q. hp_process q = Body \<and> hp_cur q = hp_cur p \<and> hp_len q = hp_len p
        \<and> hp_request q = hp_request p"])
    fix q :: httpParser assume "hp_process q = Body \<and> hp_cur q = hp_cur p \<and> hp_len q = hp_len p \<and> hp_request q = hp_request p"
    with p assms(4-7) show "\<exists>s'. parse_iteration q = Some (Inr (Continue s')) \<and> hp_process s' = Body
        \<and> hp_cur s' = hp_cur p \<and> hp_len s' = hp_len p \<and> hp_request s' = hp_request p"
      by (simp add: parse_states Let_def head_get_def stoi_to_string parsed_line_def)
  qed simp
  with p show ?thesis by simp
qed

theorem parse_post_empty_hangs_witness:
  "parse_request (map Some (request_text POST ''/f'' ''HTTP/1.1'' [(''Content-Length'', to_string 0)] @ ''G''))
    (length (request_text POST ''/f'' ''HTTP/1.1'' [(''Content-Length'', to_string 0)] @ ''G'')) = None"
proof -
  have "CR \<notin> set (to_string 0)" using to_string_plain [of 0] by simp
  then show ?thesis
    using parse_post_empty_hangs [of "''/f''" "''HTTP/1.1''" "[(''Content-Length'', to_string 0)]" 0 "''G''" "[]"]
    by (simp add: ok_url_def ok_version_def ok_header_def fits_int_def INT_MIN_def INT_MAX_def)
qed

text \<open>A request line cut inside its method, the way TCP may deliver it, is rejected (Failed)
  and not reported as Incomplete.\<close>

theorem parse_fragment_fails:
  assumes "s = ''G'' \<or> s = ''GE'' \<or> s = ''P'' \<or> s = ''PO'' \<or> s = ''POS''"
  shows "\<exists>p. parse_request (map Some s @ tail) (length s) = Some (Inr p) \<and> hp_final p = Failed"
  using assms by (elim disjE) (simp_all add: parser_eval)

theorem parse_fragment_fails_witness:
  "\<exists>p. parse_request (map Some ''GE'' @ [Some CR]) (length ''GE'') = Some (Inr p) \<and> hp_final p = Failed"
  using parse_fragment_fails [of "''GE''" "[Some CR]"] by simp

end
