(* ===== verification/Net_Buffer.thy ===== *)
theory Net_Buffer
  imports Adl_Prelude
begin

text \<open>
  \<open>src/src/net/netBuffer.h\<close> and \<open>netBuffer.cpp\<close>: the growable byte buffer between a socket
  and the code above it.  \<open>nb_r\<close>, \<open>nb_w\<close> and \<open>nb_alloc\<close> are the C++ \<open>int\<close>s
  \<open>r_\<close>, \<open>w_\<close> and \<open>alloc_\<close>; \<open>nb_buf\<close> is the block \<open>buf_\<close> points to, with
  \<open>None\<close> for bytes that \<open>malloc\<close> or \<open>realloc\<close> left unwritten.
\<close>

record netBuffer =
  nb_buf :: "char option list"
  nb_r :: int
  nb_w :: int
  nb_alloc :: int

section \<open>Operations\<close>

definition new_netBuffer :: "int \<Rightarrow> netBuffer" where
  "new_netBuffer initSize =
     \<lparr>nb_buf = replicate (nat initSize) None, nb_r = 0, nb_w = 0, nb_alloc = initSize\<rparr>"

definition readable :: "netBuffer \<Rightarrow> int" where
  "readable b = nb_w b - nb_r b"

definition writeable :: "netBuffer \<Rightarrow> int" where
  "writeable b = nb_alloc b - nb_w b"

definition checkCanMoveToLeft :: "netBuffer \<Rightarrow> bool" where
  "checkCanMoveToLeft b \<longleftrightarrow> nb_r b > 0"

text \<open>The loop \<open>while (writeable() <= len) alloc_ *= 2\<close>.  Doubling a zero capacity changes
  nothing, so from zero the loop spins; doubling past the \<open>int\<close> range is undefined.\<close>

function expansion_loop :: "int \<Rightarrow> int \<Rightarrow> int \<Rightarrow> int result" where
  "expansion_loop w len alloc =
     (if alloc - w \<le> len then
        (if alloc = 0 then Inl Never_returns
         else if \<not> fits_int (alloc * 2) then Inl Int_overflow
         else expansion_loop w len (alloc * 2))
      else Inr alloc)"
  by pat_completeness auto
termination
  by (relation "measure (\<lambda>(w, len, alloc). nat (2147483649 - \<bar>alloc\<bar>))")
    (auto simp: fits_int_def INT_MAX_def INT_MIN_def)

declare expansion_loop.simps [simp del]

definition realloc_cells :: "char option list \<Rightarrow> int \<Rightarrow> char option list" where
  "realloc_cells cs n = take (nat n) cs @ replicate (nat n - length cs) None"

definition expansion :: "netBuffer \<Rightarrow> int \<Rightarrow> netBuffer result" where
  "expansion b len =
     bind_res (expansion_loop (nb_w b) len (nb_alloc b)) (\<lambda>a.
       Inr (b\<lparr>nb_alloc := a, nb_buf := realloc_cells (nb_buf b) a\<rparr>))"

definition moveToLeft :: "netBuffer \<Rightarrow> netBuffer" where
  "moveToLeft b =
     (let n = nat (nb_w b - nb_r b) in
      b\<lparr>nb_buf := take n (drop (nat (nb_r b)) (nb_buf b)) @ drop n (nb_buf b),
        nb_w := nb_w b - nb_r b, nb_r := 0\<rparr>)"

definition checkCapcity :: "netBuffer \<Rightarrow> int \<Rightarrow> netBuffer result" where
  "checkCapcity b len =
     (if writeable b \<le> len then
        (let b1 = (if checkCanMoveToLeft b then moveToLeft b else b) in
         if writeable b1 \<le> len then expansion b1 len else Inr b1)
      else Inr b)"

text \<open>The copying loop of \<open>append\<close>, one byte per turn.\<close>

fun append_loop :: "netBuffer \<Rightarrow> char list \<Rightarrow> netBuffer result" where
  "append_loop b [] = Inr b"
| "append_loop b (c # cs) =
     (if 0 \<le> nb_w b \<and> nat (nb_w b) < length (nb_buf b)
      then append_loop (b\<lparr>nb_buf := (nb_buf b)[nat (nb_w b) := Some c], nb_w := nb_w b + 1\<rparr>) cs
      else Inl Out_of_bounds)"

definition append_nb :: "netBuffer \<Rightarrow> char list \<Rightarrow> netBuffer result" where
  "append_nb b bs = bind_res (checkCapcity b (int (length bs))) (\<lambda>b'. append_loop b' bs)"

text \<open>\<open>n\<close> bytes starting at \<open>peek()\<close>, as \<open>memcpy\<close> and \<open>string(peek(), n)\<close> read them.\<close>

definition read_bytes :: "netBuffer \<Rightarrow> int \<Rightarrow> char list result" where
  "read_bytes b n =
     (let cs = take (nat n) (drop (nat (nb_r b)) (nb_buf b)) in
      if n < 0 \<or> nb_r b < 0 \<or> nat (nb_r b) + nat n > length (nb_buf b) then Inl Out_of_bounds
      else if None \<in> set cs then Inl Uninit_read
      else Inr (map the cs))"

definition retrieve :: "netBuffer \<Rightarrow> int \<Rightarrow> netBuffer result" where
  "retrieve b len =
     bind_res (cassert (len \<le> readable b)) (\<lambda>_. Inr (b\<lparr>nb_r := nb_r b + len\<rparr>))"

text \<open>Little-endian two's complement, the layout of an \<open>int\<close> on the target (x86-64).\<close>

definition int_of_bytes :: "char list \<Rightarrow> int" where
  "int_of_bytes bs = to_int (foldr (\<lambda>c acc. int (of_char c) + 256 * acc) bs 0)"

definition bytes_of_int :: "int \<Rightarrow> char list" where
  "bytes_of_int x = map (\<lambda>i. char_of (nat ((x div 256 ^ i) mod 256))) [0..<4]"

definition peekInt :: "netBuffer \<Rightarrow> int result" where
  "peekInt b =
     bind_res (cassert (4 \<le> to_size_t (readable b))) (\<lambda>_.
     bind_res (read_bytes b 4) (\<lambda>bs. Inr (int_of_bytes bs)))"

definition readInt :: "netBuffer \<Rightarrow> (int \<times> netBuffer) result" where
  "readInt b = bind_res (peekInt b) (\<lambda>i. bind_res (retrieve b 4) (\<lambda>b'. Inr (i, b')))"

definition retrieveAsString :: "netBuffer \<Rightarrow> int \<Rightarrow> (string \<times> netBuffer) result" where
  "retrieveAsString b len =
     bind_res (cassert (len \<le> to_size_t (readable b))) (\<lambda>_.
     bind_res (read_bytes b len) (\<lambda>s.
     bind_res (retrieve b (to_int len)) (\<lambda>b'. Inr (s, b'))))"

definition retrieveAll :: "netBuffer \<Rightarrow> netBuffer" where
  "retrieveAll b = b\<lparr>nb_r := 0, nb_w := 0\<rparr>"

definition reset_nb :: "netBuffer \<Rightarrow> netBuffer" where
  "reset_nb b = b\<lparr>nb_r := 0, nb_w := 0\<rparr>"

definition retrieveAllAsString :: "netBuffer \<Rightarrow> (string \<times> netBuffer) result" where
  "retrieveAllAsString b = retrieveAsString b (to_size_t (readable b))"

section \<open>Reading a descriptor\<close>

text \<open>The kernel's \<open>read\<close> and \<open>pread\<close> are parameters over a kernel state \<open>'k\<close>.\<close>

type_synonym 'k sys_read = "'k \<Rightarrow> int \<Rightarrow> int \<Rightarrow> sysret \<times> 'k"
type_synonym 'k sys_pread = "'k \<Rightarrow> int \<Rightarrow> int \<Rightarrow> int \<Rightarrow> sysret \<times> 'k"

record 'k readFd_out =
  rf_ret :: int
  rf_savedErrno :: "errno option"
  rf_closed :: bool
  rf_buf :: netBuffer
  rf_kernel :: 'k

definition kernel_store :: "netBuffer \<Rightarrow> char list \<Rightarrow> netBuffer result" where
  "kernel_store b bs =
     (if nb_w b < 0 \<or> nat (nb_w b) + length bs > length (nb_buf b) then Inl Out_of_bounds
      else Inr (b\<lparr>nb_buf := take (nat (nb_w b)) (nb_buf b) @ map Some bs
                    @ drop (nat (nb_w b) + length bs) (nb_buf b),
                  nb_w := nb_w b + int (length bs)\<rparr>))"

text \<open>What happens after a positive \<open>getSize\<close>.  The test \<open>writeable() <= 0.2 * alloc_\<close> in
  doubles agrees with \<open>5 * writeable() <= alloc_\<close> for every \<open>int\<close> capacity: the product's
  rounding error is far below the distance 1/5 between multiples of 1/5.\<close>

definition readFd_grow :: "netBuffer \<Rightarrow> netBuffer result" where
  "readFd_grow b = (if 5 * writeable b \<le> nb_alloc b then checkCapcity b 4096 else Inr b)"

partial_function (option) readFd_loop ::
  "'k sys_read \<Rightarrow> 'k sys_pread \<Rightarrow> int \<Rightarrow> int \<Rightarrow> 'k \<Rightarrow> int \<Rightarrow> int \<Rightarrow> netBuffer
    \<Rightarrow> 'k readFd_out result option" where
  "readFd_loop rd prd fd off k getSize allSize b =
     (case (if off > 0 then prd k fd (writeable b) (off + getSize) else rd k fd (writeable b)) of
        (Fail e, k') \<Rightarrow>
          (if e = EINTR then readFd_loop rd prd fd off k' (-1) allSize b
           else if e = EAGAIN \<or> e = EWOULDBLOCK
           then Some (Inr \<lparr>rf_ret = allSize, rf_savedErrno = None, rf_closed = False,
                           rf_buf = b, rf_kernel = k'\<rparr>)
           else Some (Inr \<lparr>rf_ret = -1, rf_savedErrno = Some e, rf_closed = False,
                           rf_buf = b, rf_kernel = k'\<rparr>))
      | (Ret bs, k') \<Rightarrow>
          (if bs = []
           then Some (Inr \<lparr>rf_ret = 0, rf_savedErrno = None, rf_closed = True,
                           rf_buf = b, rf_kernel = k'\<rparr>)
           else (case bind_res (kernel_store b bs) readFd_grow of
                   Inl e \<Rightarrow> Some (Inl e)
                 | Inr b' \<Rightarrow> readFd_loop rd prd fd off k' (int (length bs))
                               (allSize + int (length bs)) b')))"

definition readFd ::
  "'k sys_read \<Rightarrow> 'k sys_pread \<Rightarrow> int \<Rightarrow> int \<Rightarrow> 'k \<Rightarrow> netBuffer \<Rightarrow> 'k readFd_out result option" where
  "readFd rd prd fd sendFileOffset k b = readFd_loop rd prd fd sendFileOffset k 0 0 b"

section \<open>Contents and invariant\<close>

definition nb_cells :: "netBuffer \<Rightarrow> char option list" where
  "nb_cells b = take (nat (nb_w b - nb_r b)) (drop (nat (nb_r b)) (nb_buf b))"

definition nb_bytes :: "netBuffer \<Rightarrow> char list" where
  "nb_bytes b = map the (nb_cells b)"

definition nb_wf :: "netBuffer \<Rightarrow> bool" where
  "nb_wf b \<longleftrightarrow> 0 \<le> nb_r b \<and> nb_r b \<le> nb_w b \<and> nb_w b \<le> nb_alloc b \<and> 0 < nb_alloc b
     \<and> nb_alloc b \<le> INT_MAX \<and> length (nb_buf b) = nat (nb_alloc b) \<and> None \<notin> set (nb_cells b)"

text \<open>Between operations the write index stays strictly below the capacity, so no read is
  ever issued with a zero count and a zero return really is the end of the stream.\<close>

definition nb_inv :: "netBuffer \<Rightarrow> bool" where
  "nb_inv b \<longleftrightarrow> nb_wf b \<and> nb_w b < nb_alloc b"

lemma nb_wfD:
  assumes "nb_wf b"
  shows "0 \<le> nb_r b" "nb_r b \<le> nb_w b" "nb_w b \<le> nb_alloc b" "nb_alloc b \<le> INT_MAX"
    "length (nb_buf b) = nat (nb_alloc b)" "None \<notin> set (nb_cells b)" "0 < nb_alloc b"
  using assms by (simp_all add: nb_wf_def)

lemma nb_inv_wf: "nb_inv b \<Longrightarrow> nb_wf b"
  by (simp add: nb_inv_def)

lemma nb_invD:
  assumes "nb_inv b"
  shows "0 \<le> nb_r b" "nb_r b \<le> nb_w b" "nb_w b < nb_alloc b" "nb_alloc b \<le> INT_MAX"
    "length (nb_buf b) = nat (nb_alloc b)" "None \<notin> set (nb_cells b)"
  using assms by (simp_all add: nb_inv_def nb_wf_def)

lemma nb_cells_bytes: "nb_wf b \<Longrightarrow> nb_cells b = map Some (nb_bytes b)"
  by (simp add: nb_bytes_def nb_wf_def map_Some_map_the del: map_map)

lemma length_nb_cells: "nb_wf b \<Longrightarrow> int (length (nb_cells b)) = readable b"
  by (auto simp: nb_wf_def nb_cells_def readable_def)

lemma length_nb_bytes: "nb_wf b \<Longrightarrow> int (length (nb_bytes b)) = readable b"
  by (simp add: nb_bytes_def length_nb_cells)

lemma readable_bounds: "nb_inv b \<Longrightarrow> 0 \<le> readable b \<and> readable b < INT_MAX"
  by (auto simp: nb_inv_def nb_wf_def readable_def)

lemma writeable_pos: "nb_inv b \<Longrightarrow> 0 < writeable b"
  by (simp add: nb_inv_def writeable_def)

lemma new_netBuffer_inv:
  assumes "0 < n" "n \<le> INT_MAX"
  shows "nb_inv (new_netBuffer n) \<and> nb_bytes (new_netBuffer n) = []"
  using assms by (simp add: nb_inv_def nb_wf_def new_netBuffer_def nb_cells_def nb_bytes_def)

section \<open>Capacity\<close>

lemma expansion_loop_ok:
  assumes "0 < alloc" "0 \<le> w" "0 \<le> len" "w + len < 2 ^ 30" "alloc \<le> INT_MAX"
  shows "\<exists>a. expansion_loop w len alloc = Inr a \<and> alloc \<le> a \<and> len < a - w \<and> a \<le> INT_MAX"
  using assms
proof (induction w len alloc rule: expansion_loop.induct)
  case (1 w len alloc)
  show ?case
  proof (cases "alloc - w \<le> len")
    case True
    with "1.prems" have fit: "fits_int (alloc * 2)"
      by (simp add: fits_int_def INT_MAX_def INT_MIN_def)
    then have "alloc * 2 \<le> INT_MAX" by (simp add: fits_int_def)
    with "1.IH" True fit "1.prems"
    obtain a where "expansion_loop w len (alloc * 2) = Inr a" "alloc * 2 \<le> a"
      "len < a - w" "a \<le> INT_MAX"
      by auto
    with True fit "1.prems" show ?thesis
      by (subst expansion_loop.simps) auto
  next
    case False
    with "1.prems" show ?thesis by (subst expansion_loop.simps) auto
  qed
qed

lemma take_drop_realloc:
  "i + n \<le> length cs \<Longrightarrow> length cs \<le> nat a
    \<Longrightarrow> take n (drop i (realloc_cells cs a)) = take n (drop i cs)"
  by (simp add: realloc_cells_def)

lemma moveToLeft_wf:
  assumes "nb_wf b"
  shows "nb_wf (moveToLeft b)" and "nb_cells (moveToLeft b) = nb_cells b"
    and "nb_alloc (moveToLeft b) = nb_alloc b" and "nb_w (moveToLeft b) = readable b"
    and "nb_r (moveToLeft b) = 0"
proof -
  note inv = nb_wfD [OF assms]
  let ?n = "nat (nb_w b - nb_r b)"
  have len: "length (take ?n (drop (nat (nb_r b)) (nb_buf b))) = ?n"
    using inv by auto
  then show cells: "nb_cells (moveToLeft b) = nb_cells b"
    by (simp add: nb_cells_def moveToLeft_def Let_def)
  have "length (nb_buf (moveToLeft b)) = length (nb_buf b)"
    using inv len by (simp add: moveToLeft_def Let_def)
  with inv cells show "nb_wf (moveToLeft b)"
    by (simp add: nb_wf_def) (simp add: moveToLeft_def Let_def)
qed (simp_all add: moveToLeft_def Let_def readable_def)

lemma expansion_ok:
  assumes "nb_wf b" "0 \<le> len" "nb_w b + len < 2 ^ 30"
  shows "\<exists>b'. expansion b len = Inr b' \<and> nb_inv b' \<and> nb_cells b' = nb_cells b
    \<and> len < writeable b' \<and> nb_w b' = nb_w b \<and> nb_alloc b \<le> nb_alloc b'"
proof -
  note inv = nb_wfD [OF assms(1)]
  obtain a where a: "expansion_loop (nb_w b) len (nb_alloc b) = Inr a" "nb_alloc b \<le> a"
    "len < a - nb_w b" "a \<le> INT_MAX"
    using expansion_loop_ok [of "nb_alloc b" "nb_w b" len] inv assms by auto
  let ?b = "b\<lparr>nb_alloc := a, nb_buf := realloc_cells (nb_buf b) a\<rparr>"
  have cells: "nb_cells ?b = nb_cells b"
    using inv a(2) by (simp add: nb_cells_def take_drop_realloc)
  have "nb_inv ?b"
    using inv a cells assms(2) by (simp add: nb_inv_def nb_wf_def) (simp add: realloc_cells_def)
  with a cells show ?thesis by (simp add: expansion_def writeable_def)
qed

text \<open>\<open>checkCapcity\<close> makes room without losing a byte, as long as the contents and the
  request stay below 1 GiB (beyond that the doubling can leave the \<open>int\<close> range).\<close>

lemma checkCapcity_ok:
  assumes "nb_wf b" "0 \<le> len" "readable b + len < 2 ^ 30"
  shows "\<exists>b'. checkCapcity b len = Inr b' \<and> nb_inv b' \<and> nb_bytes b' = nb_bytes b
    \<and> len < writeable b'"
proof -
  let ?b1 = "if checkCanMoveToLeft b then moveToLeft b else b"
  have b1: "nb_wf ?b1" "nb_cells ?b1 = nb_cells b" "nb_w ?b1 = readable b"
    using moveToLeft_wf [OF assms(1)] assms(1)
    by (auto simp: checkCanMoveToLeft_def readable_def nb_wf_def)
  show ?thesis
  proof (cases "writeable b \<le> len \<and> writeable ?b1 \<le> len")
    case True
    with expansion_ok [OF b1(1) assms(2)] b1 assms(3) show ?thesis
      by (auto simp: checkCapcity_def Let_def nb_bytes_def nb_inv_def writeable_def)
  next
    case False
    with b1 assms(1,2) show ?thesis
      by (auto simp: checkCapcity_def Let_def nb_bytes_def nb_inv_def writeable_def)
  qed
qed

section \<open>Writing\<close>

lemma nb_cells_put:
  assumes "nb_inv b" "nb_w b + 1 < nb_alloc b"
  shows "nb_cells (b\<lparr>nb_buf := (nb_buf b)[nat (nb_w b) := Some c], nb_w := nb_w b + 1\<rparr>)
    = nb_cells b @ [Some c]"
proof -
  note inv = nb_invD [OF assms(1)]
  let ?n = "nat (nb_w b - nb_r b)" and ?r = "nat (nb_r b)"
  have n: "nat (nb_w b + 1 - nb_r b) = Suc ?n" and w: "nat (nb_w b) = ?r + ?n"
    using inv by auto
  have "?n < length (drop ?r ((nb_buf b)[?r + ?n := Some c]))"
    using inv w by auto
  then have "take (Suc ?n) (drop ?r ((nb_buf b)[?r + ?n := Some c]))
      = take ?n (drop ?r ((nb_buf b)[?r + ?n := Some c])) @ [(nb_buf b)[?r + ?n := Some c] ! (?r + ?n)]"
    by (simp add: take_Suc_conv_app_nth)
  also have "\<dots> = take ?n (drop ?r (nb_buf b)) @ [Some c]"
    using inv w by (simp add: drop_update_swap)
  finally show ?thesis by (simp add: nb_cells_def n w)
qed

lemma append_loop_ok:
  assumes "nb_inv b" "int (length bs) < writeable b"
  shows "\<exists>b'. append_loop b bs = Inr b' \<and> nb_inv b' \<and> nb_bytes b' = nb_bytes b @ bs
    \<and> nb_alloc b' = nb_alloc b \<and> nb_w b' = nb_w b + int (length bs)"
  using assms
proof (induction bs arbitrary: b)
  case Nil
  then show ?case by simp
next
  case (Cons c cs)
  note inv = nb_invD [OF Cons.prems(1)]
  let ?b = "b\<lparr>nb_buf := (nb_buf b)[nat (nb_w b) := Some c], nb_w := nb_w b + 1\<rparr>"
  have room: "nb_w b + 1 < nb_alloc b" using Cons.prems(2) by (simp add: writeable_def)
  have cells: "nb_cells ?b = nb_cells b @ [Some c]"
    by (rule nb_cells_put [OF Cons.prems(1) room])
  have "nb_inv ?b" using inv room cells by (auto simp: nb_inv_def nb_wf_def)
  moreover have "int (length cs) < writeable ?b"
    using Cons.prems(2) by (simp add: writeable_def)
  ultimately obtain b' where b': "append_loop ?b cs = Inr b'" "nb_inv b'"
    "nb_bytes b' = nb_bytes ?b @ cs" "nb_alloc b' = nb_alloc b" "nb_w b' = nb_w b + 1 + int (length cs)"
    using Cons.IH [of ?b] by auto
  have "append_loop b (c # cs) = Inr b'" using inv b'(1) by simp
  with b' cells show ?case by (simp add: nb_bytes_def)
qed

lemma append_nb_ok:
  assumes "nb_inv b" "readable b + int (length bs) < 2 ^ 30"
  shows "\<exists>b'. append_nb b bs = Inr b' \<and> nb_inv b' \<and> nb_bytes b' = nb_bytes b @ bs"
proof -
  obtain b1 where "checkCapcity b (int (length bs)) = Inr b1" "nb_inv b1"
    "nb_bytes b1 = nb_bytes b" "int (length bs) < writeable b1"
    using checkCapcity_ok [of b "int (length bs)"] nb_inv_wf assms by auto
  with append_loop_ok [of b1 bs] show ?thesis by (auto simp: append_nb_def)
qed

section \<open>Retrieving\<close>

lemma nb_cells_advance:
  assumes "nb_inv b" "0 \<le> n" "n \<le> readable b"
  shows "nb_cells (b\<lparr>nb_r := nb_r b + n\<rparr>) = drop (nat n) (nb_cells b)"
proof -
  have "nat (nb_w b - (nb_r b + n)) = nat (nb_w b - nb_r b) - nat n"
    and "nat (nb_r b + n) = nat (nb_r b) + nat n"
    using assms by (auto simp: nb_inv_def nb_wf_def readable_def)
  then show ?thesis by (simp add: nb_cells_def drop_take add.commute)
qed

lemma retrieve_ok:
  assumes "nb_inv b" "0 \<le> n" "n \<le> readable b"
  shows "\<exists>b'. retrieve b n = Inr b' \<and> nb_inv b' \<and> nb_bytes b' = drop (nat n) (nb_bytes b)
    \<and> b' = b\<lparr>nb_r := nb_r b + n\<rparr>"
proof -
  let ?b = "b\<lparr>nb_r := nb_r b + n\<rparr>"
  note cells = nb_cells_advance [OF assms]
  have "nb_inv ?b"
    using assms cells by (auto simp: nb_inv_def nb_wf_def readable_def dest: in_set_dropD)
  with assms(3) cells show ?thesis by (simp add: retrieve_def nb_bytes_def drop_map)
qed

lemma retrieve_too_much: "readable b < n \<Longrightarrow> retrieve b n = Inl Assert_failed"
  by (simp add: retrieve_def)

lemma read_bytes_ok:
  assumes "nb_inv b" "0 \<le> n" "n \<le> readable b"
  shows "read_bytes b n = Inr (take (nat n) (nb_bytes b))"
proof -
  note inv = nb_invD [OF assms(1)]
  have le: "nat n \<le> nat (nb_w b - nb_r b)" using assms by (simp add: readable_def)
  then have cs: "take (nat n) (drop (nat (nb_r b)) (nb_buf b)) = take (nat n) (nb_cells b)"
    by (simp add: nb_cells_def min.absorb1)
  have "None \<notin> set (take (nat n) (nb_cells b))"
    using inv(6) by (auto dest: in_set_takeD)
  moreover have "\<not> nat (nb_r b) + nat n > length (nb_buf b)"
    using inv le by auto
  ultimately show ?thesis
    using assms inv cs by (simp add: read_bytes_def Let_def nb_bytes_def take_map)
qed

lemma retrieveAsString_ok:
  assumes "nb_inv b" "0 \<le> n" "n \<le> readable b"
  shows "\<exists>b'. retrieveAsString b n = Inr (take (nat n) (nb_bytes b), b') \<and> nb_inv b'
    \<and> nb_bytes b' = drop (nat n) (nb_bytes b)"
proof -
  have "to_size_t (readable b) = readable b" and "to_int n = n"
    using readable_bounds [OF assms(1)] assms by (auto simp: cint_simps fits_int_nonneg)
  with read_bytes_ok [OF assms] retrieve_ok [OF assms] assms show ?thesis
    by (auto simp: retrieveAsString_def)
qed

lemma retrieveAll_inv:
  assumes "nb_inv b"
  shows "nb_inv (retrieveAll b)" and "nb_bytes (retrieveAll b) = []"
  using assms by (auto simp: nb_inv_def nb_wf_def retrieveAll_def nb_cells_def nb_bytes_def)

lemma reset_nb_inv:
  assumes "nb_inv b"
  shows "nb_inv (reset_nb b)" and "nb_bytes (reset_nb b) = []"
  using assms by (auto simp: nb_inv_def nb_wf_def reset_nb_def nb_cells_def nb_bytes_def)

section \<open>Integers in the buffer\<close>

lemma length_bytes_of_int [simp]: "length (bytes_of_int x) = 4"
  by (simp add: bytes_of_int_def)

lemma mod_256_split:
  fixes y m :: int
  assumes "0 \<le> m"
  shows "y mod (256 * m) = y mod 256 + 256 * ((y div 256) mod m)"
  using assms by (simp add: zmod_zmult2_eq)

lemma bytes_of_int_value:
  "foldr (\<lambda>c acc. int (of_char c) + 256 * acc) (bytes_of_int x) 0 = x mod 2 ^ 32"
proof -
  have upt: "[0..<4] = [0, 1, 2, 3::nat]" by (simp add: upt_rec)
  have byte: "int (of_char (char_of (nat (y mod 256)) :: char)) = y mod 256" for y :: int
    by simp
  have d2: "x div 256 div 256 = x div 65536" and d3: "x div 65536 div 256 = x div 16777216"
    using zdiv_zmult2_eq [of 256 x 256] zdiv_zmult2_eq [of 256 x 65536] by simp_all
  have "x mod 2 ^ 32 = x mod (256 * 16777216)" by simp
  also have "\<dots> = x mod 256 + 256 * ((x div 256) mod 16777216)"
    by (rule mod_256_split) simp
  also have "(x div 256) mod 16777216 = (x div 256) mod (256 * 65536)" by simp
  also have "\<dots> = x div 256 mod 256 + 256 * ((x div 256 div 256) mod 65536)"
    by (rule mod_256_split) simp
  also have "(x div 256 div 256) mod 65536 = (x div 256 div 256) mod (256 * 256)" by simp
  also have "\<dots> = x div 256 div 256 mod 256 + 256 * ((x div 256 div 256 div 256) mod 256)"
    by (rule mod_256_split) simp
  finally have "x mod 2 ^ 32 = x mod 256 + 256 * (x div 256 mod 256 + 256 * (x div 65536 mod 256
      + 256 * (x div 16777216 mod 256)))"
    by (simp only: d2 d3)
  moreover have "(256::int) ^ 0 = 1" "(256::int) ^ 1 = 256" "(256::int) ^ 2 = 65536"
    "(256::int) ^ 3 = 16777216" by simp_all
  ultimately show ?thesis
    by (simp only: bytes_of_int_def upt list.map foldr.simps comp_def id_def byte div_by_1
        mult_zero_right add_0_right)
qed

lemma int_of_bytes_of_int:
  assumes "fits_int x"
  shows "int_of_bytes (bytes_of_int x) = x"
proof -
  have "to_int (x mod 2 ^ 32) = to_int x"
    by (simp add: to_int_def mod_add_left_eq)
  with assms show ?thesis by (simp only: int_of_bytes_def bytes_of_int_value to_int_id)
qed
section \<open>What readFd needs of the kernel\<close>

text \<open>The documented behaviour of \<open>read\<close> on one descriptor, for a positive count:
  it stores at most that many bytes, the next ones of the stream; a zero return means the
  stream has ended; a failing call takes nothing; signals interrupt only finitely often.\<close>

definition read_contract ::
  "'k sys_read \<Rightarrow> int \<Rightarrow> ('k \<Rightarrow> char list) \<Rightarrow> ('k \<Rightarrow> bool) \<Rightarrow> ('k \<Rightarrow> nat) \<Rightarrow> bool" where
  "read_contract rd fd stream ended intr \<longleftrightarrow>
     (\<forall>k n. 0 < n \<longrightarrow> (case rd k fd n of
        (Ret bs, k') \<Rightarrow> int (length bs) \<le> n \<and> stream k = bs @ stream k' \<and> intr k' \<le> intr k
                        \<and> (bs = [] \<longrightarrow> ended k')
      | (Fail e, k') \<Rightarrow> stream k' = stream k \<and> intr k' \<le> intr k
                        \<and> (e = EINTR \<longrightarrow> intr k' < intr k)))"

lemma read_contract_Ret:
  assumes "read_contract rd fd stream ended intr" "0 < n" "rd k fd n = (Ret bs, k')"
  shows "int (length bs) \<le> n" "stream k = bs @ stream k'" "intr k' \<le> intr k"
    "bs = [] \<Longrightarrow> ended k'"
  using assms unfolding read_contract_def by (auto dest!: spec [of _ k] spec [of _ n])

lemma read_contract_Fail:
  assumes "read_contract rd fd stream ended intr" "0 < n" "rd k fd n = (Fail e, k')"
  shows "stream k' = stream k" "intr k' \<le> intr k" "e = EINTR \<Longrightarrow> intr k' < intr k"
  using assms unfolding read_contract_def by (auto dest!: spec [of _ k] spec [of _ n])

lemma kernel_store_ok:
  assumes "nb_inv b" "int (length bs) \<le> writeable b"
  shows "\<exists>b'. kernel_store b bs = Inr b' \<and> nb_wf b' \<and> nb_bytes b' = nb_bytes b @ bs
    \<and> nb_alloc b' = nb_alloc b"
proof -
  note inv = nb_invD [OF assms(1)]
  let ?w = "nat (nb_w b)" and ?r = "nat (nb_r b)" and ?n = "nat (nb_w b - nb_r b)"
  let ?buf = "take ?w (nb_buf b) @ map Some bs @ drop (?w + length bs) (nb_buf b)"
  let ?b = "b\<lparr>nb_buf := ?buf, nb_w := nb_w b + int (length bs)\<rparr>"
  have fit: "?w + length bs \<le> length (nb_buf b)"
    using inv assms(2) by (simp add: writeable_def)
  have n: "nat (nb_w b + int (length bs) - nb_r b) = ?n + length bs" and w: "?w = ?r + ?n"
    using inv by auto
  have "take (?n + length bs) (drop ?r ?buf) = take ?n (drop ?r (nb_buf b)) @ map Some bs"
    using fit w by (simp add: drop_take)
  then have cells: "nb_cells ?b = nb_cells b @ map Some bs"
    by (simp add: nb_cells_def n)
  have "length ?buf = length (nb_buf b)" using fit by simp
  with inv cells assms(2) have "nb_wf ?b"
    by (auto simp: nb_wf_def writeable_def)
  with fit inv cells show ?thesis
    by (simp add: kernel_store_def nb_bytes_def)
qed

lemma readFd_grow_ok:
  assumes "nb_wf b" "readable b + 4096 < 2 ^ 30"
  shows "\<exists>b'. readFd_grow b = Inr b' \<and> nb_inv b' \<and> nb_bytes b' = nb_bytes b"
proof (cases "5 * writeable b \<le> nb_alloc b")
  case True
  with checkCapcity_ok [of b 4096] assms show ?thesis by (auto simp: readFd_grow_def)
next
  case False
  with nb_wfD [OF assms(1)] have "nb_w b < nb_alloc b" by (simp add: writeable_def)
  with False assms(1) show ?thesis by (simp add: readFd_grow_def nb_inv_def)
qed

lemma readFd_chunk_ok:
  assumes "nb_inv b" "int (length bs) \<le> writeable b"
    "readable b + int (length bs) + 4096 < 2 ^ 30"
  shows "\<exists>b'. bind_res (kernel_store b bs) readFd_grow = Inr b' \<and> nb_inv b'
    \<and> nb_bytes b' = nb_bytes b @ bs \<and> readable b' = readable b + int (length bs)"
proof -
  obtain b1 where b1: "kernel_store b bs = Inr b1" "nb_wf b1" "nb_bytes b1 = nb_bytes b @ bs"
    using kernel_store_ok [OF assms(1,2)] by auto
  note len = length_nb_bytes [OF nb_inv_wf [OF assms(1)]] length_nb_bytes [OF b1(2)]
  obtain b2 where b2: "readFd_grow b1 = Inr b2" "nb_inv b2" "nb_bytes b2 = nb_bytes b @ bs"
    using readFd_grow_ok [OF b1(2)] len assms(3) b1(3) by auto
  with b1 len length_nb_bytes [OF nb_inv_wf [OF b2(2)]] show ?thesis by simp
qed

text \<open>A sequence of calls of \<open>read\<close> with positive counts and what each returned; which results make
  \<open>readFd\<close> call again, and the bytes a result brought.\<close>

inductive read_calls :: "'k sys_read \<Rightarrow> int \<Rightarrow> 'k \<Rightarrow> sysret list \<Rightarrow> 'k \<Rightarrow> bool" for rd fd where
  no_call: "read_calls rd fd k [] k"
| one_call: "0 < n \<Longrightarrow> rd k fd n = (r, k') \<Longrightarrow> read_calls rd fd k' rs k'' \<Longrightarrow> read_calls rd fd k (r # rs) k''"

definition reads_again :: "sysret \<Rightarrow> bool" where
  "reads_again r = (case r of Ret bs \<Rightarrow> bs \<noteq> [] | Fail e \<Rightarrow> e = EINTR)"

definition sys_bytes :: "sysret \<Rightarrow> char list" where
  "sys_bytes r = (case r of Ret bs \<Rightarrow> bs | Fail e \<Rightarrow> [])"

text \<open>What \<open>readFd\<close> reports after its last call returned \<open>r\<close>, when \<open>got\<close> bytes have come.\<close>

definition read_report :: "sysret \<Rightarrow> int \<Rightarrow> int \<times> bool \<times> errno option" where
  "read_report r got = (case r of Ret bs \<Rightarrow> (0, True, None)
     | Fail e \<Rightarrow> if e = EAGAIN \<or> e = EWOULDBLOCK then (got, False, None) else (-1, False, Some e))"

lemma readFd_loop_calls:
  assumes "read_contract rd fd stream ended intr" "off \<le> 0" "nb_inv b"
    "readable b + int (length (stream k)) + 4096 < 2 ^ 30" "0 \<le> allSize"
  shows "\<exists>out rs r. readFd_loop rd prd fd off k gs allSize b = Some (Inr out) \<and> nb_inv (rf_buf out)
    \<and> read_calls rd fd k (rs @ [r]) (rf_kernel out) \<and> list_all reads_again rs \<and> \<not> reads_again r
    \<and> nb_bytes (rf_buf out) = nb_bytes b @ concat (map sys_bytes rs)
    \<and> stream k = concat (map sys_bytes rs) @ stream (rf_kernel out)
    \<and> (rf_ret out, rf_closed out, rf_savedErrno out)
      = read_report r (allSize + int (length (concat (map sys_bytes rs))))
    \<and> (ended (rf_kernel out) \<or> \<not> rf_closed out)"
  using assms(3-)
proof (induction "length (stream k) + intr k" arbitrary: k gs allSize b rule: less_induct)
  case less
  note C = assms(1)
  have n: "0 < writeable b" by (rule writeable_pos [OF less.prems(1)])
  obtain r k' where call: "rd k fd (writeable b) = (r, k')" by fastforce
  have one: "read_calls rd fd k' rs k'' \<Longrightarrow> read_calls rd fd k (r # rs) k''" for rs k''
    using n call by (rule one_call)
  have last: "read_calls rd fd k ([] @ [r]) k'" using one [of "[]" k'] no_call [of rd fd k'] by simp
  show ?case
  proof (cases r)
    case (Fail e)
    note F = read_contract_Fail [OF C n call [unfolded Fail]]
    show ?thesis
    proof (cases "e = EINTR")
      case True
      have "length (stream k') + intr k' < length (stream k) + intr k" using F True by simp
      from less.hyps [OF this less.prems(1), of allSize "- 1"] less.prems F(1) obtain out rs l where
        I: "readFd_loop rd prd fd off k' (- 1) allSize b = Some (Inr out)" "nb_inv (rf_buf out)"
        "read_calls rd fd k' (rs @ [l]) (rf_kernel out)" "list_all reads_again rs" "\<not> reads_again l"
        "nb_bytes (rf_buf out) = nb_bytes b @ concat (map sys_bytes rs)"
        "stream k' = concat (map sys_bytes rs) @ stream (rf_kernel out)"
        "(rf_ret out, rf_closed out, rf_savedErrno out) = read_report l (allSize + int (length (concat (map sys_bytes rs))))"
        "ended (rf_kernel out) \<or> \<not> rf_closed out" by auto
      have "readFd_loop rd prd fd off k gs allSize b = readFd_loop rd prd fd off k' (- 1) allSize b"
        using call Fail True assms(2) by (subst readFd_loop.simps) simp
      with I one [OF I(3)] Fail True F(1) show ?thesis
        by (intro exI [of _ out] exI [of _ "r # rs"] exI [of _ l]) (simp add: sys_bytes_def reads_again_def)
    next
      case False
      with call Fail assms(2) less.prems F(1) last show ?thesis
        by (subst readFd_loop.simps) (auto intro!: exI [of _ "[] :: sysret list"] exI [of _ r] simp: reads_again_def read_report_def)
    qed
  next
    case (Ret bs)
    note R = read_contract_Ret [OF C n call [unfolded Ret]]
    show ?thesis
    proof (cases "bs = []")
      case True
      with call Ret assms(2) less.prems R last show ?thesis
        by (subst readFd_loop.simps) (auto intro!: exI [of _ "[] :: sysret list"] exI [of _ r] simp: reads_again_def read_report_def)
    next
      case False
      obtain b2 where b2: "bind_res (kernel_store b bs) readFd_grow = Inr b2" "nb_inv b2"
        "nb_bytes b2 = nb_bytes b @ bs" "readable b2 = readable b + int (length bs)"
        using readFd_chunk_ok [OF less.prems(1) R(1)] less.prems(2) R(2) by auto
      have "length (stream k') + intr k' < length (stream k) + intr k"
        using R False by (simp add: add_less_le_mono)
      from less.hyps [OF this b2(2), of "allSize + int (length bs)" "int (length bs)"]
      obtain out rs l where
        I: "readFd_loop rd prd fd off k' (int (length bs)) (allSize + int (length bs)) b2 = Some (Inr out)"
        "nb_inv (rf_buf out)" "read_calls rd fd k' (rs @ [l]) (rf_kernel out)" "list_all reads_again rs"
        "\<not> reads_again l" "nb_bytes (rf_buf out) = nb_bytes b2 @ concat (map sys_bytes rs)"
        "stream k' = concat (map sys_bytes rs) @ stream (rf_kernel out)"
        "(rf_ret out, rf_closed out, rf_savedErrno out)
          = read_report l (allSize + int (length bs) + int (length (concat (map sys_bytes rs))))"
        "ended (rf_kernel out) \<or> \<not> rf_closed out"
        using less.prems b2(4) R(2) by auto
      have "readFd_loop rd prd fd off k gs allSize b
          = readFd_loop rd prd fd off k' (int (length bs)) (allSize + int (length bs)) b2"
        using call Ret False assms(2) b2(1) by (subst readFd_loop.simps) simp
      with I one [OF I(3)] Ret False R(2) b2(3) show ?thesis
        by (intro exI [of _ out] exI [of _ "r # rs"] exI [of _ l]) (simp add: sys_bytes_def reads_again_def ac_simps)
    qed
  qed
qed

lemma readFd_loop_ok:
  assumes "read_contract rd fd stream ended intr" "off \<le> 0" "nb_inv b"
    "readable b + int (length (stream k)) + 4096 < 2 ^ 30" "0 \<le> allSize"
  shows "\<exists>out bs. readFd_loop rd prd fd off k gs allSize b = Some (Inr out) \<and> nb_inv (rf_buf out)
    \<and> nb_bytes (rf_buf out) = nb_bytes b @ bs \<and> stream k = bs @ stream (rf_kernel out)
    \<and> (rf_closed out \<longrightarrow> ended (rf_kernel out))
    \<and> rf_ret out = (if rf_closed out then 0 else if rf_savedErrno out = None
                     then allSize + int (length bs) else - 1)"
proof -
  obtain out rs r where "readFd_loop rd prd fd off k gs allSize b = Some (Inr out)" "nb_inv (rf_buf out)"
    "nb_bytes (rf_buf out) = nb_bytes b @ concat (map sys_bytes rs)"
    "stream k = concat (map sys_bytes rs) @ stream (rf_kernel out)"
    "(rf_ret out, rf_closed out, rf_savedErrno out) = read_report r (allSize + int (length (concat (map sys_bytes rs))))"
    "ended (rf_kernel out) \<or> \<not> rf_closed out"
    using readFd_loop_calls [OF assms, of prd gs] by blast
  then show ?thesis
    by (intro exI [of _ out] exI [of _ "concat (map sys_bytes rs)"])
      (auto simp: read_report_def split: sysret.splits if_splits)
qed

section \<open>The buffer as a byte queue\<close>

text \<open>The interface the connection code uses: bytes go in at one end and leave at the other.\<close>

datatype queue_op = Put "char list" | Take nat

fun queue_spec :: "char list \<Rightarrow> queue_op list \<Rightarrow> char list option" where
  "queue_spec q [] = Some q"
| "queue_spec q (Put bs # ops) = queue_spec (q @ bs) ops"
| "queue_spec q (Take n # ops) = (if n \<le> length q then queue_spec (drop n q) ops else None)"

fun queue_put_size :: "queue_op list \<Rightarrow> nat" where
  "queue_put_size [] = 0"
| "queue_put_size (Put bs # ops) = length bs + queue_put_size ops"
| "queue_put_size (Take n # ops) = queue_put_size ops"

fun queue_run ::
  "('b \<Rightarrow> char list \<Rightarrow> 'b result) \<Rightarrow> ('b \<Rightarrow> int \<Rightarrow> 'b result) \<Rightarrow> 'b \<Rightarrow> queue_op list \<Rightarrow> 'b result" where
  "queue_run put get b [] = Inr b"
| "queue_run put get b (Put bs # ops) = bind_res (put b bs) (\<lambda>b'. queue_run put get b' ops)"
| "queue_run put get b (Take n # ops) = bind_res (get b (int n)) (\<lambda>b'. queue_run put get b' ops)"

locale byte_queue =
  fixes inv :: "'b \<Rightarrow> bool"
    and bytes :: "'b \<Rightarrow> char list"
    and put :: "'b \<Rightarrow> char list \<Rightarrow> 'b result"
    and get :: "'b \<Rightarrow> int \<Rightarrow> 'b result"
    and clear :: "'b \<Rightarrow> 'b"
    and limit :: int
  assumes put_ok: "inv b \<Longrightarrow> int (length (bytes b)) + int (length bs) < limit
      \<Longrightarrow> \<exists>b'. put b bs = Inr b' \<and> inv b' \<and> bytes b' = bytes b @ bs"
    and get_ok: "inv b \<Longrightarrow> n \<le> length (bytes b)
      \<Longrightarrow> \<exists>b'. get b (int n) = Inr b' \<and> inv b' \<and> bytes b' = drop n (bytes b)"
    and get_short: "inv b \<Longrightarrow> length (bytes b) < n \<Longrightarrow> get b (int n) = Inl Assert_failed"
    and clear_ok: "inv b \<Longrightarrow> inv (clear b) \<and> bytes (clear b) = []"
begin

lemma run_refines:
  assumes "inv b" "int (length (bytes b)) + int (queue_put_size ops) < limit"
  shows "case queue_spec (bytes b) ops of
      Some q \<Rightarrow> \<exists>b'. queue_run put get b ops = Inr b' \<and> inv b' \<and> bytes b' = q
    | None \<Rightarrow> queue_run put get b ops = Inl Assert_failed"
  using assms
proof (induction ops arbitrary: b)
  case Nil
  then show ?case by simp
next
  case (Cons x ops)
  show ?case
  proof (cases x)
    case (Put bs)
    with Cons.prems put_ok [of b bs] obtain b' where
      "put b bs = Inr b'" "inv b'" "bytes b' = bytes b @ bs" by auto
    with Put Cons.IH [of b'] Cons.prems(2) show ?thesis by (simp split: option.splits)
  next
    case (Take n)
    show ?thesis
    proof (cases "n \<le> length (bytes b)")
      case True
      with Cons.prems get_ok [of b n] obtain b' where
        "get b (int n) = Inr b'" "inv b'" "bytes b' = drop n (bytes b)" by auto
      with Take True Cons.IH [of b'] Cons.prems(2) show ?thesis by (simp split: option.splits)
    next
      case False
      with Take Cons.prems get_short [of b n] show ?thesis by simp
    qed
  qed
qed

end

interpretation nbq: byte_queue nb_inv nb_bytes append_nb retrieve retrieveAll "2 ^ 30"
proof unfold_locales
  fix b and bs :: "char list"
  assume "nb_inv b" "int (length (nb_bytes b)) + int (length bs) < 2 ^ 30"
  then show "\<exists>b'. append_nb b bs = Inr b' \<and> nb_inv b' \<and> nb_bytes b' = nb_bytes b @ bs"
    by (intro append_nb_ok) (simp_all add: length_nb_bytes nb_inv_wf)
next
  fix b n
  assume b: "nb_inv b" and "n \<le> length (nb_bytes b)"
  then have "int n \<le> readable b" by (simp flip: length_nb_bytes [OF nb_inv_wf])
  with retrieve_ok [OF b, of "int n"]
  show "\<exists>b'. retrieve b (int n) = Inr b' \<and> nb_inv b' \<and> nb_bytes b' = drop n (nb_bytes b)" by auto
next
  fix b n
  assume "nb_inv b" "length (nb_bytes b) < n"
  then show "retrieve b (int n) = Inl Assert_failed"
    by (intro retrieve_too_much) (simp flip: length_nb_bytes [OF nb_inv_wf])
qed (simp_all add: retrieveAll_inv)

section \<open>Every operation of the class\<close>

datatype nb_op = Append "char list" | Retrieve nat | AsString nat | ReadInt | All | AllAsString | Reset | Reserve nat

fun nb_do :: "nb_op \<Rightarrow> netBuffer \<Rightarrow> netBuffer result" where
  "nb_do (Append bs) b = append_nb b bs"
| "nb_do (Retrieve n) b = retrieve b (int n)"
| "nb_do (AsString n) b = bind_res (retrieveAsString b (int n)) (\<lambda>r. Inr (snd r))"
| "nb_do ReadInt b = bind_res (readInt b) (\<lambda>r. Inr (snd r))"
| "nb_do All b = Inr (retrieveAll b)"
| "nb_do AllAsString b = bind_res (retrieveAllAsString b) (\<lambda>r. Inr (snd r))"
| "nb_do Reset b = Inr (reset_nb b)"
| "nb_do (Reserve n) b = checkCapcity b (int n)"

fun nb_run :: "nb_op list \<Rightarrow> netBuffer \<Rightarrow> netBuffer result" where
  "nb_run [] b = Inr b"
| "nb_run (x # xs) b = bind_res (nb_do x b) (nb_run xs)"

text \<open>What the operations may add to the buffer or ask it to hold.\<close>

fun nb_demand :: "nb_op list \<Rightarrow> nat" where
  "nb_demand [] = 0"
| "nb_demand (Append bs # xs) = length bs + nb_demand xs"
| "nb_demand (Reserve n # xs) = n + nb_demand xs"
| "nb_demand (x # xs) = nb_demand xs"

lemma readInt_ok:
  assumes "nb_inv b"
  shows "if 4 \<le> readable b then \<exists>i b'. readInt b = Inr (i, b') \<and> nb_inv b' \<and> nb_bytes b' = drop 4 (nb_bytes b)
    else readInt b = Inl Assert_failed"
proof -
  have "to_size_t (readable b) = readable b" using readable_bounds [OF assms] by (auto simp: cint_simps)
  with read_bytes_ok [OF assms, of 4] retrieve_ok [OF assms, of 4] show ?thesis
    by (auto simp: readInt_def peekInt_def)
qed

lemma nb_do_ok:
  assumes "nb_inv b" "readable b + int (nb_demand [x]) < 2 ^ 30"
  shows "case nb_do x b of Inr b' \<Rightarrow> nb_inv b' \<and> readable b' \<le> readable b + int (nb_demand [x]) | Inl e \<Rightarrow> e = Assert_failed"
proof -
  have len: "\<And>b. nb_inv b \<Longrightarrow> readable b = int (length (nb_bytes b))" using length_nb_bytes [OF nb_inv_wf] by simp
  have sz: "to_size_t (readable b) = readable b" using readable_bounds [OF assms(1)] by (auto simp: cint_simps)
  show ?thesis
  proof (cases x)
    case (Append bs)
    with append_nb_ok [OF assms(1), of bs] assms len show ?thesis by auto
  next
    case (Retrieve n)
    with retrieve_ok [OF assms(1), of "int n"] retrieve_too_much [of b "int n"] assms(1) len show ?thesis
      by (cases "int n \<le> readable b") auto
  next
    case (AsString n)
    with retrieveAsString_ok [OF assms(1), of "int n"] assms(1) len sz show ?thesis
      by (cases "int n \<le> readable b") (auto simp: retrieveAsString_def)
  next
    case ReadInt
    with readInt_ok [OF assms(1)] assms(1) len show ?thesis by (auto split: if_splits)
  next
    case AllAsString
    with retrieveAsString_ok [OF assms(1), of "readable b"] assms(1) len sz show ?thesis by (auto simp: retrieveAllAsString_def)
  next
    case (Reserve n)
    with checkCapcity_ok [OF nb_inv_wf [OF assms(1)], of "int n"] assms len show ?thesis by auto
  qed (use assms(1) len retrieveAll_inv reset_nb_inv in auto)
qed

lemma nb_run_ok:
  assumes "nb_inv b" "readable b + int (nb_demand xs) < 2 ^ 30"
  shows "case nb_run xs b of Inr b' \<Rightarrow> nb_inv b' | Inl e \<Rightarrow> e = Assert_failed"
  using assms
proof (induction xs arbitrary: b)
  case (Cons x xs)
  have d: "nb_demand (x # xs) = nb_demand [x] + nb_demand xs" by (cases x) simp_all
  with nb_do_ok [of b x] Cons.prems Cons.IH show ?case by (cases "nb_do x b") auto
qed simp

section \<open>Properties\<close>

text \<open>C14: netBuffer implements a FIFO byte queue. For every sequence of appends and retrieves
  that keeps below 1 GiB, the C++ operations succeed exactly when the abstract queue has the
  bytes asked for, keep the buffer's invariant, and leave exactly the bytes of the queue; a
  retrieve of more than is readable trips the assertion.\<close>

theorem netBuffer_refines_queue:
  assumes "nb_inv b" "int (length (nb_bytes b)) + int (queue_put_size ops) < 2 ^ 30"
  shows "case queue_spec (nb_bytes b) ops of
      Some q \<Rightarrow> \<exists>b'. queue_run append_nb retrieve b ops = Inr b' \<and> nb_inv b' \<and> nb_bytes b' = q
    | None \<Rightarrow> queue_run append_nb retrieve b ops = Inl Assert_failed"
  using assms by (rule nbq.run_refines)

theorem netBuffer_refines_queue_witness:
  "\<exists>b'. queue_run append_nb retrieve (new_netBuffer 4096) [Put ''GET '', Take 2, Put ''/''] = Inr b'
    \<and> nb_inv b' \<and> nb_bytes b' = ''T /''"
proof -
  have "nb_inv (new_netBuffer 4096)" "nb_bytes (new_netBuffer 4096) = []"
    using new_netBuffer_inv [of 4096] by (simp_all add: INT_MAX_def)
  with netBuffer_refines_queue [of "new_netBuffer 4096" "[Put ''GET '', Take 2, Put ''/'']"]
  show ?thesis by simp
qed

text \<open>Making room never loses or reorders a byte. \<open>checkCapcity\<close> returns a buffer with the
  same readable bytes, the invariant intact and strictly more than the requested room, whether
  it moved the data to the left, doubled the allocation, or did both.\<close>

theorem checkCapcity_makes_room:
  assumes "nb_wf b" "0 \<le> len" "readable b + len < 2 ^ 30"
  shows "\<exists>b'. checkCapcity b len = Inr b' \<and> nb_inv b' \<and> nb_bytes b' = nb_bytes b
    \<and> len < writeable b'"
  using assms by (rule checkCapcity_ok)

theorem checkCapcity_makes_room_witness:
  "\<exists>b'. checkCapcity (new_netBuffer 4096) 5000 = Inr b' \<and> nb_inv b'
    \<and> nb_bytes b' = nb_bytes (new_netBuffer 4096) \<and> 5000 < writeable b'"
proof -
  have "nb_wf (new_netBuffer 4096)"
    using new_netBuffer_inv [of 4096] by (simp add: INT_MAX_def nb_inv_def)
  then show ?thesis
    using checkCapcity_makes_room [of "new_netBuffer 4096" 5000]
    by (simp add: readable_def new_netBuffer_def)
qed

text \<open>An \<open>int\<close> written with \<open>append\<close> comes back from \<open>readInt\<close>. On an empty buffer,
  appending the four bytes of any 32-bit value and reading an int returns that value and leaves
  the buffer empty again.\<close>

theorem readInt_append_roundtrip:
  assumes "nb_inv b" "nb_bytes b = []" "fits_int x"
  shows "\<exists>b'. bind_res (append_nb b (bytes_of_int x)) readInt = Inr (x, b')
    \<and> nb_inv b' \<and> nb_bytes b' = []"
proof -
  obtain b1 where b1: "append_nb b (bytes_of_int x) = Inr b1" "nb_inv b1"
    "nb_bytes b1 = bytes_of_int x"
    using nbq.put_ok [of b "bytes_of_int x"] assms by auto
  then have rd: "readable b1 = 4" using length_nb_bytes [OF nb_inv_wf, of b1] by simp
  obtain b2 where "retrieve b1 4 = Inr b2" "nb_inv b2" "nb_bytes b2 = []"
    using retrieve_ok [of b1 4] b1 rd by auto
  moreover have "peekInt b1 = Inr x"
    using read_bytes_ok [of b1 4] b1 rd int_of_bytes_of_int [OF assms(3)]
    by (simp add: peekInt_def to_size_t_def)
  ultimately show ?thesis using b1(1) by (simp add: readInt_def)
qed

theorem readInt_append_roundtrip_witness:
  "\<exists>b'. bind_res (append_nb (new_netBuffer 4096) (bytes_of_int (- 65))) readInt = Inr (- 65, b')
    \<and> nb_inv b' \<and> nb_bytes b' = []"
  using readInt_append_roundtrip [of "new_netBuffer 4096" "- 65"] new_netBuffer_inv [of 4096]
  by (simp add: INT_MAX_def INT_MIN_def fits_int_def)

text \<open>Taking a string out of the buffer. For every length up to \<open>readable()\<close>,
  \<open>retrieveAsString\<close> returns exactly the first bytes, initialised and in order, and leaves the
  rest.\<close>

theorem retrieveAsString_prefix:
  assumes "nb_inv b" "0 \<le> n" "n \<le> readable b"
  shows "\<exists>b'. retrieveAsString b n = Inr (take (nat n) (nb_bytes b), b') \<and> nb_inv b'
    \<and> nb_bytes b' = drop (nat n) (nb_bytes b)"
  using assms by (rule retrieveAsString_ok)

theorem retrieveAsString_prefix_witness:
  "\<exists>b'. retrieveAsString \<lparr>nb_buf = [None, Some CHR ''E'', Some CHR ''T'', Some CHR '' '', None],
      nb_r = 1, nb_w = 4, nb_alloc = 5\<rparr> 2 = Inr (''ET'', b') \<and> nb_inv b' \<and> nb_bytes b' = '' ''"
  using retrieveAsString_prefix [of "\<lparr>nb_buf = [None, Some CHR ''E'', Some CHR ''T'', Some CHR '' '', None],
      nb_r = 1, nb_w = 4, nb_alloc = 5\<rparr>" 2]
  by (simp add: nb_inv_def nb_wf_def nb_cells_def nb_bytes_def readable_def INT_MAX_def)

text \<open>C15: \<open>readFd\<close> on a socket reads until there is nothing more to read.  For a kernel that behaves as \<open>read(2)\<close>
  documents, whose signals are finitely many, and from any valid buffer, it returns after a sequence of \<open>read\<close> calls in which
  every call but the last brought bytes or was interrupted, and the last one did neither: it found the end of the
  stream, would have blocked, or failed.  The bytes of all these calls, in order, are appended to the buffer, and together with
  what is still in the socket they are what was there before.  At the end of the stream \<open>writeClosed\<close> is set and 0 is
  returned; when the call would have blocked the number of bytes read is returned; after any other error -1 is
  returned and \<open>savedErrno\<close> is the \<open>errno\<close> of that call.  The buffered and waiting bytes are assumed to stay below 1 GiB.\<close>

theorem readFd_conserves_stream:
  assumes "read_contract rd fd stream ended intr" "nb_inv b"
    "readable b + int (length (stream k)) + 4096 < 2 ^ 30"
  shows "\<exists>out rs r. readFd rd prd fd 0 k b = Some (Inr out) \<and> nb_inv (rf_buf out)
    \<and> read_calls rd fd k (rs @ [r]) (rf_kernel out) \<and> list_all reads_again rs \<and> \<not> reads_again r
    \<and> nb_bytes (rf_buf out) = nb_bytes b @ concat (map sys_bytes rs)
    \<and> stream k = concat (map sys_bytes rs) @ stream (rf_kernel out)
    \<and> (rf_ret out, rf_closed out, rf_savedErrno out) = read_report r (int (length (concat (map sys_bytes rs))))
    \<and> (ended (rf_kernel out) \<or> \<not> rf_closed out)"
  using readFd_loop_calls [OF assms(1) order_refl assms(2,3) order_refl, of prd 0]
  by (simp only: readFd_def add_0_left)

text \<open>A concrete socket for the witness: the results of the next calls; a call may ask for less than it offers.\<close>

fun demo_read :: "sysret list sys_read" where
  "demo_read [] fd n = (Fail EAGAIN, [])"
| "demo_read (Fail e # k) fd n = (Fail e, k)"
| "demo_read (Ret bs # k) fd n = (if length bs \<le> nat n then (Ret bs, k) else (Ret (take (nat n) bs), Ret (drop (nat n) bs) # k))"

lemma demo_read_contract:
  "read_contract demo_read fd (\<lambda>k. concat (map sys_bytes k)) (\<lambda>k. True) length"
proof -
  have "case demo_read k fd n of
      (Ret bs, k') \<Rightarrow> int (length bs) \<le> n \<and> concat (map sys_bytes k) = bs @ concat (map sys_bytes k')
        \<and> length k' \<le> length k \<and> (bs = [] \<longrightarrow> True)
    | (Fail e, k') \<Rightarrow> concat (map sys_bytes k') = concat (map sys_bytes k) \<and> length k' \<le> length k
        \<and> (e = EINTR \<longrightarrow> length k' < length k)" if "0 < n" for k n
    using that by (cases "(k, fd, n)" rule: demo_read.cases) (auto simp: sys_bytes_def)
  then show ?thesis by (simp add: read_contract_def)
qed

theorem readFd_conserves_stream_witness:
  "\<exists>out rs r. readFd demo_read (\<lambda>k fd n off. (Ret [], k)) 7 0 [Fail EINTR, Ret ''GET'', Fail EINTR, Ret '' /'', Fail EBADF]
      (new_netBuffer 4096) = Some (Inr out)
    \<and> read_calls demo_read 7 [Fail EINTR, Ret ''GET'', Fail EINTR, Ret '' /'', Fail EBADF] (rs @ [r]) (rf_kernel out)
    \<and> list_all reads_again rs \<and> \<not> reads_again r \<and> nb_bytes (rf_buf out) = concat (map sys_bytes rs)"
proof -
  have "nb_inv (new_netBuffer 4096)" "nb_bytes (new_netBuffer 4096) = []" "readable (new_netBuffer 4096) = 0"
    using new_netBuffer_inv [of 4096] by (simp_all add: INT_MAX_def readable_def new_netBuffer_def)
  with readFd_conserves_stream [OF demo_read_contract, of "new_netBuffer 4096"
      "[Fail EINTR, Ret ''GET'', Fail EINTR, Ret '' /'', Fail EBADF]" "\<lambda>k fd n off. (Ret [], k)" 7]
  show ?thesis by (simp add: sys_bytes_def) blast
qed

text \<open>C16: a buffer is well-formed between any two operations.  Starting from a new buffer, whatever sequence of appends,
  retrievals, integer reads, resets and capacity requests is made (with demands below 1 GiB in all), the indices
  stay ordered (\<open>0 \<le> r_ \<le> w_ < alloc_\<close>), the array has \<open>alloc_\<close> cells and every readable cell has been written; no
  operation reads outside the array, overflows an index or fails to return, and the only fault is the assertion against
  retrieving more than is there.\<close>

theorem netBuffer_well_formed:
  assumes "0 < n" "n \<le> INT_MAX" "int (nb_demand xs) < 2 ^ 30"
  shows "case nb_run xs (new_netBuffer n) of Inr b \<Rightarrow> 0 \<le> nb_r b \<and> nb_r b \<le> nb_w b \<and> nb_w b < nb_alloc b \<and> nb_alloc b \<le> INT_MAX
      \<and> length (nb_buf b) = nat (nb_alloc b) \<and> None \<notin> set (nb_cells b)
    | Inl e \<Rightarrow> e = Assert_failed"
proof -
  note new = new_netBuffer_inv [OF assms(1,2)]
  then have "readable (new_netBuffer n) = 0" using length_nb_bytes [OF nb_inv_wf, of "new_netBuffer n"] by simp
  with nb_run_ok [of "new_netBuffer n" xs] new assms(3) show ?thesis
    by (cases "nb_run xs (new_netBuffer n)") (auto simp: nb_inv_def dest: nb_wfD)
qed

theorem netBuffer_well_formed_witness:
  "case nb_run [Append ''abcdef'', ReadInt, AsString 1, Reserve 9000, Reset] (new_netBuffer 4096) of Inr b \<Rightarrow> None \<notin> set (nb_cells b)
    | Inl e \<Rightarrow> e = Assert_failed"
  using netBuffer_well_formed [of 4096 "[Append ''abcdef'', ReadInt, AsString 1, Reserve 9000, Reset]"]
  by (auto simp: INT_MAX_def split: sum.splits)

end
