(* ===== verification/Channel_Epoll.thy ===== *)
theory Channel_Epoll
  imports Adl_Prelude "HOL-Library.Word"
begin

text \<open>
  \<open>src/src/net/Channel.{h,cpp}\<close> and \<open>Epoller.{h,cpp}\<close>.  A channel holds the 32-bit event
  masks at their width; the epoller records the \<open>epoll_ctl\<close> calls it makes, in order, and the
  map from descriptors to channels.  Channel pointers are the keys of a store of channels.
  What the calls do to the kernel's interest list is specified by \<open>ctl_effect\<close>, with the error
  conditions of \<open>epoll_ctl(2)\<close>: adding a registered descriptor (EEXIST), changing or deleting
  one that is not registered (ENOENT).
\<close>

unbundle bit_operations_syntax

section \<open>Channels\<close>

type_synonym events = "32 word"

definition EPOLLIN :: events where "EPOLLIN = 0x001"
definition EPOLLPRI :: events where "EPOLLPRI = 0x002"
definition EPOLLOUT :: events where "EPOLLOUT = 0x004"
definition EPOLLERR :: events where "EPOLLERR = 0x008"
definition EPOLLHUP :: events where "EPOLLHUP = 0x010"
definition EPOLLRDHUP :: events where "EPOLLRDHUP = 0x2000"
definition EPOLLET :: events where "EPOLLET = 0x80000000"

definition kNoneEvent :: events where "kNoneEvent = EPOLLET"
definition kReadEvent :: events where "kReadEvent = EPOLLIN OR EPOLLRDHUP OR EPOLLPRI"
definition kWriteEvent :: events where "kWriteEvent = EPOLLOUT"

datatype status = INIT | LISTEN | DELETED | NOT_LISTEN

record channel =
  ch_fd :: int
  ch_events :: events
  ch_revents :: events
  ch_status :: status
  ch_hasRead :: bool
  ch_hasWrite :: bool
  ch_hasClose :: bool
  ch_hasError :: bool

definition new_Channel :: "int \<Rightarrow> channel" where
  "new_Channel fd = \<lparr>ch_fd = fd, ch_events = kNoneEvent, ch_revents = 0, ch_status = INIT,
     ch_hasRead = False, ch_hasWrite = False, ch_hasClose = False, ch_hasError = False\<rparr>"

definition isWriting :: "channel \<Rightarrow> bool" where
  "isWriting c \<longleftrightarrow> ch_events c AND kWriteEvent \<noteq> 0"

definition isReading :: "channel \<Rightarrow> bool" where
  "isReading c \<longleftrightarrow> ch_events c AND kReadEvent \<noteq> 0"

definition noEvent :: "channel \<Rightarrow> bool" where
  "noEvent c \<longleftrightarrow> ch_events c = kNoneEvent"

text \<open>The assignment of each operation to \<open>events_\<close>, before \<open>update()\<close> is called.\<close>

datatype chan_op = EnableReading | DisableReading | EnableWriting | DisableWriting | DisableAll | Remove

fun set_events :: "chan_op \<Rightarrow> channel \<Rightarrow> channel" where
  "set_events EnableReading c = c\<lparr>ch_events := ch_events c OR kReadEvent\<rparr>"
| "set_events DisableReading c = c\<lparr>ch_events := ch_events c AND NOT kReadEvent\<rparr>"
| "set_events EnableWriting c = c\<lparr>ch_events := ch_events c OR kWriteEvent\<rparr>"
| "set_events DisableWriting c = c\<lparr>ch_events := ch_events c AND NOT kWriteEvent\<rparr>"
| "set_events DisableAll c = c\<lparr>ch_events := kNoneEvent\<rparr>"
| "set_events Remove c = c"

text \<open>\<open>handleEvent\<close>: the callbacks it invokes, in order.\<close>

datatype callback = CloseCallback | ErrorCallback | ReadCallback | WriteCallback

definition handleEvent :: "channel \<Rightarrow> callback list" where
  "handleEvent c =
     (if ch_revents c AND EPOLLHUP \<noteq> 0 \<and> \<not> ch_revents c AND EPOLLIN \<noteq> 0
      then (if ch_hasClose c then [CloseCallback] else []) else []) @
     (if ch_revents c AND EPOLLERR \<noteq> 0
      then (if ch_hasError c then [ErrorCallback] else []) else []) @
     (if ch_revents c AND (EPOLLIN OR EPOLLPRI OR EPOLLRDHUP) \<noteq> 0
      then (if ch_hasRead c then [ReadCallback] else []) else []) @
     (if ch_revents c AND EPOLLOUT \<noteq> 0
      then (if ch_hasWrite c then [WriteCallback] else []) else [])"

section \<open>The epoller\<close>

datatype ctl_op = CTL_ADD | CTL_MOD | CTL_DEL

record ctl =
  ctl_opcode :: ctl_op
  ctl_fd :: int
  ctl_events :: events
  ctl_ptr :: nat

record epoller =
  ep_channels :: "int \<rightharpoonup> nat"
  ep_nevents :: nat
  ep_calls :: "ctl list"

definition new_Epoller :: epoller where
  "new_Epoller = \<lparr>ep_channels = Map.empty, ep_nevents = 16, ep_calls = []\<rparr>"

definition ep_update :: "ctl_op \<Rightarrow> nat \<Rightarrow> channel \<Rightarrow> epoller \<Rightarrow> epoller" where
  "ep_update opc p c ep = ep\<lparr>ep_calls := ep_calls ep @
     [\<lparr>ctl_opcode = opc, ctl_fd = ch_fd c, ctl_events = ch_events c, ctl_ptr = p\<rparr>]\<rparr>"

definition updateChannel :: "nat \<Rightarrow> channel \<Rightarrow> epoller \<Rightarrow> channel \<times> epoller" where
  "updateChannel p c ep =
     (if ch_status c = INIT \<or> ch_status c = DELETED
      then let ep1 = ep_update CTL_ADD p c ep in
           (c\<lparr>ch_status := LISTEN\<rparr>, ep1\<lparr>ep_channels := (ep_channels ep1)(ch_fd c \<mapsto> p)\<rparr>)
      else if ch_status c = LISTEN
      then (if noEvent c
            then (c\<lparr>ch_status := NOT_LISTEN\<rparr>, ep_update CTL_DEL p c ep)
            else (c, ep_update CTL_MOD p c ep))
      else if \<not> noEvent c
      then (c\<lparr>ch_status := LISTEN\<rparr>, ep_update CTL_ADD p c ep)
      else (c, ep))"

definition removeChannel :: "nat \<Rightarrow> channel \<Rightarrow> epoller \<Rightarrow> channel \<times> epoller" where
  "removeChannel p c ep =
     (let ep1 = ep\<lparr>ep_channels := (ep_channels ep)(ch_fd c := None)\<rparr>;
          ep2 = (if ch_status c = LISTEN then ep_update CTL_DEL p c ep1 else ep1)
      in (c\<lparr>ch_status := DELETED\<rparr>, ep2))"

definition hasChannel :: "nat \<Rightarrow> channel \<Rightarrow> epoller \<Rightarrow> bool" where
  "hasChannel p c ep \<longleftrightarrow> ep_channels ep (ch_fd c) = Some p"

text \<open>The public operations of a channel: the mask is changed, then the loop's epoller is told.\<close>

definition chan_do :: "chan_op \<Rightarrow> nat \<Rightarrow> channel \<Rightarrow> epoller \<Rightarrow> channel \<times> epoller" where
  "chan_do opr p c ep =
     (if opr = Remove then removeChannel p c ep else updateChannel p (set_events opr c) ep)"

text \<open>\<open>poll\<close>: \<open>epoll_wait\<close> is given by its result, the ready entries or an error.  The entries
  are copied to the channels' \<open>revents_\<close> and to the list of active channels.\<close>

datatype wait_result = Ready "(events \<times> nat) list" | Wait_failed errno

fun fill_loop :: "(events \<times> nat) list \<Rightarrow> (nat \<rightharpoonup> channel) \<Rightarrow> nat list \<Rightarrow> (nat \<rightharpoonup> channel) \<times> nat list" where
  "fill_loop [] cs act = (cs, act)"
| "fill_loop ((ev, p) # rs) cs act =
     fill_loop rs (case cs p of Some c \<Rightarrow> cs(p \<mapsto> c\<lparr>ch_revents := ev\<rparr>) | None \<Rightarrow> cs) (act @ [p])"

definition fillActiveChannels ::
    "(events \<times> nat) list \<Rightarrow> epoller \<Rightarrow> (nat \<rightharpoonup> channel) \<Rightarrow> nat list \<Rightarrow> ((nat \<rightharpoonup> channel) \<times> nat list) result" where
  "fillActiveChannels rs ep cs act =
     bind_res (cassert (length rs \<le> ep_nevents ep)) (\<lambda>_. Inr (fill_loop rs cs act))"

definition poll ::
    "wait_result \<Rightarrow> epoller \<Rightarrow> (nat \<rightharpoonup> channel) \<Rightarrow> nat list
      \<Rightarrow> (epoller \<times> (nat \<rightharpoonup> channel) \<times> nat list) result" where
  "poll w ep cs act =
     (case w of
        Wait_failed e \<Rightarrow> Inr (ep, cs, act)
      | Ready rs \<Rightarrow>
          if rs = [] then Inr (ep, cs, act)
          else bind_res (fillActiveChannels rs ep cs act) (\<lambda>(cs', act').
            Inr (if length rs = ep_nevents ep then ep\<lparr>ep_nevents := ep_nevents ep * 2\<rparr> else ep,
                 cs', act')))"

section \<open>The interest list\<close>

type_synonym interest = "int \<rightharpoonup> (events \<times> nat)"

definition ctl_effect :: "ctl \<Rightarrow> interest \<Rightarrow> interest option" where
  "ctl_effect k m =
     (case ctl_opcode k of
        CTL_ADD \<Rightarrow> if m (ctl_fd k) = None then Some (m(ctl_fd k \<mapsto> (ctl_events k, ctl_ptr k))) else None
      | CTL_MOD \<Rightarrow> if m (ctl_fd k) \<noteq> None then Some (m(ctl_fd k \<mapsto> (ctl_events k, ctl_ptr k))) else None
      | CTL_DEL \<Rightarrow> if m (ctl_fd k) \<noteq> None then Some (m(ctl_fd k := None)) else None)"

fun ctl_replay :: "ctl list \<Rightarrow> interest \<Rightarrow> interest option" where
  "ctl_replay [] m = Some m"
| "ctl_replay (k # ks) m = (case ctl_effect k m of None \<Rightarrow> None | Some m' \<Rightarrow> ctl_replay ks m')"

lemma ctl_replay_append:
  "ctl_replay (ks @ ls) m = (case ctl_replay ks m of None \<Rightarrow> None | Some m' \<Rightarrow> ctl_replay ls m')"
  by (induction ks arbitrary: m) (auto split: option.splits)

text \<open>A loop's channels, its epoller, and a run of operations on the channels.\<close>

record reactor =
  re_chans :: "nat \<rightharpoonup> channel"
  re_epoll :: epoller

definition reactor_do :: "chan_op \<Rightarrow> nat \<Rightarrow> reactor \<Rightarrow> reactor" where
  "reactor_do opr p r =
     (case re_chans r p of
        None \<Rightarrow> r
      | Some c \<Rightarrow> let (c', ep') = chan_do opr p c (re_epoll r) in
          \<lparr>re_chans = (re_chans r)(p \<mapsto> c'), re_epoll = ep'\<rparr>)"

text \<open>The kernel's list is exactly the channels in state \<open>LISTEN\<close>, with their current masks.\<close>

definition listening :: "(nat \<rightharpoonup> channel) \<Rightarrow> interest \<Rightarrow> bool" where
  "listening cs m \<longleftrightarrow>
     (\<forall>fd ev p. m fd = Some (ev, p) \<longleftrightarrow>
        (\<exists>c. cs p = Some c \<and> ch_fd c = fd \<and> ch_status c = LISTEN \<and> ch_events c = ev))"

definition distinct_fds :: "(nat \<rightharpoonup> channel) \<Rightarrow> bool" where
  "distinct_fds cs \<longleftrightarrow> (\<forall>p q c d. cs p = Some c \<and> cs q = Some d \<and> ch_fd c = ch_fd d \<longrightarrow> p = q)"

definition reactor_inv :: "reactor \<Rightarrow> bool" where
  "reactor_inv r \<longleftrightarrow> distinct_fds (re_chans r) \<and>
     (\<exists>m. ctl_replay (ep_calls (re_epoll r)) Map.empty = Some m \<and> listening (re_chans r) m) \<and>
     (\<forall>fd p. ep_channels (re_epoll r) fd = Some p \<longleftrightarrow>
        (\<exists>c. re_chans r p = Some c \<and> ch_fd c = fd \<and> (ch_status c = LISTEN \<or> ch_status c = NOT_LISTEN))) \<and>
     16 \<le> ep_nevents (re_epoll r)"

lemma listening_set:
  assumes "listening cs m" "distinct_fds cs" "cs p = Some c" "ch_fd c' = ch_fd c"
  shows "listening (cs(p \<mapsto> c')) (if ch_status c' = LISTEN then m(ch_fd c \<mapsto> (ch_events c', p))
    else m(ch_fd c := None))"
  using assms unfolding listening_def distinct_fds_def
  by (auto split: if_splits)

lemma listening_lookup:
  assumes "listening cs m" "distinct_fds cs" "cs p = Some c"
  shows "m (ch_fd c) = (if ch_status c = LISTEN then Some (ch_events c, p) else None)"
proof (cases "ch_status c = LISTEN")
  case True
  have "m (ch_fd c) = Some (ch_events c, p)"
    using assms(1,3) True unfolding listening_def by blast
  with True show ?thesis by simp
next
  case False
  have "m (ch_fd c) \<noteq> Some (ev, q)" for ev q
  proof
    assume "m (ch_fd c) = Some (ev, q)"
    with assms(1) obtain d where d: "cs q = Some d" "ch_fd d = ch_fd c" "ch_status d = LISTEN"
      unfolding listening_def by blast
    with assms(2,3) have "q = p" unfolding distinct_fds_def by metis
    with d assms(3) False show False by simp
  qed
  with False show ?thesis by (cases "m (ch_fd c)") auto
qed

text \<open>One channel operation: the calls it adds and the state it leaves, per status.\<close>

lemmas chan_defs = chan_do_def updateChannel_def removeChannel_def ep_update_def Let_def

lemma set_events_simps [simp]:
  "ch_fd (set_events opr c) = ch_fd c" "ch_status (set_events opr c) = ch_status c"
  "ch_revents (set_events opr c) = ch_revents c"
  by (cases opr; simp)+

lemma chan_do_fd [simp]: "ch_fd (fst (chan_do opr p c ep)) = ch_fd c"
  by (simp add: chan_defs)

lemma chan_do_nevents [simp]: "ep_nevents (snd (chan_do opr p c ep)) = ep_nevents ep"
  by (simp add: chan_defs)

lemma chan_do_channels:
  "ep_channels (snd (chan_do opr p c ep)) =
     (if opr = Remove then (ep_channels ep)(ch_fd c := None)
      else if ch_status c = INIT \<or> ch_status c = DELETED then (ep_channels ep)(ch_fd c \<mapsto> p)
      else ep_channels ep)"
  by (simp add: chan_defs)

lemma chan_do_status:
  "(ch_status (fst (chan_do opr p c ep)) = LISTEN \<or> ch_status (fst (chan_do opr p c ep)) = NOT_LISTEN)
    \<longleftrightarrow> opr \<noteq> Remove"
  by (cases "ch_status c") (auto simp: chan_defs)

lemma chan_do_replay:
  assumes "ctl_replay (ep_calls ep) Map.empty = Some m"
    "m (ch_fd c) = (if ch_status c = LISTEN then Some (ch_events c, p) else None)"
  shows "ctl_replay (ep_calls (snd (chan_do opr p c ep))) Map.empty =
    Some (if ch_status (fst (chan_do opr p c ep)) = LISTEN
          then m(ch_fd c \<mapsto> (ch_events (fst (chan_do opr p c ep)), p)) else m(ch_fd c := None))"
  using assms by (cases "ch_status c") (auto simp: chan_defs ctl_replay_append ctl_effect_def fun_upd_idem)

lemma reactor_do_inv:
  assumes "reactor_inv r"
  shows "reactor_inv (reactor_do opr p r)"
proof (cases "re_chans r p")
  case None
  with assms show ?thesis by (simp add: reactor_do_def)
next
  case (Some c)
  obtain c' ep' where d: "chan_do opr p c (re_epoll r) = (c', ep')" by fastforce
  have r: "reactor_do opr p r = \<lparr>re_chans = (re_chans r)(p \<mapsto> c'), re_epoll = ep'\<rparr>"
    using Some d by (simp add: reactor_do_def)
  have fd: "ch_fd c' = ch_fd c" using chan_do_fd [of opr p c "re_epoll r"] d by simp
  from assms obtain m where dist: "distinct_fds (re_chans r)"
    and m: "ctl_replay (ep_calls (re_epoll r)) Map.empty = Some m" "listening (re_chans r) m"
    and map: "\<And>fd q. ep_channels (re_epoll r) fd = Some q \<longleftrightarrow> (\<exists>c. re_chans r q = Some c \<and> ch_fd c = fd
        \<and> (ch_status c = LISTEN \<or> ch_status c = NOT_LISTEN))"
    and n: "16 \<le> ep_nevents (re_epoll r)"
    by (auto simp: reactor_inv_def)
  have "m (ch_fd c) = (if ch_status c = LISTEN then Some (ch_events c, p) else None)"
    by (rule listening_lookup [OF m(2) dist Some])
  from chan_do_replay [OF m(1) this, of opr] d listening_set [OF m(2) dist Some fd]
  have "\<exists>m. ctl_replay (ep_calls ep') Map.empty = Some m \<and> listening ((re_chans r)(p \<mapsto> c')) m" by auto
  moreover have "distinct_fds ((re_chans r)(p \<mapsto> c'))"
    using dist Some fd unfolding distinct_fds_def by (auto split: if_splits)
  moreover have "ep_channels ep' fd' = Some q \<longleftrightarrow> (\<exists>c. ((re_chans r)(p \<mapsto> c')) q = Some c \<and> ch_fd c = fd'
        \<and> (ch_status c = LISTEN \<or> ch_status c = NOT_LISTEN))" for fd' q
  proof -
    have ch: "ep_channels ep' = (if opr = Remove then (ep_channels (re_epoll r))(ch_fd c := None)
      else if ch_status c = INIT \<or> ch_status c = DELETED then (ep_channels (re_epoll r))(ch_fd c \<mapsto> p)
      else ep_channels (re_epoll r))"
      using chan_do_channels [of opr p c "re_epoll r"] d by simp
    have st: "(ch_status c' = LISTEN \<or> ch_status c' = NOT_LISTEN) \<longleftrightarrow> opr \<noteq> Remove"
      using chan_do_status [of opr p c "re_epoll r"] d by simp
    have own: "ep_channels (re_epoll r) (ch_fd c) = Some q \<Longrightarrow> q = p"
      using map [of "ch_fd c" q] dist Some by (auto simp: distinct_fds_def)
    have old: "ch_status c = INIT \<or> ch_status c = DELETED \<or> ep_channels (re_epoll r) (ch_fd c) = Some p"
      using map [of "ch_fd c" p] Some by (cases "ch_status c") auto
    show ?thesis
    proof (cases "q = p")
      case True
      have "ep_channels (re_epoll r) fd' = Some p \<Longrightarrow> fd' = ch_fd c"
        using map [of fd' p] Some by auto
      then have "ep_channels ep' fd' = Some p \<longleftrightarrow> fd' = ch_fd c \<and> opr \<noteq> Remove"
        unfolding ch using old by (cases "fd' = ch_fd c") auto
      with True st fd show ?thesis by simp blast
    next
      case False
      then have "ep_channels ep' fd' = Some q \<longleftrightarrow> ep_channels (re_epoll r) fd' = Some q"
        unfolding ch using own by (cases "fd' = ch_fd c") auto
      with False map [of fd' q] show ?thesis by simp
    qed
  qed
  moreover have "16 \<le> ep_nevents ep'" using n chan_do_nevents [of opr p c "re_epoll r"] d by simp
  ultimately show ?thesis unfolding r reactor_inv_def by simp
qed

section \<open>Runs of a reactor\<close>

lemma fill_loop_chans:
  "fst (fill_loop rs cs act) p = (case cs p of None \<Rightarrow> None
     | Some c \<Rightarrow> Some (case map_of (rev (map prod.swap rs)) p of None \<Rightarrow> c | Some ev \<Rightarrow> c\<lparr>ch_revents := ev\<rparr>))"
  by (induction rs cs act rule: fill_loop.induct)
    (auto split: option.splits simp: map_add_def)

lemma fill_loop_active: "snd (fill_loop rs cs act) = act @ map snd rs"
  by (induction rs cs act rule: fill_loop.induct) auto

text \<open>Steps: an operation on some channel, \<open>epoll_wait\<close> filling in what happened, a channel
  constructed for a descriptor no other channel uses, a channel destroyed that is not
  registered.\<close>

inductive reactor_step :: "reactor \<Rightarrow> reactor \<Rightarrow> bool" where
  op_step: "reactor_step r (reactor_do opr p r)"
| poll_step: "poll w (re_epoll r) (re_chans r) [] = Inr (ep, cs, act)
    \<Longrightarrow> reactor_step r \<lparr>re_chans = cs, re_epoll = ep\<rparr>"
| new_step: "re_chans r p = None \<Longrightarrow> (\<And>q c. re_chans r q = Some c \<Longrightarrow> ch_fd c \<noteq> fd)
    \<Longrightarrow> reactor_step r (r\<lparr>re_chans := (re_chans r)(p \<mapsto> new_Channel fd)\<rparr>)"
| drop_step: "re_chans r p = Some c \<Longrightarrow> ch_status c = INIT \<or> ch_status c = DELETED
    \<Longrightarrow> reactor_step r (r\<lparr>re_chans := (re_chans r)(p := None)\<rparr>)"

inductive_cases reactor_stepE: "reactor_step r r'"

definition reactor_init :: "reactor \<Rightarrow> bool" where
  "reactor_init r \<longleftrightarrow> r = \<lparr>re_chans = Map.empty, re_epoll = new_Epoller\<rparr>"

lemma poll_frame:
  assumes "poll w ep cs act = Inr (ep', cs', act')"
  shows "ep_calls ep' = ep_calls ep \<and> ep_channels ep' = ep_channels ep \<and> ep_nevents ep \<le> ep_nevents ep'
    \<and> (\<forall>p. map_option (\<lambda>c. c\<lparr>ch_revents := 0\<rparr>) (cs' p) = map_option (\<lambda>c. c\<lparr>ch_revents := 0\<rparr>) (cs p))"
proof (cases w)
  case (Ready rs)
  show ?thesis
  proof (cases "rs = []")
    case False
    with assms Ready have "cs' = fst (fill_loop rs cs act)"
      "ep' = (if length rs = ep_nevents ep then ep\<lparr>ep_nevents := ep_nevents ep * 2\<rparr> else ep)"
      by (auto simp: poll_def fillActiveChannels_def split: prod.splits)
    then show ?thesis by (auto simp: fill_loop_chans split: option.splits)
  qed (use assms Ready in \<open>simp add: poll_def\<close>)
qed (use assms in \<open>simp add: poll_def\<close>)

lemma channel_eq_but_revents:
  "map_option (\<lambda>c. c\<lparr>ch_revents := 0\<rparr>) x = map_option (\<lambda>c. c\<lparr>ch_revents := 0\<rparr>) y \<Longrightarrow> x = Some c
    \<Longrightarrow> \<exists>d. y = Some d \<and> ch_fd d = ch_fd c \<and> ch_events d = ch_events c \<and> ch_status d = ch_status c"
proof -
  assume a: "map_option (\<lambda>c. c\<lparr>ch_revents := 0\<rparr>) x = map_option (\<lambda>c. c\<lparr>ch_revents := 0\<rparr>) y" "x = Some c"
  then obtain d where d: "y = Some d" "c\<lparr>ch_revents := 0\<rparr> = d\<lparr>ch_revents := 0\<rparr>" by (cases y) auto
  from d(2) have "ch_fd d = ch_fd c \<and> ch_events d = ch_events c \<and> ch_status d = ch_status c"
    by (cases c; cases d) simp
  with d(1) show ?thesis by blast
qed

lemma listening_cong:
  assumes "\<forall>p. map_option (\<lambda>c. c\<lparr>ch_revents := 0\<rparr>) (cs' p) = map_option (\<lambda>c. c\<lparr>ch_revents := 0\<rparr>) (cs p)"
  shows "(\<exists>c. cs' p = Some c \<and> Q (ch_fd c) (ch_events c) (ch_status c))
     \<longleftrightarrow> (\<exists>c. cs p = Some c \<and> Q (ch_fd c) (ch_events c) (ch_status c))"
  using channel_eq_but_revents [of "cs' p" "cs p"] channel_eq_but_revents [of "cs p" "cs' p"] assms
  by metis

lemma distinct_fds_cong:
  assumes "\<forall>p. map_option (\<lambda>c. c\<lparr>ch_revents := 0\<rparr>) (cs' p) = map_option (\<lambda>c. c\<lparr>ch_revents := 0\<rparr>) (cs p)"
    "distinct_fds cs"
  shows "distinct_fds cs'"
  unfolding distinct_fds_def
proof (intro allI impI, elim conjE)
  fix p q c d assume "cs' p = Some c" "cs' q = Some d" "ch_fd c = ch_fd d"
  with channel_eq_but_revents [OF assms(1) [THEN spec, of p]] channel_eq_but_revents [OF assms(1) [THEN spec, of q]]
  obtain c0 d0 where "cs p = Some c0" "cs q = Some d0" "ch_fd c0 = ch_fd d0" by fastforce
  with assms(2) show "p = q" unfolding distinct_fds_def by blast
qed

lemma reactor_step_inv:
  assumes "reactor_inv r" "reactor_step r r'"
  shows "reactor_inv r'"
  using assms(2)
proof (cases rule: reactor_step.cases)
  case (op_step opr p)
  with reactor_do_inv [OF assms(1)] show ?thesis by simp
next
  case (poll_step w ep cs act)
  note f = poll_frame [OF poll_step(2)]
  note same = listening_cong [of cs "re_chans r"]
  have "distinct_fds cs"
    using assms(1) f distinct_fds_cong [of cs "re_chans r"] by (simp add: reactor_inv_def)
  moreover have "listening cs m \<longleftrightarrow> listening (re_chans r) m" for m
    unfolding listening_def using same [where Q = "\<lambda>a b c. a = _ \<and> c = LISTEN \<and> b = _"] f by simp
  moreover have "(\<exists>c. cs p = Some c \<and> ch_fd c = fd \<and> (ch_status c = LISTEN \<or> ch_status c = NOT_LISTEN))
    \<longleftrightarrow> (\<exists>c. re_chans r p = Some c \<and> ch_fd c = fd \<and> (ch_status c = LISTEN \<or> ch_status c = NOT_LISTEN))" for p fd
    using same [where Q = "\<lambda>a b c. a = fd \<and> (c = LISTEN \<or> c = NOT_LISTEN)"] f by simp
  ultimately show ?thesis using assms(1) f poll_step(1) by (auto simp: reactor_inv_def)
next
  case (new_step p fd)
  have "distinct_fds (re_chans r')"
    using assms(1) new_step by (auto simp: reactor_inv_def distinct_fds_def new_Channel_def)
  moreover have "(\<exists>c. re_chans r' q = Some c \<and> ch_fd c = f \<and> ch_status c = LISTEN \<and> ch_events c = ev)
    \<longleftrightarrow> (\<exists>c. re_chans r q = Some c \<and> ch_fd c = f \<and> ch_status c = LISTEN \<and> ch_events c = ev)" for q f ev
    using new_step by (cases "q = p") (auto simp: new_Channel_def)
  then have "listening (re_chans r') m \<longleftrightarrow> listening (re_chans r) m" for m
    unfolding listening_def by simp
  moreover have "(\<exists>c. re_chans r' q = Some c \<and> ch_fd c = f \<and> (ch_status c = LISTEN \<or> ch_status c = NOT_LISTEN))
    \<longleftrightarrow> (\<exists>c. re_chans r q = Some c \<and> ch_fd c = f \<and> (ch_status c = LISTEN \<or> ch_status c = NOT_LISTEN))" for q f
    using new_step by (cases "q = p") (auto simp: new_Channel_def)
  ultimately show ?thesis using assms(1) new_step(1) by (auto simp: reactor_inv_def)
next
  case (drop_step p c)
  have "distinct_fds (re_chans r')"
    using assms(1) drop_step by (auto simp: reactor_inv_def distinct_fds_def)
  moreover have "(\<exists>c. re_chans r' q = Some c \<and> ch_fd c = f \<and> ch_status c = LISTEN \<and> ch_events c = ev)
    \<longleftrightarrow> (\<exists>c. re_chans r q = Some c \<and> ch_fd c = f \<and> ch_status c = LISTEN \<and> ch_events c = ev)" for q f ev
    using drop_step by (cases "q = p") (auto)
  then have "listening (re_chans r') m \<longleftrightarrow> listening (re_chans r) m" for m
    unfolding listening_def by simp
  moreover have "(\<exists>c. re_chans r' q = Some c \<and> ch_fd c = f \<and> (ch_status c = LISTEN \<or> ch_status c = NOT_LISTEN))
    \<longleftrightarrow> (\<exists>c. re_chans r q = Some c \<and> ch_fd c = f \<and> (ch_status c = LISTEN \<or> ch_status c = NOT_LISTEN))" for q f
    using drop_step by (cases "q = p") (auto)
  ultimately show ?thesis using assms(1) drop_step(1) by (auto simp: reactor_inv_def)
qed

interpretation reac: invariant_system reactor_init reactor_step reactor_inv
proof
  fix r assume "reactor_init r"
  then show "reactor_inv r"
    by (simp add: reactor_init_def reactor_inv_def new_Epoller_def distinct_fds_def listening_def)
qed (rule reactor_step_inv)

section \<open>Event masks as a set of two flags\<close>

lemmas mask_defs = kNoneEvent_def kReadEvent_def kWriteEvent_def EPOLLIN_def EPOLLPRI_def
  EPOLLOUT_def EPOLLRDHUP_def EPOLLET_def EPOLLHUP_def EPOLLERR_def

definition mask_of :: "bool \<Rightarrow> bool \<Rightarrow> events" where
  "mask_of rd wr = kNoneEvent OR (if rd then kReadEvent else 0) OR (if wr then kWriteEvent else 0)"

fun flags_spec :: "chan_op \<Rightarrow> bool \<times> bool \<Rightarrow> bool \<times> bool" where
  "flags_spec EnableReading (rd, wr) = (True, wr)"
| "flags_spec DisableReading (rd, wr) = (False, wr)"
| "flags_spec EnableWriting (rd, wr) = (rd, True)"
| "flags_spec DisableWriting (rd, wr) = (rd, False)"
| "flags_spec DisableAll _ = (False, False)"
| "flags_spec Remove f = f"

lemma mask_read: "mask_of rd wr AND kReadEvent \<noteq> 0 \<longleftrightarrow> rd"
  by (cases rd; cases wr) (simp_all add: mask_of_def mask_defs)

lemma mask_write: "mask_of rd wr AND kWriteEvent \<noteq> 0 \<longleftrightarrow> wr"
  by (cases rd; cases wr) (simp_all add: mask_of_def mask_defs)

lemma mask_none: "mask_of rd wr = kNoneEvent \<longleftrightarrow> \<not> rd \<and> \<not> wr"
  by (cases rd; cases wr) (simp_all add: mask_of_def mask_defs)

lemma mask_set: "ch_events c = mask_of rd wr \<Longrightarrow>
    ch_events (set_events opr c) = case_prod mask_of (flags_spec opr (rd, wr))"
  by (cases opr; cases rd; cases wr) (simp_all add: mask_of_def mask_defs)

lemma updateChannel_events [simp]: "ch_events (fst (updateChannel p c ep)) = ch_events c"
  by (simp add: updateChannel_def Let_def)

lemma updateChannel_listens: "\<not> noEvent c \<Longrightarrow> ch_status (fst (updateChannel p c ep)) = LISTEN"
  by (cases "ch_status c") (simp_all add: updateChannel_def Let_def noEvent_def)

fun chan_run :: "chan_op list \<Rightarrow> nat \<Rightarrow> channel \<times> epoller \<Rightarrow> channel \<times> epoller" where
  "chan_run [] p x = x"
| "chan_run (opr # ops) p x = chan_run ops p (chan_do opr p (fst x) (snd x))"

lemma chan_do_events: "opr \<noteq> Remove \<Longrightarrow> ch_events (fst (chan_do opr p c ep)) = ch_events (set_events opr c)"
  by (simp add: chan_do_def)

lemma chan_run_mask:
  "Remove \<notin> set ops \<Longrightarrow> ch_events (fst x) = case_prod mask_of f
    \<Longrightarrow> ch_events (fst (chan_run ops p x)) = case_prod mask_of (fold flags_spec ops f)"
proof (induction ops arbitrary: x f)
  case (Cons opr ops)
  have "ch_events (fst (chan_do opr p (fst x) (snd x))) = case_prod mask_of (flags_spec opr f)"
    using Cons.prems mask_set [of "fst x" "fst f" "snd f" opr] chan_do_events [of opr p "fst x" "snd x"]
    by (cases f) auto
  with Cons show ?case by simp
qed simp

lemma chan_run_snoc: "chan_run (ops @ [opr]) p x = (let y = chan_run ops p x in chan_do opr p (fst y) (snd y))"
  by (induction ops arbitrary: x) (simp_all add: Let_def)

section \<open>Properties\<close>

text \<open>C13: the epoll interest list mirrors the channels.  In every state a loop can reach, with any
  number of channels created on distinct descriptors, operated on in any order, polled, removed
  and destroyed, every \<open>epoll_ctl\<close> call made so far was legal (no EEXIST, no ENOENT); the
  kernel's list is exactly the channels in state \<open>LISTEN\<close>, each with its current event mask and
  its own pointer; and \<open>channels_\<close> maps a descriptor to a channel exactly when that channel is
  \<open>LISTEN\<close> or \<open>NOT_LISTEN\<close>.\<close>

theorem epoll_mirrors_channels:
  assumes "reachable reactor_init reactor_step r"
  shows "\<exists>m. ctl_replay (ep_calls (re_epoll r)) Map.empty = Some m
    \<and> (\<forall>fd ev p. m fd = Some (ev, p) \<longleftrightarrow>
        (\<exists>c. re_chans r p = Some c \<and> ch_fd c = fd \<and> ch_status c = LISTEN \<and> ch_events c = ev))
    \<and> (\<forall>p c. re_chans r p = Some c \<longrightarrow>
        (hasChannel p c (re_epoll r) \<longleftrightarrow> ch_status c = LISTEN \<or> ch_status c = NOT_LISTEN))"
proof -
  have "reactor_inv r" using assms by (rule reac.inv_reachable)
  then obtain m where "ctl_replay (ep_calls (re_epoll r)) Map.empty = Some m" "listening (re_chans r) m"
    and map: "\<And>fd q. ep_channels (re_epoll r) fd = Some q \<longleftrightarrow> (\<exists>c. re_chans r q = Some c \<and> ch_fd c = fd
        \<and> (ch_status c = LISTEN \<or> ch_status c = NOT_LISTEN))"
    by (auto simp: reactor_inv_def)
  then show ?thesis
    by (intro exI [of _ m] conjI) (simp_all add: listening_def hasChannel_def)
qed

theorem epoll_mirrors_channels_witness:
  "\<exists>m. ctl_replay (ep_calls (re_epoll (reactor_do EnableReading 7
        \<lparr>re_chans = [7 \<mapsto> new_Channel 5], re_epoll = new_Epoller\<rparr>))) Map.empty = Some m
    \<and> m 5 = Some (mask_of True False, 7)"
proof -
  let ?r0 = "\<lparr>re_chans = Map.empty, re_epoll = new_Epoller\<rparr>" and ?r1 = "\<lparr>re_chans = [7 \<mapsto> new_Channel 5], re_epoll = new_Epoller\<rparr>"
  have "reactor_step ?r0 (?r0\<lparr>re_chans := (re_chans ?r0)(7 \<mapsto> new_Channel 5)\<rparr>)"
    by (rule reactor_step.new_step) simp_all
  moreover have "reachable reactor_init reactor_step ?r0"
    by (rule reachable_init) (simp add: reactor_init_def)
  ultimately have "reachable reactor_init reactor_step ?r1"
    using reachable_step [of reactor_init reactor_step ?r0 ?r1] by simp
  then have "reachable reactor_init reactor_step (reactor_do EnableReading 7 ?r1)"
    by (rule reachable_step) (rule reactor_step.op_step)
  from epoll_mirrors_channels [OF this]
  obtain m where m: "ctl_replay (ep_calls (re_epoll (reactor_do EnableReading 7 ?r1))) Map.empty = Some m"
    and l: "\<forall>fd ev p. m fd = Some (ev, p) \<longleftrightarrow> (\<exists>c. re_chans (reactor_do EnableReading 7 ?r1) p = Some c
      \<and> ch_fd c = fd \<and> ch_status c = LISTEN \<and> ch_events c = ev)" by blast
  have "m 5 = Some (mask_of True False, 7)"
    using l by (simp add: reactor_do_def chan_defs new_Channel_def mask_of_def)
  with m show ?thesis by blast
qed

text \<open>The bit operations on \<open>events_\<close> implement two independent flags.  After any sequence of
  enable and disable operations on a new channel, \<open>isReading\<close> and \<open>isWriting\<close> are what the last
  enable or disable of that kind says, \<open>noEvent\<close> holds exactly when neither is on, and after the
  last operation a channel that wants events is in state \<open>LISTEN\<close>.\<close>

theorem channel_flags:
  assumes "Remove \<notin> set ops" "opr \<noteq> Remove"
    "chan_run (ops @ [opr]) p (new_Channel fd, ep) = (c, ep')" "fold flags_spec (ops @ [opr]) (False, False) = (rd, wr)"
  shows "isReading c = rd \<and> isWriting c = wr \<and> noEvent c = (\<not> rd \<and> \<not> wr) \<and> (rd \<or> wr \<longrightarrow> ch_status c = LISTEN)"
proof -
  have init: "ch_events (fst (new_Channel fd, ep)) = case_prod mask_of (False, False)"
    by (simp add: new_Channel_def mask_of_def)
  have "ch_events c = mask_of rd wr"
    using chan_run_mask [OF _ init, of "ops @ [opr]" p] assms by simp
  then have flags: "isReading c = rd" "isWriting c = wr" "noEvent c = (\<not> rd \<and> \<not> wr)"
    by (simp_all add: isReading_def isWriting_def noEvent_def mask_read mask_write mask_none)
  moreover have "ch_status c = LISTEN" if on: "rd \<or> wr"
  proof -
    let ?y = "chan_run ops p (new_Channel fd, ep)"
    have c: "c = fst (updateChannel p (set_events opr (fst ?y)) (snd ?y))"
      using assms(2,3) by (simp add: chan_run_snoc Let_def chan_do_def)
    with flags(3) on have "\<not> noEvent (set_events opr (fst ?y))" by (simp add: noEvent_def)
    then show ?thesis unfolding c by (rule updateChannel_listens)
  qed
  ultimately show ?thesis by blast
qed

theorem channel_flags_witness:
  "isReading (fst (chan_run [EnableReading, EnableWriting, DisableReading] 7 (new_Channel 5, new_Epoller))) = False
    \<and> isWriting (fst (chan_run [EnableReading, EnableWriting, DisableReading] 7 (new_Channel 5, new_Epoller))) = True"
  using channel_flags [of "[EnableReading, EnableWriting]" DisableReading 7 5 new_Epoller
      "fst (chan_run [EnableReading, EnableWriting, DisableReading] 7 (new_Channel 5, new_Epoller))"
      "snd (chan_run [EnableReading, EnableWriting, DisableReading] 7 (new_Channel 5, new_Epoller))" False True]
  by simp

text \<open>Dispatch after \<open>epoll_wait\<close>.  When the kernel reports at most as many entries as the
  event array holds, each for a different channel, \<open>poll\<close> makes exactly those channels active, in
  the order reported, each sees exactly the events reported for it, no other channel changes, and
  the array doubles exactly when it was full.\<close>

theorem poll_dispatches:
  assumes "length rs \<le> ep_nevents ep" "distinct (map snd rs)" "rs \<noteq> []"
  shows "\<exists>ep' cs'. poll (Ready rs) ep cs act = Inr (ep', cs', act @ map snd rs)
    \<and> (\<forall>ev p c. (ev, p) \<in> set rs \<and> cs p = Some c \<longrightarrow> cs' p = Some (c\<lparr>ch_revents := ev\<rparr>))
    \<and> (\<forall>p. p \<notin> snd ` set rs \<longrightarrow> cs' p = cs p)
    \<and> ep_nevents ep' = (if length rs = ep_nevents ep then 2 * ep_nevents ep else ep_nevents ep)"
proof -
  have dist: "distinct (map fst (rev (map prod.swap rs)))"
    using assms(2) by (simp add: rev_map [symmetric] comp_def)
  have hit: "map_of (rev (map prod.swap rs)) p = Some ev" if "(ev, p) \<in> set rs" for ev p
    using that dist by (simp add: map_of_eq_Some_iff del: map_map)
  have miss: "map_of (rev (map prod.swap rs)) p = None" if "p \<notin> snd ` set rs" for p
    using that by (force simp: map_of_eq_None_iff)
  have "poll (Ready rs) ep cs act = Inr (if length rs = ep_nevents ep then ep\<lparr>ep_nevents := ep_nevents ep * 2\<rparr> else ep,
      fst (fill_loop rs cs act), act @ map snd rs)"
    using assms(1,3) fill_loop_active [of rs cs act]
    by (cases "fill_loop rs cs act") (simp add: poll_def fillActiveChannels_def)
  then show ?thesis
    using hit miss by (auto simp: fill_loop_chans split: option.splits)
qed

theorem poll_dispatches_witness:
  "\<exists>ep' cs'. poll (Ready [(EPOLLIN, 7)]) new_Epoller [7 \<mapsto> new_Channel 5] [] = Inr (ep', cs', [7])
    \<and> cs' 7 = Some ((new_Channel 5)\<lparr>ch_revents := EPOLLIN\<rparr>) \<and> ep_nevents ep' = 16"
  using poll_dispatches [of "[(EPOLLIN, 7)]" new_Epoller "[7 \<mapsto> new_Channel 5]" "[]"]
  by (fastforce simp: new_Epoller_def)

end
