(* ===== verification/Event_Loop.thy ===== *)
theory Event_Loop
  imports Channel_Epoll
begin

text \<open>
  \<open>src/src/net/EventLoop.{h,cpp}\<close>: the task queue shared by all threads, the eventfd that
  wakes the loop, and the loop itself.  A task (\<open>Functor\<close>) is a value of type \<open>'f\<close>; what it
  queues when it runs is a parameter \<open>body\<close>.  The sequential operations come first; then the
  system of the loop thread and any number of other threads, whose steps are the atomic pieces
  of those operations: other threads push under the lock and write the eventfd in a second
  step, the loop thread tests \<open>quit_\<close>, polls, handles events, raises
  \<open>callingPendingFunctors_\<close>, swaps the queue under the lock and runs the tasks one by one.
\<close>

section \<open>The loop object\<close>

text \<open>\<open>el_done\<close> records the tasks that were run, in order; \<open>el_evfd\<close> is the eventfd's counter.\<close>

record 'f eloop =
  el_main :: bool
  el_quit :: bool
  el_handling :: bool
  el_calling :: bool
  el_evfd :: nat
  el_pending :: "'f list"
  el_conns :: "nat set"
  el_done :: "'f list"

definition new_EventLoop :: "bool \<Rightarrow> 'f eloop" where
  "new_EventLoop mainLoop = \<lparr>el_main = mainLoop, el_quit = False, el_handling = False,
     el_calling = False, el_evfd = 0, el_pending = [], el_conns = {}, el_done = []\<rparr>"

text \<open>A write of 1 to the eventfd adds one to the counter; at its maximum the non-blocking write
  fails and is logged.\<close>

definition EVENTFD_MAX :: nat where
  "EVENTFD_MAX = 2 ^ 64 - 2"

definition wakeup :: "'f eloop \<Rightarrow> 'f eloop" where
  "wakeup s = (if el_evfd s < EVENTFD_MAX then s\<lparr>el_evfd := Suc (el_evfd s)\<rparr> else s)"

text \<open>Reading the eventfd resets the counter.\<close>

definition loop_handleRead :: "'f eloop \<Rightarrow> 'f eloop" where
  "loop_handleRead s = s\<lparr>el_evfd := 0\<rparr>"

definition push_pending :: "'f \<Rightarrow> 'f eloop \<Rightarrow> 'f eloop" where
  "push_pending f s = s\<lparr>el_pending := el_pending s @ [f]\<rparr>"

text \<open>\<open>queueInLoop\<close> and \<open>quit\<close> have two halves each, between which other threads may run.\<close>

definition queue_wake :: "bool \<Rightarrow> 'f eloop \<Rightarrow> 'f eloop" where
  "queue_wake inLoopThread s = (if \<not> inLoopThread \<or> el_calling s then wakeup s else s)"

definition queueInLoop :: "bool \<Rightarrow> 'f \<Rightarrow> 'f eloop \<Rightarrow> 'f eloop" where
  "queueInLoop inLoopThread f s = queue_wake inLoopThread (push_pending f s)"

definition quit_set :: "'f eloop \<Rightarrow> 'f eloop" where
  "quit_set s = s\<lparr>el_quit := True\<rparr>"

definition quit_wake :: "bool \<Rightarrow> 'f eloop \<Rightarrow> 'f eloop" where
  "quit_wake inLoopThread s = (if \<not> inLoopThread then wakeup s else s)"

definition quit :: "bool \<Rightarrow> 'f eloop \<Rightarrow> 'f eloop" where
  "quit inLoopThread s = quit_wake inLoopThread (quit_set s)"

text \<open>Running a task in the loop thread: it is recorded and what it queues is queued from the
  loop thread.\<close>

definition run_functor :: "('f \<Rightarrow> 'f list) \<Rightarrow> 'f \<Rightarrow> 'f eloop \<Rightarrow> 'f eloop" where
  "run_functor body f s = fold (queueInLoop True) (body f) (s\<lparr>el_done := el_done s @ [f]\<rparr>)"

definition runInLoop :: "('f \<Rightarrow> 'f list) \<Rightarrow> bool \<Rightarrow> 'f \<Rightarrow> 'f eloop \<Rightarrow> 'f eloop" where
  "runInLoop body inLoopThread f s =
     (if inLoopThread then run_functor body f s else queueInLoop inLoopThread f s)"

definition assertInLoopThread :: "bool \<Rightarrow> unit result" where
  "assertInLoopThread inLoopThread = (if \<not> inLoopThread then Inl Abort else Inr ())"

definition addConnectInLoop :: "bool \<Rightarrow> nat \<Rightarrow> 'f eloop \<Rightarrow> 'f eloop result" where
  "addConnectInLoop inLoopThread con s =
     bind_res (assertInLoopThread inLoopThread) (\<lambda>_. Inr (s\<lparr>el_conns := insert con (el_conns s)\<rparr>))"

definition rmConnectInLoop :: "bool \<Rightarrow> nat \<Rightarrow> 'f eloop \<Rightarrow> 'f eloop result" where
  "rmConnectInLoop inLoopThread con s =
     bind_res (assertInLoopThread inLoopThread) (\<lambda>_. Inr (s\<lparr>el_conns := el_conns s - {con}\<rparr>))"

definition connectSize :: "'f eloop \<Rightarrow> nat" where
  "connectSize s = card (el_conns s)"

definition doPendingFunctors :: "('f \<Rightarrow> 'f list) \<Rightarrow> 'f eloop \<Rightarrow> 'f eloop" where
  "doPendingFunctors body s =
     (let s1 = s\<lparr>el_calling := True\<rparr>;
          functors = el_pending s1;
          s2 = s1\<lparr>el_pending := []\<rparr>;
          s3 = fold (run_functor body) functors s2
      in s3\<lparr>el_calling := False\<rparr>)"

text \<open>What an active channel's handler does to the loop: the wakeup channel drains the eventfd,
  any other handler runs callbacks that queue tasks from the loop thread.\<close>

datatype 'f activity = Wakeup_channel | Handler "'f list"

fun handle_activity :: "'f activity \<Rightarrow> 'f eloop \<Rightarrow> 'f eloop" where
  "handle_activity Wakeup_channel s = loop_handleRead s"
| "handle_activity (Handler fs) s = fold (queueInLoop True) fs s"

text \<open>One turn of \<open>loop()\<close> after \<open>poll\<close> returned the active channels.\<close>

definition loop_turn :: "('f \<Rightarrow> 'f list) \<Rightarrow> 'f activity list \<Rightarrow> 'f eloop \<Rightarrow> 'f eloop" where
  "loop_turn body active s =
     (let s1 = s\<lparr>el_handling := True\<rparr>;
          s2 = fold handle_activity active s1;
          s3 = s2\<lparr>el_handling := False\<rparr>
      in doPendingFunctors body s3)"

section \<open>The loop among other threads\<close>

datatype 'f pc =
    AtTest
  | Polling
  | Handling "'f activity list"
  | BeforePending
  | BeforeSwap
  | Running "'f list"
  | Exited

text \<open>\<open>ls_waking\<close> counts the threads between the two halves of \<open>queueInLoop\<close> or of \<open>quit\<close>; \<open>ls_queued\<close> records every task in the
  order of the pushes.  The loop thread itself may call \<open>quit\<close>, in a handler or in a task.\<close>

record 'f lsys =
  ls_loop :: "'f eloop"
  ls_pc :: "'f pc"
  ls_waking :: nat
  ls_queued :: "'f list"

definition run_one :: "('f \<Rightarrow> 'f list) \<Rightarrow> 'f \<Rightarrow> 'f lsys \<Rightarrow> 'f lsys" where
  "run_one body f s = s\<lparr>ls_loop := run_functor body f (ls_loop s), ls_queued := ls_queued s @ body f\<rparr>"

inductive loop_step :: "('f \<Rightarrow> 'f list) \<Rightarrow> 'f lsys \<Rightarrow> 'f lsys \<Rightarrow> bool" for body where
  other_push: "loop_step body s (s\<lparr>ls_loop := push_pending f (ls_loop s),
      ls_waking := Suc (ls_waking s), ls_queued := ls_queued s @ [f]\<rparr>)"
| other_quit: "loop_step body s (s\<lparr>ls_loop := quit_set (ls_loop s), ls_waking := Suc (ls_waking s)\<rparr>)"
| other_wake: "ls_waking s = Suc n \<Longrightarrow> wake = queue_wake False \<or> wake = quit_wake False
    \<Longrightarrow> loop_step body s (s\<lparr>ls_loop := wake (ls_loop s), ls_waking := n\<rparr>)"
| own_quit: "ls_pc s = Handling active \<or> ls_pc s = Running fs \<Longrightarrow> loop_step body s (s\<lparr>ls_loop := quit True (ls_loop s)\<rparr>)"
| test_quit: "ls_pc s = AtTest \<Longrightarrow> el_quit (ls_loop s) \<Longrightarrow> loop_step body s (s\<lparr>ls_pc := Exited\<rparr>)"
| test_go: "ls_pc s = AtTest \<Longrightarrow> \<not> el_quit (ls_loop s) \<Longrightarrow> loop_step body s (s\<lparr>ls_pc := Polling\<rparr>)"
| poll_returns: "ls_pc s = Polling \<Longrightarrow> Wakeup_channel \<in> set active \<longrightarrow> 0 < el_evfd (ls_loop s)
    \<Longrightarrow> loop_step body s (s\<lparr>ls_loop := (ls_loop s)\<lparr>el_handling := True\<rparr>, ls_pc := Handling active\<rparr>)"
| handle_wakeup: "ls_pc s = Handling (Wakeup_channel # active)
    \<Longrightarrow> loop_step body s (s\<lparr>ls_loop := loop_handleRead (ls_loop s), ls_pc := Handling active\<rparr>)"
| handle_other: "ls_pc s = Handling (Handler fs # active)
    \<Longrightarrow> loop_step body s (s\<lparr>ls_loop := fold (queueInLoop True) fs (ls_loop s), ls_pc := Handling active,
        ls_queued := ls_queued s @ fs\<rparr>)"
| handled: "ls_pc s = Handling []
    \<Longrightarrow> loop_step body s (s\<lparr>ls_loop := (ls_loop s)\<lparr>el_handling := False\<rparr>, ls_pc := BeforePending\<rparr>)"
| calling: "ls_pc s = BeforePending
    \<Longrightarrow> loop_step body s (s\<lparr>ls_loop := (ls_loop s)\<lparr>el_calling := True\<rparr>, ls_pc := BeforeSwap\<rparr>)"
| swap: "ls_pc s = BeforeSwap
    \<Longrightarrow> loop_step body s (s\<lparr>ls_loop := (ls_loop s)\<lparr>el_pending := []\<rparr>, ls_pc := Running (el_pending (ls_loop s))\<rparr>)"
| run: "ls_pc s = Running (f # fs) \<Longrightarrow> loop_step body s ((run_one body f s)\<lparr>ls_pc := Running fs\<rparr>)"
| ran: "ls_pc s = Running []
    \<Longrightarrow> loop_step body s (s\<lparr>ls_loop := (ls_loop s)\<lparr>el_calling := False\<rparr>, ls_pc := AtTest\<rparr>)"

definition loop_init :: "'f lsys \<Rightarrow> bool" where
  "loop_init s \<longleftrightarrow> (\<exists>m. ls_loop s = new_EventLoop m) \<and> ls_pc s = AtTest \<and> ls_waking s = 0 \<and> ls_queued s = []"

text \<open>The tasks the loop thread holds in its local vector.\<close>

fun in_hand :: "'f pc \<Rightarrow> 'f list" where
  "in_hand (Running fs) = fs"
| "in_hand _ = []"

text \<open>From the end of the swap to the return of \<open>poll\<close> a queued task needs a wakeup.\<close>

fun needs_wakeup :: "'f pc \<Rightarrow> bool" where
  "needs_wakeup AtTest = True"
| "needs_wakeup Polling = True"
| "needs_wakeup (Running fs) = True"
| "needs_wakeup _ = False"

definition woken :: "'f lsys \<Rightarrow> bool" where
  "woken s \<longleftrightarrow> 0 < el_evfd (ls_loop s) \<or> 0 < ls_waking s"

definition loop_inv :: "'f lsys \<Rightarrow> bool" where
  "loop_inv s \<longleftrightarrow>
     (needs_wakeup (ls_pc s) \<and> el_pending (ls_loop s) \<noteq> [] \<longrightarrow> woken s) \<and>
     (ls_pc s = Polling \<and> el_quit (ls_loop s) \<longrightarrow> woken s) \<and>
     (el_calling (ls_loop s) \<longleftrightarrow> ls_pc s = BeforeSwap \<or> (\<exists>fs. ls_pc s = Running fs)) \<and>
     ls_queued s = el_done (ls_loop s) @ in_hand (ls_pc s) @ el_pending (ls_loop s)"

section \<open>Lemmas\<close>

lemma wakeup_simps [simp]:
  "el_pending (wakeup s) = el_pending s" "el_done (wakeup s) = el_done s" "el_calling (wakeup s) = el_calling s"
  "el_quit (wakeup s) = el_quit s" "el_conns (wakeup s) = el_conns s" "el_handling (wakeup s) = el_handling s"
  by (simp_all add: wakeup_def)

lemma wakeup_pos [simp]: "0 < el_evfd (wakeup s)"
  by (simp add: wakeup_def EVENTFD_MAX_def)

lemma push_pending_simps [simp]:
  "el_pending (push_pending f s) = el_pending s @ [f]" "el_done (push_pending f s) = el_done s"
  "el_calling (push_pending f s) = el_calling s" "el_quit (push_pending f s) = el_quit s"
  "el_evfd (push_pending f s) = el_evfd s"
  by (simp_all add: push_pending_def)

text \<open>Any other thread wakes the loop.\<close>

lemma other_wakes [simp]: "queue_wake False = wakeup" "quit_wake False = wakeup"
  by (simp_all add: queue_wake_def quit_wake_def fun_eq_iff)

lemma quit_simps [simp]: "quit_set s = s\<lparr>el_quit := True\<rparr>" "quit True s = s\<lparr>el_quit := True\<rparr>" "quit False s = wakeup (s\<lparr>el_quit := True\<rparr>)"
  by (simp_all add: quit_set_def quit_wake_def quit_def)

lemma queueInLoop_simps [simp]:
  "el_pending (queueInLoop b f s) = el_pending s @ [f]" "el_done (queueInLoop b f s) = el_done s"
  "el_calling (queueInLoop b f s) = el_calling s" "el_quit (queueInLoop b f s) = el_quit s"
  by (simp_all add: queueInLoop_def queue_wake_def)

lemma queueInLoop_woken: "\<not> b \<or> el_calling s \<Longrightarrow> 0 < el_evfd (queueInLoop b f s)"
  by (simp add: queueInLoop_def queue_wake_def)

lemma queueInLoop_keeps: "0 < el_evfd s \<Longrightarrow> 0 < el_evfd (queueInLoop b f s)"
  by (simp add: queueInLoop_def queue_wake_def)

lemma fold_queue_simps [simp]:
  "el_pending (fold (queueInLoop b) fs s) = el_pending s @ fs"
  "el_done (fold (queueInLoop b) fs s) = el_done s"
  "el_calling (fold (queueInLoop b) fs s) = el_calling s"
  "el_quit (fold (queueInLoop b) fs s) = el_quit s"
  by (induction fs arbitrary: s) simp_all

lemma fold_queue_keeps: "0 < el_evfd s \<Longrightarrow> 0 < el_evfd (fold (queueInLoop b) fs s)"
  by (induction fs arbitrary: s) (simp_all add: queueInLoop_keeps)

lemma fold_queue_woken: "fs \<noteq> [] \<Longrightarrow> \<not> b \<or> el_calling s \<Longrightarrow> 0 < el_evfd (fold (queueInLoop b) fs s)"
  by (cases fs) (auto intro: fold_queue_keeps queueInLoop_woken)

lemma run_functor_simps [simp]:
  "el_pending (run_functor body f s) = el_pending s @ body f"
  "el_done (run_functor body f s) = el_done s @ [f]"
  "el_calling (run_functor body f s) = el_calling s"
  "el_quit (run_functor body f s) = el_quit s"
  by (simp_all add: run_functor_def)

lemma run_functor_woken:
  "el_calling s \<Longrightarrow> body f \<noteq> [] \<or> 0 < el_evfd s \<Longrightarrow> 0 < el_evfd (run_functor body f s)"
  by (auto simp: run_functor_def intro: fold_queue_woken fold_queue_keeps)

lemma loop_step_inv:
  assumes "loop_inv s" "loop_step body s t"
  shows "loop_inv t"
  using assms(2)
proof (cases rule: loop_step.cases)
  case (run f fs)
  have "el_calling (ls_loop s)" using assms(1) run by (simp add: loop_inv_def)
  then have "woken t" if "el_pending (ls_loop t) \<noteq> []"
    using that assms(1) run run_functor_woken [of "ls_loop s" body f]
    by (auto simp: loop_inv_def woken_def run_one_def)
  with assms(1) run show ?thesis by (simp add: loop_inv_def run_one_def)
qed (use assms(1) in \<open>auto simp: loop_inv_def woken_def loop_handleRead_def\<close>)

interpretation el: invariant_system loop_init "loop_step body" loop_inv
proof
  fix s :: "'a lsys" assume "loop_init s"
  then show "loop_inv s" by (auto simp: loop_init_def loop_inv_def new_EventLoop_def)
qed (rule loop_step_inv)

section \<open>One turn of the loop\<close>

fun handler_tasks :: "'f activity \<Rightarrow> 'f list" where
  "handler_tasks Wakeup_channel = []"
| "handler_tasks (Handler fs) = fs"

lemma handle_activity_simps [simp]:
  "el_pending (handle_activity a s) = el_pending s @ handler_tasks a"
  "el_done (handle_activity a s) = el_done s"
  "el_calling (handle_activity a s) = el_calling s"
  "el_quit (handle_activity a s) = el_quit s"
  by (cases a; simp add: loop_handleRead_def)+

lemma fold_handle_simps [simp]:
  "el_pending (fold handle_activity as s) = el_pending s @ concat (map handler_tasks as)"
  "el_done (fold handle_activity as s) = el_done s"
  "el_calling (fold handle_activity as s) = el_calling s"
  by (induction as arbitrary: s) simp_all

lemma fold_run_simps [simp]:
  "el_pending (fold (run_functor body) fs s) = el_pending s @ concat (map body fs)"
  "el_done (fold (run_functor body) fs s) = el_done s @ fs"
  "el_calling (fold (run_functor body) fs s) = el_calling s"
  by (induction fs arbitrary: s) simp_all

lemma fold_run_woken:
  "el_calling s \<Longrightarrow> 0 < el_evfd s \<or> concat (map body fs) \<noteq> []
    \<Longrightarrow> 0 < el_evfd (fold (run_functor body) fs s)"
proof (induction fs arbitrary: s)
  case (Cons f fs)
  have "0 < el_evfd (run_functor body f s) \<or> concat (map body fs) \<noteq> []"
    using Cons.prems run_functor_woken [of s body f] by auto
  with Cons show ?case by simp
qed simp

lemma loop_step_trans: "(loop_step body)\<^sup>*\<^sup>* s t \<Longrightarrow> loop_step body t u \<Longrightarrow> (loop_step body)\<^sup>*\<^sup>* s u"
  by (rule rtranclp.rtrancl_into_rtrancl)

lemma handling_steps:
  "ls_pc s = Handling active \<Longrightarrow> (loop_step body)\<^sup>*\<^sup>* s (s\<lparr>ls_loop := fold handle_activity active (ls_loop s),
     ls_pc := Handling [], ls_queued := ls_queued s @ concat (map handler_tasks active)\<rparr>)"
proof (induction active arbitrary: s)
  case Nil
  then show ?case by (cases s) simp
next
  case (Cons a active)
  let ?t = "s\<lparr>ls_loop := handle_activity a (ls_loop s), ls_pc := Handling active,
    ls_queued := ls_queued s @ handler_tasks a\<rparr>"
  have "loop_step body s ?t"
  proof (cases a)
    case Wakeup_channel
    with Cons.prems loop_step.handle_wakeup [of s active body] show ?thesis by (cases s) simp
  next
    case (Handler fs)
    with Cons.prems loop_step.handle_other [of s fs active body] show ?thesis by simp
  qed
  with Cons.IH [of ?t] show ?case by (simp add: converse_rtranclp_into_rtranclp)
qed

lemma running_steps:
  "ls_pc s = Running fs \<Longrightarrow> (loop_step body)\<^sup>*\<^sup>* s (s\<lparr>ls_loop := fold (run_functor body) fs (ls_loop s),
     ls_pc := Running [], ls_queued := ls_queued s @ concat (map body fs)\<rparr>)"
proof (induction fs arbitrary: s)
  case Nil
  then show ?case by (cases s) simp
next
  case (Cons f fs)
  let ?t = "(run_one body f s)\<lparr>ls_pc := Running fs\<rparr>"
  have "loop_step body s ?t" using Cons.prems by (rule loop_step.run)
  with Cons.IH [of ?t] show ?case by (simp add: run_one_def converse_rtranclp_into_rtranclp)
qed

lemma turn_steps:
  assumes "ls_pc s = Polling" "Wakeup_channel \<in> set active \<longrightarrow> 0 < el_evfd (ls_loop s)"
  shows "\<exists>q. (loop_step body)\<^sup>*\<^sup>* s (s\<lparr>ls_loop := loop_turn body active (ls_loop s), ls_pc := AtTest, ls_queued := q\<rparr>)"
proof -
  define at where "at l pc q = s\<lparr>ls_loop := l, ls_pc := pc, ls_queued := q\<rparr>" for l pc q
  have at_simps: "ls_loop (at l pc q) = l" "ls_pc (at l pc q) = pc" "ls_queued (at l pc q) = q"
    "(at l pc q)\<lparr>ls_loop := l', ls_pc := pc'\<rparr> = at l' pc' q"
    "(at l pc q)\<lparr>ls_queued := q'\<rparr> = at l pc q'" for l pc q l' pc' q'
    by (cases s, simp add: at_def)+
  define l0 where "l0 = (ls_loop s)\<lparr>el_handling := True\<rparr>"
  define l1 where "l1 = fold handle_activity active l0"
  define l2 where "l2 = l1\<lparr>el_handling := False\<rparr>"
  define l3 where "l3 = l2\<lparr>el_calling := True\<rparr>"
  define l4 where "l4 = fold (run_functor body) (el_pending l3) (l3\<lparr>el_pending := []\<rparr>)"
  define q1 where "q1 = ls_queued s @ concat (map handler_tasks active)"
  define q2 where "q2 = q1 @ concat (map body (el_pending l3))"
  have 1: "loop_step body s (at l0 (Handling active) (ls_queued s))"
    using loop_step.poll_returns [OF assms, of body] by (cases s) (simp add: at_def l0_def)
  have 2: "(loop_step body)\<^sup>*\<^sup>* (at l0 (Handling active) (ls_queued s)) (at l1 (Handling []) q1)"
    using handling_steps [of "at l0 (Handling active) (ls_queued s)" active body]
    by (simp add: at_simps l1_def q1_def)
  have 3: "loop_step body (at l1 (Handling []) q1) (at l2 BeforePending q1)"
    using loop_step.handled [of "at l1 (Handling []) q1" body] by (simp add: at_simps l2_def)
  have 4: "loop_step body (at l2 BeforePending q1) (at l3 BeforeSwap q1)"
    using loop_step.calling [of "at l2 BeforePending q1" body] by (simp add: at_simps l3_def)
  have 5: "loop_step body (at l3 BeforeSwap q1) (at (l3\<lparr>el_pending := []\<rparr>) (Running (el_pending l3)) q1)"
    using loop_step.swap [of "at l3 BeforeSwap q1" body] by (simp add: at_simps)
  have 6: "(loop_step body)\<^sup>*\<^sup>* (at (l3\<lparr>el_pending := []\<rparr>) (Running (el_pending l3)) q1) (at l4 (Running []) q2)"
    using running_steps [of "at (l3\<lparr>el_pending := []\<rparr>) (Running (el_pending l3)) q1" "el_pending l3" body]
    by (simp add: at_simps l4_def q2_def)
  have 7: "loop_step body (at l4 (Running []) q2) (at (l4\<lparr>el_calling := False\<rparr>) AtTest q2)"
    using loop_step.ran [of "at l4 (Running []) q2" body] by (simp add: at_simps)
  have "(loop_step body)\<^sup>*\<^sup>* s (at l1 (Handling []) q1)"
    using 1 2 by (rule converse_rtranclp_into_rtranclp)
  then have "(loop_step body)\<^sup>*\<^sup>* s (at (l3\<lparr>el_pending := []\<rparr>) (Running (el_pending l3)) q1)"
    by (rule loop_step_trans [OF loop_step_trans [OF loop_step_trans]]) (fact 3 4 5)+
  then have "(loop_step body)\<^sup>*\<^sup>* s (at l4 (Running []) q2)" using 6 by (rule rtranclp_trans)
  then have "(loop_step body)\<^sup>*\<^sup>* s (at (l4\<lparr>el_calling := False\<rparr>) AtTest q2)" using 7 by (rule loop_step_trans)
  moreover have "l4\<lparr>el_calling := False\<rparr> = loop_turn body active (ls_loop s)"
    by (simp add: loop_turn_def doPendingFunctors_def Let_def l0_def l1_def l2_def l3_def l4_def)
  ultimately show ?thesis by (auto simp: at_def)
qed

lemma loop_turn_effect:
  defines "tasks \<equiv> \<lambda>active l. el_pending l @ concat (map handler_tasks active)"
  shows "el_done (loop_turn body active l) = el_done l @ tasks active l"
    "el_pending (loop_turn body active l) = concat (map body (tasks active l))"
    "el_pending (loop_turn body active l) \<noteq> [] \<longrightarrow> 0 < el_evfd (loop_turn body active l)"
    "\<not> el_calling (loop_turn body active l)"
proof -
  let ?l2 = "(fold handle_activity active (l\<lparr>el_handling := True\<rparr>))\<lparr>el_handling := False, el_calling := True\<rparr>"
  have turn: "loop_turn body active l = (fold (run_functor body) (tasks active l) (?l2\<lparr>el_pending := []\<rparr>))\<lparr>el_calling := False\<rparr>"
    by (simp add: loop_turn_def doPendingFunctors_def Let_def tasks_def)
  show "el_done (loop_turn body active l) = el_done l @ tasks active l"
    and pend: "el_pending (loop_turn body active l) = concat (map body (tasks active l))"
    and "\<not> el_calling (loop_turn body active l)"
    unfolding turn by simp_all
  show "el_pending (loop_turn body active l) \<noteq> [] \<longrightarrow> 0 < el_evfd (loop_turn body active l)"
    using fold_run_woken [of "?l2\<lparr>el_pending := []\<rparr>" body "tasks active l"] unfolding pend turn
    by (simp del: concat_eq_Nil_conv)
qed

section \<open>Properties\<close>

text \<open>C10: no lost wakeup.  In every state reachable by any interleaving of the loop thread with any
  number of threads that queue tasks or ask the loop to quit, when the loop is blocked in
  \<open>epoll_wait\<close> while tasks are pending or \<open>quit_\<close> is set, then the eventfd is readable or some
  thread is about to make it readable.\<close>

theorem no_lost_wakeup:
  assumes "reachable loop_init (loop_step body) s" "ls_pc s = Polling"
    "el_pending (ls_loop s) \<noteq> [] \<or> el_quit (ls_loop s)"
  shows "0 < el_evfd (ls_loop s) \<or> 0 < ls_waking s"
  using el.inv_reachable [OF assms(1)] assms(2,3) by (auto simp: loop_inv_def woken_def)

definition demo_sys :: "nat eloop \<Rightarrow> nat pc \<Rightarrow> nat \<Rightarrow> nat list \<Rightarrow> nat lsys" where
  "demo_sys l pc w q = \<lparr>ls_loop = l, ls_pc = pc, ls_waking = w, ls_queued = q\<rparr>"

lemma demo_reachable:
  "reachable loop_init (loop_step body) (demo_sys (push_pending 3 (new_EventLoop False)) Polling 1 [3])"
proof -
  have "reachable loop_init (loop_step body) (demo_sys (new_EventLoop False) AtTest 0 [])"
    by (rule reachable_init) (auto simp: loop_init_def demo_sys_def)
  moreover have "loop_step body (demo_sys (new_EventLoop False) AtTest 0 []) (demo_sys (new_EventLoop False) Polling 0 [])"
    using loop_step.test_go [of "demo_sys (new_EventLoop False) AtTest 0 []" body]
    by (simp add: demo_sys_def new_EventLoop_def)
  moreover have "loop_step body (demo_sys (new_EventLoop False) Polling 0 [])
      (demo_sys (push_pending 3 (new_EventLoop False)) Polling 1 [3])"
    using loop_step.other_push [of body "demo_sys (new_EventLoop False) Polling 0 []" 3]
    by (simp add: demo_sys_def)
  ultimately show ?thesis by (blast intro: reachable_step)
qed

theorem no_lost_wakeup_witness:
  "0 < el_evfd (ls_loop (demo_sys (push_pending 3 (new_EventLoop False)) Polling 1 [3]))
    \<or> 0 < ls_waking (demo_sys (push_pending 3 (new_EventLoop False)) Polling 1 [3])"
  using no_lost_wakeup [OF demo_reachable [of "\<lambda>f. []"]] by (simp add: demo_sys_def)

text \<open>C11: tasks run exactly once and in order.  In every reachable state the tasks queued so far, in
  the order of the pushes, are the tasks already run, then those the loop thread has taken, then
  those still pending: none is lost, duplicated or reordered, also when tasks queue tasks.\<close>

theorem tasks_exactly_once:
  assumes "reachable loop_init (loop_step body) s"
  shows "ls_queued s = el_done (ls_loop s) @ in_hand (ls_pc s) @ el_pending (ls_loop s)"
  using el.inv_reachable [OF assms] by (simp add: loop_inv_def)

theorem tasks_exactly_once_witness:
  "[3 :: nat] = el_done (new_EventLoop False) @ in_hand Polling @ el_pending (push_pending 3 (new_EventLoop False))"
  using tasks_exactly_once [OF demo_reachable [of "\<lambda>f. []"]] by (simp add: demo_sys_def new_EventLoop_def)

text \<open>One turn of the loop runs everything that was pending.  Whatever the active channels are, a
  turn runs the tasks pending before it and those the handlers queue, in that order; tasks these
  tasks queue are left pending with the eventfd readable, so the next \<open>epoll_wait\<close> returns at
  once.  The turn is a run of the interleaved system.\<close>

theorem loop_turn_runs_pending:
  assumes "ls_pc s = Polling" "Wakeup_channel \<in> set active \<longrightarrow> 0 < el_evfd (ls_loop s)"
  shows "let l = ls_loop s; l' = loop_turn body active l;
             tasks = el_pending l @ concat (map handler_tasks active)
         in el_done l' = el_done l @ tasks \<and> el_pending l' = concat (map body tasks)
            \<and> (el_pending l' \<noteq> [] \<longrightarrow> 0 < el_evfd l') \<and> \<not> el_calling l'
            \<and> (\<exists>q. (loop_step body)\<^sup>*\<^sup>* s (s\<lparr>ls_loop := l', ls_pc := AtTest, ls_queued := q\<rparr>))"
  using turn_steps [OF assms, of body] loop_turn_effect [of body active "ls_loop s"]
  by (simp add: Let_def)

theorem loop_turn_runs_pending_witness:
  "el_done (loop_turn (\<lambda>f. if f = 3 then [4] else []) [Handler [5 :: nat]] (push_pending 3 (new_EventLoop False))) = [3, 5]"
  using loop_turn_runs_pending [of "demo_sys (push_pending 3 (new_EventLoop False)) Polling 0 [3]"
      "[Handler [5]]" "\<lambda>f. if f = 3 then [4] else []"]
  by (simp add: demo_sys_def Let_def new_EventLoop_def)

section \<open>Tasks are run in time\<close>

text \<open>A run with the number of turns the loop has completed in it: a turn ends when \<open>doPendingFunctors\<close> has run its last task.\<close>

definition turn_ends :: "'f lsys \<Rightarrow> 'f lsys \<Rightarrow> bool" where
  "turn_ends s t \<longleftrightarrow> ls_pc s = Running [] \<and> ls_pc t = AtTest"

inductive turns :: "('f \<Rightarrow> 'f list) \<Rightarrow> 'f lsys \<Rightarrow> nat \<Rightarrow> 'f lsys \<Rightarrow> bool" for body s where
  start: "turns body s 0 s"
| more: "turns body s n t \<Longrightarrow> loop_step body t u \<Longrightarrow> turns body s (if turn_ends t u then Suc n else n) u"

text \<open>Nothing queued is forgotten and nothing done is undone.\<close>

lemma loop_step_grows:
  assumes "loop_step body s t"
  shows "\<exists>q. ls_queued t = ls_queued s @ q" "length (el_done (ls_loop s)) \<le> length (el_done (ls_loop t))"
  using assms by (cases rule: loop_step.cases; simp add: run_one_def loop_handleRead_def)+

text \<open>The first \<open>k\<close> tasks have been taken by the loop thread whenever it runs tasks.\<close>

definition taken :: "nat \<Rightarrow> 'f lsys \<Rightarrow> bool" where
  "taken k s \<longleftrightarrow> (\<forall>fs. ls_pc s = Running fs \<longrightarrow> k \<le> length (el_done (ls_loop s)) + length fs)"

lemma taken_step:
  assumes "loop_inv s" "loop_step body s t" "taken k s" "k \<le> length (ls_queued s)"
  shows "taken k t" "turn_ends s t \<Longrightarrow> k \<le> length (el_done (ls_loop t))"
proof -
  have q: "ls_queued s = el_done (ls_loop s) @ in_hand (ls_pc s) @ el_pending (ls_loop s)" using assms(1) by (simp add: loop_inv_def)
  from assms(2) show "taken k t"
    by (cases rule: loop_step.cases) (use assms(3,4) q in \<open>auto simp: taken_def run_one_def loop_handleRead_def\<close>)
  assume e: "turn_ends s t"
  then have "k \<le> length (el_done (ls_loop s))" using assms(3) by (simp add: taken_def turn_ends_def)
  with loop_step_grows(2) [OF assms(2)] show "k \<le> length (el_done (ls_loop t))" by simp
qed

lemma turn_ends_taken: "turn_ends s t \<Longrightarrow> taken k t"
  by (simp add: turn_ends_def taken_def)

lemma turns_inv:
  assumes "turns body s n t" "loop_inv s"
  shows "loop_inv t \<and> (\<exists>q. ls_queued t = ls_queued s @ q) \<and> (taken (length (ls_queued s)) s \<or> 1 \<le> n \<longrightarrow> taken (length (ls_queued s)) t)
    \<and> (2 \<le> n \<or> taken (length (ls_queued s)) s \<and> 1 \<le> n \<longrightarrow> length (ls_queued s) \<le> length (el_done (ls_loop t)))"
  using assms(1)
proof induction
  case start
  then show ?case using assms(2) by simp
next
  case (more n t u)
  let ?k = "length (ls_queued s)"
  from more.IH have t: "loop_inv t" "?k \<le> length (ls_queued t)" "\<exists>q. ls_queued t = ls_queued s @ q" by auto
  have "loop_inv u" using loop_step_inv [OF t(1) more.hyps(2)] .
  moreover have "\<exists>q. ls_queued u = ls_queued s @ q" using t(3) loop_step_grows(1) [OF more.hyps(2)] by auto
  moreover have "taken ?k u" if "taken ?k t \<or> turn_ends t u"
    using that taken_step(1) [OF t(1) more.hyps(2) _ t(2)] turn_ends_taken by blast
  moreover have "?k \<le> length (el_done (ls_loop u))" if "?k \<le> length (el_done (ls_loop t)) \<or> taken ?k t \<and> turn_ends t u"
    using that taken_step(2) [OF t(1) more.hyps(2) _ t(2)] loop_step_grows(2) [OF more.hyps(2)] by fastforce
  ultimately show ?case using more.IH by (auto split: if_splits)
qed

text \<open>C12: tasks are run in time.  From any reachable state, along any interleaving with other threads, the tasks queued so far have
  all been run, in order, once the loop has completed two turns; when it was not running tasks, one turn is enough.\<close>

theorem tasks_run_in_time:
  assumes "reachable loop_init (loop_step body) s" "turns body s n t" "2 \<le> n \<or> 1 \<le> n \<and> (\<forall>fs. ls_pc s \<noteq> Running fs)"
  shows "\<exists>rest. el_done (ls_loop t) = ls_queued s @ rest"
proof -
  have inv: "loop_inv s" by (rule el.inv_reachable [OF assms(1)])
  have "taken (length (ls_queued s)) s" if "\<forall>fs. ls_pc s \<noteq> Running fs" using that by (simp add: taken_def)
  then have "length (ls_queued s) \<le> length (el_done (ls_loop t))" "loop_inv t" "\<exists>q. ls_queued t = ls_queued s @ q"
    using turns_inv [OF assms(2) inv] assms(3) by auto
  then obtain q where "el_done (ls_loop t) @ in_hand (ls_pc t) @ el_pending (ls_loop t) = ls_queued s @ q"
    "length (ls_queued s) \<le> length (el_done (ls_loop t))" by (auto simp: loop_inv_def)
  from arg_cong [OF this(1), of "take (length (ls_queued s))"] this(2)
  have "take (length (ls_queued s)) (el_done (ls_loop t)) = ls_queued s" by simp
  then show ?thesis by (metis append_take_drop_id)
qed

lemma turns_more:
  "turns body s n t \<Longrightarrow> loop_step body t u \<Longrightarrow> \<not> turn_ends t u \<Longrightarrow> turns body s n u"
  "turns body s n t \<Longrightarrow> loop_step body t u \<Longrightarrow> turn_ends t u \<Longrightarrow> turns body s (Suc n) u"
  using turns.more [of body s n t u] by simp_all

text \<open>A turn with nothing active and one task.\<close>

lemma demo_turn:
  "\<exists>t. turns (\<lambda>_. []) (demo_sys (push_pending 3 (new_EventLoop False)) Polling 1 [3]) 1 t"
proof -
  let ?b = "\<lambda>_ :: nat. [] :: nat list"
  let ?s0 = "demo_sys (push_pending 3 (new_EventLoop False)) Polling 1 [3]"
  let ?s1 = "?s0\<lparr>ls_loop := (ls_loop ?s0)\<lparr>el_handling := True\<rparr>, ls_pc := Handling []\<rparr>"
  let ?s2 = "?s1\<lparr>ls_loop := (ls_loop ?s1)\<lparr>el_handling := False\<rparr>, ls_pc := BeforePending\<rparr>"
  let ?s3 = "?s2\<lparr>ls_loop := (ls_loop ?s2)\<lparr>el_calling := True\<rparr>, ls_pc := BeforeSwap\<rparr>"
  let ?s4 = "?s3\<lparr>ls_loop := (ls_loop ?s3)\<lparr>el_pending := []\<rparr>, ls_pc := Running (el_pending (ls_loop ?s3))\<rparr>"
  let ?s5 = "(run_one ?b 3 ?s4)\<lparr>ls_pc := Running []\<rparr>"
  let ?s6 = "?s5\<lparr>ls_loop := (ls_loop ?s5)\<lparr>el_calling := False\<rparr>, ls_pc := AtTest\<rparr>"
  have "turns ?b ?s0 0 ?s0" by (rule turns.start)
  then have "turns ?b ?s0 0 ?s1" by (rule turns_more(1)) (rule loop_step.poll_returns, simp_all add: demo_sys_def turn_ends_def)
  then have "turns ?b ?s0 0 ?s2" by (rule turns_more(1)) (rule loop_step.handled, simp_all add: turn_ends_def)
  then have "turns ?b ?s0 0 ?s3" by (rule turns_more(1)) (rule loop_step.calling, simp_all add: turn_ends_def)
  then have "turns ?b ?s0 0 ?s4" by (rule turns_more(1)) (rule loop_step.swap, simp_all add: turn_ends_def)
  then have "turns ?b ?s0 0 ?s5"
    by (rule turns_more(1)) (rule loop_step.run, simp_all add: turn_ends_def demo_sys_def new_EventLoop_def)
  then have "turns ?b ?s0 (Suc 0) ?s6" by (rule turns_more(2)) (rule loop_step.ran, simp_all add: turn_ends_def)
  then show ?thesis by auto
qed

theorem tasks_run_in_time_witness:
  "\<exists>t rest. turns (\<lambda>_. []) (demo_sys (push_pending 3 (new_EventLoop False)) Polling 1 [3]) 1 t \<and> el_done (ls_loop t) = 3 # rest"
proof -
  obtain t where t: "turns (\<lambda>_. []) (demo_sys (push_pending 3 (new_EventLoop False)) Polling 1 [3]) 1 t" using demo_turn by blast
  from tasks_run_in_time [OF demo_reachable t] t show ?thesis by (fastforce simp: demo_sys_def)
qed

end
