(* ===== verification/Tcp_Connection.thy ===== *)
theory Tcp_Connection
  imports Net_Buffer Event_Loop
begin

text \<open>
  \<open>src/src/net/tcpConnection.{h,cpp}\<close>: one connection with its channel, its two buffers and
  its state.  The state record also holds what the methods touch outside the object: the loop's
  epoller, the tasks handed to the loop, a trace of callbacks and descriptor operations, and
  the state \<open>'k\<close> of the kernel, which the system calls (a parameter, \<open>syscalls\<close>) read and
  change.  \<open>tc_alive\<close> says whether \<open>loop_.lock()\<close> gives a loop, \<open>tc_inLoop\<close> whether the caller is
  the loop's thread.  The copy of \<open>savedErrno\<close> to \<open>errno\<close> on error paths is not modelled: its
  only use is the text of a log line.
\<close>

section \<open>State\<close>

datatype StateE = kDisconnected | kConnecting | kConnected | kDisconnecting

text \<open>Tasks a connection gives to its loop, with the arguments the closures capture.\<close>

datatype conn_task =
    T_sendInLoop "char list"
  | T_sendFileInLoop int int
  | T_shutdownWriteInLoop
  | T_forceCloseInLoop
  | T_startReadInLoop
  | T_stopReadInLoop
  | T_writeComplete
  | T_connectDestroyed
  | T_removeConnectionInLoop

datatype conn_effect =
    Connection_callback
  | Message_callback
  | Close_callback
  | Socket_error int
  | Close_fd int
  | Shutdown_write int
  | Tcp_no_delay bool
  | Leave_connectSet

record 'k syscalls =
  sk_read :: "'k sys_read"
  sk_pread :: "'k sys_pread"
  sk_write :: "'k \<Rightarrow> int \<Rightarrow> char list \<Rightarrow> wret \<times> 'k"
  sk_sendfile :: "'k \<Rightarrow> int \<Rightarrow> int \<Rightarrow> int \<Rightarrow> wret \<times> 'k"
  sk_close :: "'k \<Rightarrow> int \<Rightarrow> 'k"

record 'k tconn =
  tc_alive :: bool
  tc_inLoop :: bool
  tc_state :: StateE
  tc_reading :: "bool option"
  tc_channel :: channel
  tc_ptr :: nat
  tc_in :: netBuffer
  tc_out :: netBuffer
  tc_hasWriteComplete :: bool
  tc_epoll :: epoller
  tc_queue :: "conn_task list"
  tc_trace :: "conn_effect list"
  tc_kernel :: 'k

text \<open>The callbacks the server sets; what they do to the connection is their value.\<close>

record 'k callbacks =
  cb_message :: "'k tconn \<Rightarrow> 'k tconn outcome"
  cb_close :: "'k tconn \<Rightarrow> 'k tconn outcome"
  cb_writeComplete :: "'k tconn \<Rightarrow> 'k tconn outcome"

text \<open>The constructor leaves \<open>reading_\<close> unset.\<close>

definition new_TcpConnection :: "int \<Rightarrow> nat \<Rightarrow> bool \<Rightarrow> epoller \<Rightarrow> 'k \<Rightarrow> 'k tconn" where
  "new_TcpConnection sockfd ptr hasWC ep k =
     \<lparr>tc_alive = True, tc_inLoop = True, tc_state = kConnecting, tc_reading = None,
      tc_channel = (new_Channel sockfd)\<lparr>ch_hasRead := True, ch_hasWrite := True,
        ch_hasClose := True, ch_hasError := True\<rparr>,
      tc_ptr = ptr, tc_in = new_netBuffer 4096, tc_out = new_netBuffer 4096,
      tc_hasWriteComplete = hasWC, tc_epoll = ep, tc_queue = [], tc_trace = [], tc_kernel = k\<rparr>"

definition tc_fd :: "'k tconn \<Rightarrow> int" where
  "tc_fd c = ch_fd (tc_channel c)"

definition on_channel :: "chan_op \<Rightarrow> 'k tconn \<Rightarrow> 'k tconn" where
  "on_channel opr c =
     (let (ch, ep) = chan_do opr (tc_ptr c) (tc_channel c) (tc_epoll c)
      in c\<lparr>tc_channel := ch, tc_epoll := ep\<rparr>)"

definition note_effect :: "conn_effect \<Rightarrow> 'k tconn \<Rightarrow> 'k tconn" where
  "note_effect x c = c\<lparr>tc_trace := tc_trace c @ [x]\<rparr>"

definition queue_task :: "conn_task \<Rightarrow> 'k tconn \<Rightarrow> 'k tconn" where
  "queue_task t c = c\<lparr>tc_queue := tc_queue c @ [t]\<rparr>"

definition close_fd :: "'k syscalls \<Rightarrow> int \<Rightarrow> 'k tconn \<Rightarrow> 'k tconn" where
  "close_fd sk fd c = (note_effect (Close_fd fd) c)\<lparr>tc_kernel := sk_close sk (tc_kernel c) fd\<rparr>"

text \<open>\<open>auto subLoop = getLoop(); if (!subLoop) return; subLoop->assertInLoopThread();\<close>\<close>

definition in_subLoop :: "'k tconn \<Rightarrow> ('k tconn \<Rightarrow> 'k tconn outcome) \<Rightarrow> 'k tconn outcome" where
  "in_subLoop c body =
     (if \<not> tc_alive c then ok c
      else bind_out (Some (assertInLoopThread (tc_inLoop c))) (\<lambda>_. body c))"

text \<open>\<open>runInLoop\<close>: at once in the loop's thread, otherwise queued.\<close>

definition run_task :: "conn_task \<Rightarrow> ('k tconn \<Rightarrow> 'k tconn outcome) \<Rightarrow> 'k tconn \<Rightarrow> 'k tconn outcome" where
  "run_task t act c =
     (if \<not> tc_alive c then ok c else if tc_inLoop c then act c else ok (queue_task t c))"

section \<open>Closing\<close>

definition shutdownWriteInLoop :: "'k tconn \<Rightarrow> 'k tconn outcome" where
  "shutdownWriteInLoop c = in_subLoop c (\<lambda>c.
     ok (if \<not> isWriting (tc_channel c) then note_effect (Shutdown_write (tc_fd c)) c else c))"

definition shutdown :: "'k tconn \<Rightarrow> 'k tconn outcome" where
  "shutdown c =
     (if tc_state c = kConnected
      then run_task T_shutdownWriteInLoop shutdownWriteInLoop (c\<lparr>tc_state := kDisconnecting\<rparr>)
      else ok c)"

definition forceClose :: "'k tconn \<Rightarrow> 'k tconn outcome" where
  "forceClose c =
     (if tc_state c = kConnected \<or> tc_state c = kDisconnecting
      then let c1 = c\<lparr>tc_state := kDisconnecting\<rparr> in
           ok (if tc_alive c1 then queue_task T_forceCloseInLoop c1 else c1)
      else ok c)"

definition handleClose :: "'k callbacks \<Rightarrow> 'k tconn \<Rightarrow> 'k tconn outcome" where
  "handleClose cb c = in_subLoop c (\<lambda>c.
     bind_out (Some (cassert (tc_state c = kConnected \<or> tc_state c = kDisconnecting))) (\<lambda>_.
       let c1 = on_channel DisableAll (c\<lparr>tc_state := kDisconnected\<rparr>)
       in cb_close cb (note_effect Close_callback c1)))"

definition forceCloseInLoop :: "'k callbacks \<Rightarrow> 'k tconn \<Rightarrow> 'k tconn outcome" where
  "forceCloseInLoop cb c = in_subLoop c (\<lambda>c.
     if tc_state c = kConnected \<or> tc_state c = kDisconnecting then handleClose cb c else ok c)"

definition handleError :: "'k tconn \<Rightarrow> 'k tconn outcome" where
  "handleError c = ok (note_effect (Socket_error (tc_fd c)) c)"

section \<open>Reading\<close>

definition handleRead :: "'k syscalls \<Rightarrow> 'k callbacks \<Rightarrow> 'k tconn \<Rightarrow> 'k tconn outcome" where
  "handleRead sk cb c = in_subLoop c (\<lambda>c.
     bind_out (readFd (sk_read sk) (sk_pread sk) (tc_fd c) 0 (tc_kernel c) (tc_in c)) (\<lambda>out.
       let c1 = c\<lparr>tc_in := rf_buf out, tc_kernel := rf_kernel out\<rparr> in
       if rf_closed out then handleClose cb c1
       else if rf_ret out > 0 then cb_message cb (note_effect Message_callback c1)
       else handleError c1))"

definition startReadInLoop :: "'k tconn \<Rightarrow> 'k tconn outcome" where
  "startReadInLoop c = in_subLoop c (\<lambda>c.
     case tc_reading c of
       None \<Rightarrow> Some (Inl Uninit_read)
     | Some rd \<Rightarrow> ok (if \<not> rd \<or> \<not> isReading (tc_channel c)
                      then (on_channel EnableReading c)\<lparr>tc_reading := Some True\<rparr> else c))"

definition stopReadInLoop :: "'k tconn \<Rightarrow> 'k tconn outcome" where
  "stopReadInLoop c = in_subLoop c (\<lambda>c.
     case tc_reading c of
       None \<Rightarrow> Some (Inl Uninit_read)
     | Some rd \<Rightarrow> ok (if rd \<or> isReading (tc_channel c)
                      then (on_channel DisableReading c)\<lparr>tc_reading := Some False\<rparr> else c))"

definition startRead :: "'k tconn \<Rightarrow> 'k tconn outcome" where
  "startRead c = run_task T_startReadInLoop startReadInLoop c"

definition stopRead :: "'k tconn \<Rightarrow> 'k tconn outcome" where
  "stopRead c = run_task T_stopReadInLoop stopReadInLoop c"

section \<open>Writing\<close>

text \<open>\<open>sendInLoop\<close> in its three parts.  The request is a message (never \<open>NULL\<close>) or a file; the
  first write is tried only when nothing waits in the output buffer.\<close>

datatype out_request = Message "char list" | File int int

fun req_len :: "out_request \<Rightarrow> int" where
  "req_len (Message bs) = int (length bs)"
| "req_len (File fd sz) = 0"

fun req_fd :: "out_request \<Rightarrow> int" where
  "req_fd (Message bs) = - 1"
| "req_fd (File fd sz) = fd"

text \<open>\<open>!message && !len && sendFileFd\<close>; without that, \<open>write\<close> is called with the (possibly null)
  message and its length.\<close>

fun file_mode :: "out_request \<Rightarrow> bool" where
  "file_mode (Message bs) = False"
| "file_mode (File fd sz) = (fd \<noteq> 0)"

definition first_write :: "'k syscalls \<Rightarrow> out_request \<Rightarrow> 'k tconn \<Rightarrow> wret \<times> 'k" where
  "first_write sk req c =
     (case req of
        Message bs \<Rightarrow> sk_write sk (tc_kernel c) (tc_fd c) bs
      | File fd sz \<Rightarrow>
          if file_mode req then sk_sendfile sk (tc_kernel c) (tc_fd c) fd sz
          else sk_write sk (tc_kernel c) (tc_fd c) [])"

text \<open>After a first write: the bytes written, those remaining, whether the error is fatal, and the
  connection (\<open>writeCompleteCallback_\<close> queued, the file closed).\<close>

definition after_write ::
    "'k syscalls \<Rightarrow> out_request \<Rightarrow> wret \<times> 'k \<Rightarrow> 'k tconn \<Rightarrow> int \<times> int \<times> bool \<times> 'k tconn" where
  "after_write sk req r c =
     (let c1 = c\<lparr>tc_kernel := snd r\<rparr> in
      case fst r of
        Wrote n \<Rightarrow>
          let remaining = (case req of
                Message bs \<Rightarrow> to_size_t (int (length bs) - int n)
              | File fd sz \<Rightarrow> to_size_t ((if file_mode req then sz else 0) - int n));
              c2 = (if remaining = 0 \<and> tc_hasWriteComplete c1 then queue_task T_writeComplete c1 else c1)
          in (int n, remaining, False, close_fd sk (req_fd req) c2)
      | WFail e \<Rightarrow> (0, req_len req, e = EPIPE \<or> e = ECONNRESET, c1))"

text \<open>What was not written goes to the output buffer (a null message with bytes remaining would be
  read through).\<close>

definition keep_rest :: "'k syscalls \<Rightarrow> out_request \<Rightarrow> int \<Rightarrow> 'k tconn \<Rightarrow> 'k tconn outcome" where
  "keep_rest sk req nwrote c =
     bind_out
       (case req of
          Message bs \<Rightarrow> bind_out (Some (append_nb (tc_out c) (drop (nat nwrote) bs))) (\<lambda>b. ok (c\<lparr>tc_out := b\<rparr>))
        | File fd sz \<Rightarrow>
            if file_mode req
            then bind_out (readFd (sk_read sk) (sk_pread sk) fd nwrote (tc_kernel c) (tc_out c)) (\<lambda>out.
                   ok (close_fd sk fd (c\<lparr>tc_out := rf_buf out, tc_kernel := rf_kernel out\<rparr>)))
            else Some (Inl Out_of_bounds))
       (\<lambda>c1. ok (if \<not> isWriting (tc_channel c1) then on_channel EnableWriting c1 else c1))"

definition sendInLoop :: "'k syscalls \<Rightarrow> out_request \<Rightarrow> 'k tconn \<Rightarrow> 'k tconn outcome" where
  "sendInLoop sk req c = in_subLoop c (\<lambda>c.
     if tc_state c = kDisconnected then ok c
     else
       let (nwrote, remaining, faultError, c1) =
             (if \<not> isWriting (tc_channel c) \<and> readable (tc_out c) = 0
              then after_write sk req (first_write sk req c) c
              else (0, req_len req, False, c))
       in bind_out (Some (cassert (case req of Message bs \<Rightarrow> remaining \<le> int (length bs) | File _ _ \<Rightarrow> True))) (\<lambda>_.
          if \<not> faultError \<and> remaining > 0 then keep_rest sk req nwrote c1 else ok c1))"

definition send :: "'k syscalls \<Rightarrow> char list \<Rightarrow> 'k tconn \<Rightarrow> 'k tconn outcome" where
  "send sk bs c =
     (if tc_state c = kConnected then run_task (T_sendInLoop bs) (sendInLoop sk (Message bs)) c else ok c)"

definition sendFile :: "'k syscalls \<Rightarrow> int \<Rightarrow> int \<Rightarrow> 'k tconn \<Rightarrow> 'k tconn outcome" where
  "sendFile sk fd fileSize c =
     (if fd < 0 then ok c
      else if tc_state c = kConnected
      then run_task (T_sendFileInLoop fd fileSize) (sendInLoop sk (File fd fileSize)) c else ok c)"

definition handleWrite :: "'k syscalls \<Rightarrow> 'k tconn \<Rightarrow> 'k tconn outcome" where
  "handleWrite sk c = in_subLoop c (\<lambda>c.
     if isWriting (tc_channel c)
     then bind_out (Some (read_bytes (tc_out c) (readable (tc_out c)))) (\<lambda>bs.
       let (r, k) = sk_write sk (tc_kernel c) (tc_fd c) bs; c1 = c\<lparr>tc_kernel := k\<rparr> in
       case r of
         Wrote n \<Rightarrow>
           if n > 0 then bind_out (Some (retrieve (tc_out c1) (int n))) (\<lambda>b.
             let c2 = c1\<lparr>tc_out := b\<rparr> in
             if readable (tc_out c2) = 0
             then let c3 = on_channel DisableWriting c2;
                      c4 = (if tc_hasWriteComplete c3 then queue_task T_writeComplete c3 else c3)
                  in if tc_state c4 = kDisconnecting then shutdownWriteInLoop c4 else ok c4
             else ok c2)
           else ok c1
       | WFail e \<Rightarrow> ok c1)
     else ok c)"

section \<open>Establishing and destroying\<close>

definition setTcpNoDelay :: "bool \<Rightarrow> 'k tconn \<Rightarrow> 'k tconn outcome" where
  "setTcpNoDelay on c = ok (note_effect (Tcp_no_delay on) c)"

definition connectEstablished :: "'k tconn \<Rightarrow> 'k tconn outcome" where
  "connectEstablished c = in_subLoop c (\<lambda>c.
     bind_out (Some (cassert (tc_state c = kConnecting))) (\<lambda>_.
       ok (note_effect Connection_callback (on_channel EnableReading (c\<lparr>tc_state := kConnected\<rparr>)))))"

definition connectDestroyed :: "'k tconn \<Rightarrow> 'k tconn outcome" where
  "connectDestroyed c = in_subLoop c (\<lambda>c.
     let c1 = (if tc_state c = kConnected
               then note_effect Connection_callback (on_channel DisableAll (c\<lparr>tc_state := kDisconnected\<rparr>))
               else c)
     in ok (on_channel Remove c1))"

text \<open>The close callback \<open>TcpServer\<close> installs: leave the loop's connection set and destroy the
  connection in the loop's next round of tasks.  \<open>rmConnect\<close> is a \<open>runInLoop\<close> from the loop's
  thread.\<close>

definition removeConnectionInLoop :: "'k tconn \<Rightarrow> 'k tconn outcome" where
  "removeConnectionInLoop c = in_subLoop c (\<lambda>c.
     ok (note_effect Leave_connectSet (queue_task T_connectDestroyed c)))"

definition removeConnection :: "'k tconn \<Rightarrow> 'k tconn outcome" where
  "removeConnection c = run_task T_removeConnectionInLoop removeConnectionInLoop c"

text \<open>The destructor's assertion.\<close>

definition destroy_TcpConnection :: "'k tconn \<Rightarrow> unit result" where
  "destroy_TcpConnection c = cassert (tc_state c = kDisconnected)"

text \<open>\<open>Channel::handleEvent\<close> with the connection's four callbacks.\<close>

fun run_callback :: "'k syscalls \<Rightarrow> 'k callbacks \<Rightarrow> callback \<Rightarrow> 'k tconn \<Rightarrow> 'k tconn outcome" where
  "run_callback sk cb CloseCallback c = handleClose cb c"
| "run_callback sk cb ErrorCallback c = handleError c"
| "run_callback sk cb ReadCallback c = handleRead sk cb c"
| "run_callback sk cb WriteCallback c = handleWrite sk c"

fun run_callbacks :: "'k syscalls \<Rightarrow> 'k callbacks \<Rightarrow> callback list \<Rightarrow> 'k tconn \<Rightarrow> 'k tconn outcome" where
  "run_callbacks sk cb [] c = ok c"
| "run_callbacks sk cb (x # xs) c = bind_out (run_callback sk cb x c) (run_callbacks sk cb xs)"

definition conn_event :: "'k syscalls \<Rightarrow> 'k callbacks \<Rightarrow> events \<Rightarrow> 'k tconn \<Rightarrow> 'k tconn outcome" where
  "conn_event sk cb ev c =
     (let c1 = c\<lparr>tc_channel := (tc_channel c)\<lparr>ch_revents := ev\<rparr>\<rparr>
      in run_callbacks sk cb (handleEvent (tc_channel c1)) c1)"

text \<open>A queued task when the loop runs it.\<close>

fun run_conn_task :: "'k syscalls \<Rightarrow> 'k callbacks \<Rightarrow> conn_task \<Rightarrow> 'k tconn \<Rightarrow> 'k tconn outcome" where
  "run_conn_task sk cb (T_sendInLoop bs) c = sendInLoop sk (Message bs) c"
| "run_conn_task sk cb (T_sendFileInLoop fd sz) c = sendInLoop sk (File fd sz) c"
| "run_conn_task sk cb T_shutdownWriteInLoop c = shutdownWriteInLoop c"
| "run_conn_task sk cb T_forceCloseInLoop c = forceCloseInLoop cb c"
| "run_conn_task sk cb T_startReadInLoop c = startReadInLoop c"
| "run_conn_task sk cb T_stopReadInLoop c = stopReadInLoop c"
| "run_conn_task sk cb T_writeComplete c = cb_writeComplete cb c"
| "run_conn_task sk cb T_connectDestroyed c = connectDestroyed c"
| "run_conn_task sk cb T_removeConnectionInLoop c = removeConnectionInLoop c"

section \<open>All operations\<close>

datatype conn_op =
    Do_established
  | Do_event events
  | Do_task conn_task
  | Do_send "char list"
  | Do_sendFile int int
  | Do_shutdown
  | Do_forceClose
  | Do_startRead
  | Do_stopRead
  | Do_noDelay bool

fun conn_do :: "'k syscalls \<Rightarrow> 'k callbacks \<Rightarrow> conn_op \<Rightarrow> 'k tconn \<Rightarrow> 'k tconn outcome" where
  "conn_do sk cb Do_established c = connectEstablished c"
| "conn_do sk cb (Do_event ev) c = conn_event sk cb ev c"
| "conn_do sk cb (Do_task t) c = run_conn_task sk cb t c"
| "conn_do sk cb (Do_send bs) c = send sk bs c"
| "conn_do sk cb (Do_sendFile fd sz) c = sendFile sk fd sz c"
| "conn_do sk cb Do_shutdown c = shutdown c"
| "conn_do sk cb Do_forceClose c = forceClose c"
| "conn_do sk cb Do_startRead c = startRead c"
| "conn_do sk cb Do_stopRead c = stopRead c"
| "conn_do sk cb (Do_noDelay on) c = setTcpNoDelay on c"

text \<open>Any operation, from the loop's thread or from another one.\<close>

inductive conn_step :: "'k syscalls \<Rightarrow> 'k callbacks \<Rightarrow> 'k tconn \<Rightarrow> 'k tconn \<Rightarrow> bool" for sk cb where
  conn_op: "conn_do sk cb opr (c\<lparr>tc_inLoop := b\<rparr>) = ok c' \<Longrightarrow> conn_step sk cb c c'"

inductive_cases conn_stepE: "conn_step sk cb c c'"

definition conn_init :: "'k tconn \<Rightarrow> bool" where
  "conn_init c \<longleftrightarrow> (\<exists>fd ptr hasWC ep k. c = new_TcpConnection fd ptr hasWC ep k)"

section \<open>Frame lemmas\<close>

lemma on_channel_simps [simp]:
  "tc_alive (on_channel opr c) = tc_alive c" "tc_inLoop (on_channel opr c) = tc_inLoop c"
  "tc_state (on_channel opr c) = tc_state c" "tc_reading (on_channel opr c) = tc_reading c"
  "tc_ptr (on_channel opr c) = tc_ptr c" "tc_in (on_channel opr c) = tc_in c"
  "tc_out (on_channel opr c) = tc_out c" "tc_hasWriteComplete (on_channel opr c) = tc_hasWriteComplete c"
  "tc_queue (on_channel opr c) = tc_queue c" "tc_trace (on_channel opr c) = tc_trace c"
  "tc_kernel (on_channel opr c) = tc_kernel c" "tc_fd (on_channel opr c) = tc_fd c"
  by (simp_all add: on_channel_def tc_fd_def split: prod.splits) (metis chan_do_fd fst_conv)

lemma note_effect_simps [simp]:
  "tc_alive (note_effect x c) = tc_alive c" "tc_inLoop (note_effect x c) = tc_inLoop c"
  "tc_state (note_effect x c) = tc_state c" "tc_channel (note_effect x c) = tc_channel c"
  "tc_in (note_effect x c) = tc_in c" "tc_out (note_effect x c) = tc_out c"
  "tc_hasWriteComplete (note_effect x c) = tc_hasWriteComplete c" "tc_queue (note_effect x c) = tc_queue c"
  "tc_trace (note_effect x c) = tc_trace c @ [x]" "tc_kernel (note_effect x c) = tc_kernel c"
  "tc_fd (note_effect x c) = tc_fd c" "tc_reading (note_effect x c) = tc_reading c"
  by (simp_all add: note_effect_def tc_fd_def)

lemma queue_task_simps [simp]:
  "tc_alive (queue_task t c) = tc_alive c" "tc_inLoop (queue_task t c) = tc_inLoop c"
  "tc_state (queue_task t c) = tc_state c" "tc_channel (queue_task t c) = tc_channel c"
  "tc_in (queue_task t c) = tc_in c" "tc_out (queue_task t c) = tc_out c"
  "tc_hasWriteComplete (queue_task t c) = tc_hasWriteComplete c" "tc_queue (queue_task t c) = tc_queue c @ [t]"
  "tc_trace (queue_task t c) = tc_trace c" "tc_kernel (queue_task t c) = tc_kernel c"
  "tc_fd (queue_task t c) = tc_fd c" "tc_reading (queue_task t c) = tc_reading c"
  "tc_epoll (queue_task t c) = tc_epoll c"
  by (simp_all add: queue_task_def tc_fd_def)

lemma close_fd_simps [simp]:
  "tc_alive (close_fd sk fd c) = tc_alive c" "tc_inLoop (close_fd sk fd c) = tc_inLoop c"
  "tc_state (close_fd sk fd c) = tc_state c" "tc_channel (close_fd sk fd c) = tc_channel c"
  "tc_in (close_fd sk fd c) = tc_in c" "tc_out (close_fd sk fd c) = tc_out c"
  "tc_hasWriteComplete (close_fd sk fd c) = tc_hasWriteComplete c" "tc_queue (close_fd sk fd c) = tc_queue c"
  "tc_trace (close_fd sk fd c) = tc_trace c @ [Close_fd fd]"
  "tc_kernel (close_fd sk fd c) = sk_close sk (tc_kernel c) fd"
  "tc_fd (close_fd sk fd c) = tc_fd c" "tc_reading (close_fd sk fd c) = tc_reading c"
  by (simp_all add: close_fd_def tc_fd_def)

lemma in_subLoop_live [simp]: "tc_alive c \<Longrightarrow> tc_inLoop c \<Longrightarrow> in_subLoop c body = body c"
  by (simp add: in_subLoop_def assertInLoopThread_def)

lemma in_subLoop_ok:
  assumes "in_subLoop c body = ok c'"
  shows "c' = c \<or> tc_alive c \<and> tc_inLoop c \<and> body c = ok c'"
  using assms by (auto simp: in_subLoop_def assertInLoopThread_def split: if_splits)

definition mask_ok :: "channel \<Rightarrow> bool" where
  "mask_ok ch \<longleftrightarrow> (\<exists>rd wr. ch_events ch = mask_of rd wr)"

lemma on_channel_flags:
  assumes "mask_ok (tc_channel c)" "opr \<noteq> Remove"
  shows "mask_ok (tc_channel (on_channel opr c))"
    "isReading (tc_channel (on_channel opr c)) =
       fst (flags_spec opr (isReading (tc_channel c), isWriting (tc_channel c)))"
    "isWriting (tc_channel (on_channel opr c)) =
       snd (flags_spec opr (isReading (tc_channel c), isWriting (tc_channel c)))"
proof -
  from assms(1) obtain rd wr where m: "ch_events (tc_channel c) = mask_of rd wr" by (auto simp: mask_ok_def)
  have "ch_events (tc_channel (on_channel opr c)) = case_prod mask_of (flags_spec opr (rd, wr))"
    using mask_set [OF m, of opr] chan_do_events [OF assms(2), of "tc_ptr c" "tc_channel c" "tc_epoll c"]
    by (cases "chan_do opr (tc_ptr c) (tc_channel c) (tc_epoll c)") (auto simp: on_channel_def)
  then have e: "ch_events (tc_channel (on_channel opr c)) =
      mask_of (fst (flags_spec opr (rd, wr))) (snd (flags_spec opr (rd, wr)))"
    by (simp add: case_prod_beta)
  have "isReading (tc_channel c) = rd" "isWriting (tc_channel c) = wr"
    using m by (simp_all add: isReading_def isWriting_def mask_read mask_write)
  with e show "mask_ok (tc_channel (on_channel opr c))"
    "isReading (tc_channel (on_channel opr c)) =
       fst (flags_spec opr (isReading (tc_channel c), isWriting (tc_channel c)))"
    "isWriting (tc_channel (on_channel opr c)) =
       snd (flags_spec opr (isReading (tc_channel c), isWriting (tc_channel c)))"
    by (auto simp: mask_ok_def isReading_def isWriting_def mask_read mask_write)
qed

lemma on_channel_Remove:
  "ch_events (tc_channel (on_channel Remove c)) = ch_events (tc_channel c)"
  by (simp add: on_channel_def chan_do_def removeChannel_def Let_def)

section \<open>The outgoing byte stream\<close>

text \<open>What \<open>write\<close> does, as \<open>write(2)\<close> documents it for one descriptor: it takes a prefix of the
  bytes, possibly all, or fails and takes none; closing descriptors takes no bytes back.\<close>

definition write_contract :: "'k syscalls \<Rightarrow> int \<Rightarrow> ('k \<Rightarrow> char list) \<Rightarrow> bool" where
  "write_contract sk fd sent \<longleftrightarrow>
     (\<forall>k bs. case sk_write sk k fd bs of
        (Wrote n, k') \<Rightarrow> n \<le> length bs \<and> sent k' = sent k @ take n bs
      | (WFail e, k') \<Rightarrow> sent k' = sent k) \<and>
     (\<forall>k f. sent (sk_close sk k f) = sent k)"

definition wire :: "('k \<Rightarrow> char list) \<Rightarrow> 'k tconn \<Rightarrow> char list" where
  "wire sent c = sent (tc_kernel c) @ nb_bytes (tc_out c)"

text \<open>Between operations: both buffers are valid, the event mask is one of the four combinations,
  and bytes that wait are waited for.\<close>

definition conn_inv :: "'k tconn \<Rightarrow> bool" where
  "conn_inv c \<longleftrightarrow> nb_inv (tc_in c) \<and> nb_inv (tc_out c) \<and> mask_ok (tc_channel c)
     \<and> (nb_bytes (tc_out c) \<noteq> [] \<longrightarrow> isWriting (tc_channel c) \<or> tc_state c = kDisconnected)"

lemma readable_zero: "nb_inv b \<Longrightarrow> readable b = 0 \<longleftrightarrow> nb_bytes b = []"
  using length_nb_bytes [OF nb_inv_wf, of b] by auto

definition cut_off :: "'k syscalls \<Rightarrow> char list \<Rightarrow> 'k tconn \<Rightarrow> bool" where
  "cut_off sk bs c \<longleftrightarrow> \<not> isWriting (tc_channel c) \<and> nb_bytes (tc_out c) = [] \<and>
     (fst (sk_write sk (tc_kernel c) (tc_fd c) bs) = WFail EPIPE \<or>
      fst (sk_write sk (tc_kernel c) (tc_fd c) bs) = WFail ECONNRESET)"

definition same_conn :: "'k tconn \<Rightarrow> 'k tconn \<Rightarrow> bool" where
  "same_conn c c' \<longleftrightarrow> tc_state c' = tc_state c \<and> tc_in c' = tc_in c \<and> tc_fd c' = tc_fd c
     \<and> tc_alive c' = tc_alive c \<and> tc_inLoop c' = tc_inLoop c"

lemma tc_fd_update [simp]: "tc_fd (c\<lparr>tc_out := b\<rparr>) = tc_fd c" "tc_fd (c\<lparr>tc_kernel := k\<rparr>) = tc_fd c"
  "tc_fd (c\<lparr>tc_in := b\<rparr>) = tc_fd c" "tc_fd (c\<lparr>tc_state := st\<rparr>) = tc_fd c"
  by (simp_all add: tc_fd_def)

lemma keep_rest_message:
  assumes "conn_inv c" "tc_state c \<noteq> kDisconnected" "n \<le> length bs"
    "int (length (nb_bytes (tc_out c))) + int (length bs) < 2 ^ 30"
  shows "\<exists>c'. keep_rest sk (Message bs) (int n) c = ok c' \<and> conn_inv c' \<and> same_conn c c'
    \<and> isWriting (tc_channel c') \<and> tc_kernel c' = tc_kernel c
    \<and> nb_bytes (tc_out c') = nb_bytes (tc_out c) @ drop n bs"
proof -
  obtain b where b: "append_nb (tc_out c) (drop n bs) = Inr b" "nb_inv b"
    "nb_bytes b = nb_bytes (tc_out c) @ drop n bs"
    using nbq.put_ok [of "tc_out c" "drop n bs"] assms by (auto simp: conn_inv_def)
  let ?c1 = "c\<lparr>tc_out := b\<rparr>"
  have m: "mask_ok (tc_channel ?c1)" using assms(1) by (simp add: conn_inv_def)
  show ?thesis
  proof (cases "isWriting (tc_channel c)")
    case True
    with b m assms(1) show ?thesis by (simp add: keep_rest_def conn_inv_def same_conn_def)
  next
    case False
    with b assms(1) on_channel_flags [OF m, of EnableWriting] show ?thesis
      by (simp add: keep_rest_def conn_inv_def same_conn_def)
  qed
qed

lemma sendInLoop_message:
  assumes "write_contract sk (tc_fd c) sent" "conn_inv c" "tc_alive c" "tc_inLoop c"
    "tc_state c \<noteq> kDisconnected" "int (length (nb_bytes (tc_out c))) + int (length bs) < 2 ^ 30"
  shows "\<exists>c'. sendInLoop sk (Message bs) c = ok c' \<and> conn_inv c' \<and> same_conn c c'
    \<and> wire sent c' = wire sent c @ (if cut_off sk bs c then [] else bs)
    \<and> length (nb_bytes (tc_out c')) \<le> length (nb_bytes (tc_out c)) + length bs"
proof (cases "\<not> isWriting (tc_channel c) \<and> readable (tc_out c) = 0")
  case False
  then have "isWriting (tc_channel c)"
    using assms(2,5) readable_zero [of "tc_out c"] by (auto simp: conn_inv_def)
  moreover obtain c' where "keep_rest sk (Message bs) 0 c = ok c'" "conn_inv c'" "same_conn c c'"
    "tc_kernel c' = tc_kernel c" "nb_bytes (tc_out c') = nb_bytes (tc_out c) @ bs"
    using keep_rest_message [OF assms(2,5), of 0 bs sk] assms(6) by auto
  ultimately show ?thesis
    using False assms by (cases "bs = []") (auto simp: sendInLoop_def wire_def cut_off_def same_conn_def)
next
  case True
  obtain r k where w: "sk_write sk (tc_kernel c) (tc_fd c) bs = (r, k)" by fastforce
  have empty: "nb_bytes (tc_out c) = []" using True assms(2) readable_zero by (auto simp: conn_inv_def)
  have fits: "int (length bs) \<le> INT_MAX" using assms(6) by (simp add: INT_MAX_def)
  have closes: "sent (sk_close sk k' f) = sent k'" for k' f
    using assms(1) by (simp add: write_contract_def)
  show ?thesis
  proof (cases r)
    case (WFail e)
    have sk': "sent k = sent (tc_kernel c)"
      using assms(1) w WFail unfolding write_contract_def by (metis (mono_tags, lifting) case_prod_conv wret.simps(6))
    let ?c1 = "c\<lparr>tc_kernel := k\<rparr>"
    have inv1: "conn_inv ?c1" using assms(2) by (simp add: conn_inv_def)
    obtain c' where k': "keep_rest sk (Message bs) 0 ?c1 = ok c'" "conn_inv c'" "same_conn ?c1 c'"
      "tc_kernel c' = k" "nb_bytes (tc_out c') = bs"
      using keep_rest_message [OF inv1, of 0 bs sk] assms(5,6) empty by auto
    show ?thesis
      using True assms(3-5) w WFail sk' k' inv1 empty
      by (cases "bs = []") (auto simp: sendInLoop_def first_write_def after_write_def Let_def wire_def cut_off_def same_conn_def)
  next
    case (Wrote n)
    have n: "n \<le> length bs" "sent k = sent (tc_kernel c) @ take n bs"
      using assms(1) w Wrote unfolding write_contract_def
      by (metis (mono_tags, lifting) case_prod_conv wret.simps(5))+
    let ?c1 = "c\<lparr>tc_kernel := k\<rparr>"
    define c2 where "c2 = close_fd sk (- 1) (if int (length bs) - int n = 0 \<and> tc_hasWriteComplete ?c1
      then queue_task T_writeComplete ?c1 else ?c1)"
    have c2: "tc_out c2 = tc_out c" "tc_in c2 = tc_in c" "tc_channel c2 = tc_channel c" "same_conn c c2"
      by (simp_all add: c2_def same_conn_def)
    have st2: "tc_state c2 = tc_state c" using c2 by (simp add: same_conn_def)
    have inv2: "conn_inv c2" using assms(2) c2 by (simp add: conn_inv_def same_conn_def)
    have sent2: "sent (tc_kernel c2) = sent (tc_kernel c) @ take n bs" using n(2) closes by (simp add: c2_def)
    have rem: "to_size_t (int (length bs) - int n) = int (length bs) - int n"
      using n(1) fits by (intro to_size_t_id) simp_all
    have send: "sendInLoop sk (Message bs) c = (if n < length bs then keep_rest sk (Message bs) (int n) c2 else ok c2)"
      using True assms(3-5) w Wrote n(1) rem
      by (simp add: sendInLoop_def first_write_def after_write_def Let_def c2_def)
    have nocut: "\<not> cut_off sk bs c" using w Wrote by (simp add: cut_off_def)
    show ?thesis
    proof (cases "n < length bs")
      case True
      obtain c' where "keep_rest sk (Message bs) (int n) c2 = ok c'" "conn_inv c'" "same_conn c2 c'"
        "tc_kernel c' = tc_kernel c2" "nb_bytes (tc_out c') = drop n bs"
        using keep_rest_message [OF inv2, of n bs sk] assms(5,6) empty n(1) c2 st2 by auto
      with send True sent2 nocut empty c2 show ?thesis by (simp add: wire_def same_conn_def)
    next
      case False
      with send inv2 sent2 nocut empty n(1) c2 show ?thesis by (simp add: wire_def same_conn_def)
    qed
  qed
qed

lemma handleWrite_ok:
  assumes "write_contract sk (tc_fd c) sent" "conn_inv c" "tc_alive c" "tc_inLoop c"
  shows "\<exists>c'. handleWrite sk c = ok c' \<and> conn_inv c' \<and> tc_state c' = tc_state c \<and> wire sent c' = wire sent c
    \<and> (tc_trace c' = tc_trace c \<or> tc_trace c' = tc_trace c @ [Shutdown_write (tc_fd c)]
        \<and> nb_bytes (tc_out c') = [] \<and> tc_state c = kDisconnecting)
    \<and> (isWriting (tc_channel c') \<longrightarrow> isWriting (tc_channel c) \<and> tc_trace c' = tc_trace c)"
proof (cases "isWriting (tc_channel c)")
  case False
  with assms show ?thesis by (simp add: handleWrite_def)
next
  case W: True
  let ?o = "tc_out c"
  have inv: "nb_inv ?o" using assms(2) by (simp add: conn_inv_def)
  have len: "readable ?o = int (length (nb_bytes ?o))" using length_nb_bytes [OF nb_inv_wf [OF inv]] by simp
  have rb: "read_bytes ?o (readable ?o) = Inr (nb_bytes ?o)"
    using read_bytes_ok [OF inv, of "readable ?o"] len by simp
  obtain r k where w: "sk_write sk (tc_kernel c) (tc_fd c) (nb_bytes ?o) = (r, k)" by fastforce
  let ?c1 = "c\<lparr>tc_kernel := k\<rparr>"
  have inv1: "conn_inv ?c1" using assms(2) by (simp add: conn_inv_def)
  show ?thesis
  proof (cases r)
    case (WFail e)
    have "sent k = sent (tc_kernel c)"
      using assms(1) w WFail unfolding write_contract_def by (metis (mono_tags, lifting) case_prod_conv wret.simps(6))
    with W rb w WFail inv1 assms(3,4) show ?thesis by (simp add: handleWrite_def wire_def)
  next
    case (Wrote n)
    have n: "n \<le> length (nb_bytes ?o)" "sent k = sent (tc_kernel c) @ take n (nb_bytes ?o)"
      using assms(1) w Wrote unfolding write_contract_def
      by (metis (mono_tags, lifting) case_prod_conv wret.simps(5))+
    obtain b where b: "retrieve ?o (int n) = Inr b" "nb_inv b" "nb_bytes b = drop n (nb_bytes ?o)"
      using nbq.get_ok [OF inv n(1)] by auto
    define c2 where "c2 = ?c1\<lparr>tc_out := b\<rparr>"
    have wire2: "wire sent c2 = wire sent c" using n(2) b(3) by (simp add: wire_def c2_def)
    have m2: "mask_ok (tc_channel c2)" and inv2: "conn_inv c2"
      using inv1 b W by (simp_all add: conn_inv_def c2_def)
    show ?thesis
    proof (cases "n > 0 \<and> readable b = 0")
      case False
      with W rb w Wrote b inv1 inv2 wire2 n assms(3,4) show ?thesis
        by (cases "n = 0") (simp_all add: handleWrite_def c2_def wire_def)
    next
      case True
      have e: "nb_bytes b = []" using True readable_zero [OF b(2)] by simp
      define c3 where "c3 = on_channel DisableWriting c2"
      have c3: "\<not> isWriting (tc_channel c3)" "mask_ok (tc_channel c3)"
        using on_channel_flags [OF m2, of DisableWriting] by (simp_all add: c3_def)
      define c4 where "c4 = (if tc_hasWriteComplete c3 then queue_task T_writeComplete c3 else c3)"
      have c4: "tc_channel c4 = tc_channel c3" "tc_out c4 = b" "tc_in c4 = tc_in c" "tc_state c4 = tc_state c"
        "tc_kernel c4 = k" "tc_trace c4 = tc_trace c" "tc_alive c4" "tc_inLoop c4" "tc_fd c4 = tc_fd c"
        using assms(3,4) by (simp_all add: c4_def c3_def c2_def tc_fd_def [of "c\<lparr>tc_kernel := k, tc_out := b\<rparr>"] tc_fd_def [of c])
      have inv4: "conn_inv c4" using c4 c3 b e inv1 by (simp add: conn_inv_def)
      have hw: "handleWrite sk c = (if tc_state c = kDisconnecting then shutdownWriteInLoop c4 else ok c4)"
        using W rb w Wrote b True assms(3,4) c4(4)
        by (simp add: handleWrite_def Let_def c4_def c3_def c2_def)
      show ?thesis
        using hw c4 c3 inv4 e wire2 b
        by (cases "tc_state c = kDisconnecting")
          (simp_all add: shutdownWriteInLoop_def wire_def c2_def conn_inv_def)
    qed
  qed
qed

text \<open>The write that \<open>handleWrite\<close> makes emptied the output buffer.\<close>

definition drained :: "wret \<Rightarrow> char list \<Rightarrow> bool" where
  "drained r bs = (case r of Wrote n \<Rightarrow> 0 < n \<and> n = length bs | WFail e \<Rightarrow> False)"

lemma handleWrite_exact:
  assumes "write_contract sk (tc_fd c) sent" "conn_inv c" "tc_alive c" "tc_inLoop c" "isWriting (tc_channel c)"
    "sk_write sk (tc_kernel c) (tc_fd c) (nb_bytes (tc_out c)) = (r, k)"
  shows "\<exists>c'. handleWrite sk c = ok c' \<and> conn_inv c' \<and> same_conn c c' \<and> tc_kernel c' = k
    \<and> nb_bytes (tc_out c') = drop (case r of Wrote n \<Rightarrow> n | WFail e \<Rightarrow> 0) (nb_bytes (tc_out c))
    \<and> sent k = sent (tc_kernel c) @ take (case r of Wrote n \<Rightarrow> n | WFail e \<Rightarrow> 0) (nb_bytes (tc_out c))
    \<and> isWriting (tc_channel c') = (\<not> drained r (nb_bytes (tc_out c)))
    \<and> isReading (tc_channel c') = isReading (tc_channel c)
    \<and> (tc_channel c', tc_epoll c') = (if drained r (nb_bytes (tc_out c))
        then chan_do DisableWriting (tc_ptr c) (tc_channel c) (tc_epoll c) else (tc_channel c, tc_epoll c))
    \<and> tc_queue c' = tc_queue c
        @ (if drained r (nb_bytes (tc_out c)) \<and> tc_hasWriteComplete c then [T_writeComplete] else [])
    \<and> tc_trace c' = tc_trace c
        @ (if drained r (nb_bytes (tc_out c)) \<and> tc_state c = kDisconnecting then [Shutdown_write (tc_fd c)] else [])"
proof -
  let ?o = "tc_out c"
  have inv: "nb_inv ?o" and mask: "mask_ok (tc_channel c)" using assms(2) by (simp_all add: conn_inv_def)
  have len: "readable ?o = int (length (nb_bytes ?o))" using length_nb_bytes [OF nb_inv_wf [OF inv]] by simp
  have rb: "read_bytes ?o (readable ?o) = Inr (nb_bytes ?o)"
    using read_bytes_ok [OF inv, of "readable ?o"] len by simp
  let ?c1 = "c\<lparr>tc_kernel := k\<rparr>"
  have inv1: "conn_inv ?c1" using assms(2) by (simp add: conn_inv_def)
  show ?thesis
  proof (cases r)
    case (WFail e)
    have "sent k = sent (tc_kernel c)"
      using assms(1,6) WFail unfolding write_contract_def by (metis (mono_tags, lifting) case_prod_conv wret.simps(6))
    with assms(3-6) rb WFail inv1 show ?thesis by (simp add: handleWrite_def drained_def same_conn_def)
  next
    case (Wrote n)
    have n: "n \<le> length (nb_bytes ?o)" "sent k = sent (tc_kernel c) @ take n (nb_bytes ?o)"
      using assms(1,6) Wrote unfolding write_contract_def
      by (metis (mono_tags, lifting) case_prod_conv wret.simps(5))+
    obtain b where b: "retrieve ?o (int n) = Inr b" "nb_inv b" "nb_bytes b = drop n (nb_bytes ?o)"
      using nbq.get_ok [OF inv n(1)] by auto
    define c2 where "c2 = ?c1\<lparr>tc_out := b\<rparr>"
    have inv2: "conn_inv c2" using inv1 b assms(5) by (simp add: conn_inv_def c2_def)
    have d: "drained r (nb_bytes ?o) \<longleftrightarrow> 0 < n \<and> readable b = 0"
      using n(1) b(3) readable_zero [OF b(2)] by (auto simp: Wrote drained_def)
    show ?thesis
    proof (cases "0 < n \<and> readable b = 0")
      case False
      with assms(3-6) rb Wrote b inv1 inv2 n d show ?thesis
        by (cases "n = 0") (auto simp: handleWrite_def c2_def same_conn_def)
    next
      case True
      have e: "nb_bytes b = []" using True readable_zero [OF b(2)] by simp
      define c3 where "c3 = on_channel DisableWriting c2"
      have c3: "\<not> isWriting (tc_channel c3)" "mask_ok (tc_channel c3)"
        "isReading (tc_channel c3) = isReading (tc_channel c)"
        using on_channel_flags [of c2 DisableWriting] mask by (simp_all add: c3_def c2_def)
      have ch: "(tc_channel c3, tc_epoll c3) = chan_do DisableWriting (tc_ptr c) (tc_channel c) (tc_epoll c)"
        by (simp add: c3_def c2_def on_channel_def split: prod.splits)
      define c4 where "c4 = (if tc_hasWriteComplete c3 then queue_task T_writeComplete c3 else c3)"
      have c4: "tc_channel c4 = tc_channel c3" "tc_out c4 = b" "tc_in c4 = tc_in c" "tc_state c4 = tc_state c"
        "tc_kernel c4 = k" "tc_trace c4 = tc_trace c" "tc_alive c4" "tc_inLoop c4" "tc_fd c4 = tc_fd c"
        "tc_epoll c4 = tc_epoll c3" "tc_queue c4 = tc_queue c @ (if tc_hasWriteComplete c then [T_writeComplete] else [])"
        using assms(3,4)
        by (simp_all add: c4_def c3_def c2_def tc_fd_def [of "c\<lparr>tc_kernel := k, tc_out := b\<rparr>"] tc_fd_def [of c])
      have inv4: "conn_inv c4" using c4 c3 b e inv1 by (simp add: conn_inv_def)
      have hw: "handleWrite sk c = (if tc_state c = kDisconnecting then shutdownWriteInLoop c4 else ok c4)"
        using assms(3-6) rb Wrote b True c4(4)
        by (simp add: handleWrite_def Let_def c4_def c3_def c2_def)
      have end': "\<exists>c'. handleWrite sk c = ok c' \<and> tc_channel c' = tc_channel c4 \<and> tc_epoll c' = tc_epoll c4
          \<and> tc_out c' = b \<and> tc_in c' = tc_in c \<and> tc_kernel c' = k \<and> tc_queue c' = tc_queue c4 \<and> same_conn c c'
          \<and> tc_trace c' = tc_trace c @ (if tc_state c = kDisconnecting then [Shutdown_write (tc_fd c)] else [])"
        using hw c4 c3 assms(3,4)
        by (cases "tc_state c = kDisconnecting") (simp_all add: shutdownWriteInLoop_def note_effect_def same_conn_def tc_fd_def)
      then obtain c' where c': "handleWrite sk c = ok c'" "tc_channel c' = tc_channel c4" "tc_epoll c' = tc_epoll c4"
          "tc_out c' = b" "tc_in c' = tc_in c" "tc_kernel c' = k" "tc_queue c' = tc_queue c4" "same_conn c c'"
          "tc_trace c' = tc_trace c @ (if tc_state c = kDisconnecting then [Shutdown_write (tc_fd c)] else [])"
        by blast
      have "conn_inv c'" using inv4 c' c4 e by (simp add: conn_inv_def)
      with c' c4 c3 ch d True Wrote n b e show ?thesis by (intro exI [of _ c']) (auto simp: same_conn_def)
    qed
  qed
qed

section \<open>Properties\<close>

text \<open>C17: what is sent stays in order and nothing is lost.  For a kernel that behaves as \<open>write(2)\<close>
  documents, sending a message on a live connection returns; the bytes already accepted by the
  kernel followed by those waiting in the output buffer are extended by exactly the message,
  however much of it the first write took; only a write that fails with EPIPE or ECONNRESET
  drops the message.  Bytes that wait are waited for: the channel listens for EPOLLOUT.\<close>

theorem send_keeps_order:
  assumes "write_contract sk (tc_fd c) sent" "conn_inv c" "tc_alive c" "tc_inLoop c"
    "tc_state c = kConnected" "int (length (nb_bytes (tc_out c))) + int (length bs) < 2 ^ 30"
  shows "\<exists>c'. send sk bs c = ok c' \<and> conn_inv c' \<and> tc_state c' = kConnected
    \<and> wire sent c' = wire sent c @ (if cut_off sk bs c then [] else bs)
    \<and> (nb_bytes (tc_out c') \<noteq> [] \<longrightarrow> isWriting (tc_channel c'))"
proof -
  have "tc_state c \<noteq> kDisconnected" using assms(5) by simp
  from sendInLoop_message [OF assms(1-4) this assms(6)] assms(3-5) show ?thesis
    by (auto simp: send_def run_task_def conn_inv_def same_conn_def)
qed

text \<open>A kernel for the witnesses: it remembers what it accepted and takes three bytes at a time;
  reading finds the end of the stream, \<open>sendfile\<close> takes two bytes.\<close>

definition demo_sys3 :: "char list syscalls" where
  "demo_sys3 = \<lparr>sk_read = (\<lambda>k fd n. (Ret [], k)), sk_pread = (\<lambda>k fd n off. (Fail EBADF, k)),
     sk_write = (\<lambda>k fd bs. (Wrote (min 3 (length bs)), k @ take 3 bs)),
     sk_sendfile = (\<lambda>k fd f n. (Wrote 2, k @ ''fi'')), sk_close = (\<lambda>k f. k)\<rparr>"

lemma demo_contract: "write_contract demo_sys3 fd (\<lambda>k. k)"
  by (auto simp: write_contract_def demo_sys3_def min_def)

definition demo_conn :: "char list tconn" where
  "demo_conn = (new_TcpConnection 9 1 False new_Epoller [])\<lparr>tc_state := kConnected\<rparr>"

lemma demo_conn_simps [simp]:
  "tc_state demo_conn = kConnected" "tc_alive demo_conn" "tc_inLoop demo_conn" "tc_kernel demo_conn = []"
  "nb_bytes (tc_out demo_conn) = []" "tc_trace demo_conn = []" "tc_fd demo_conn = 9"
  "\<not> tc_hasWriteComplete demo_conn" "readable (tc_out demo_conn) = 0"
  using new_netBuffer_inv [of 4096]
  by (simp_all add: demo_conn_def new_TcpConnection_def INT_MAX_def tc_fd_def new_Channel_def readable_def new_netBuffer_def)

lemma demo_conn_mask: "ch_events (tc_channel demo_conn) = mask_of False False"
  by (simp add: demo_conn_def new_TcpConnection_def new_Channel_def mask_of_def)

lemma demo_conn_idle [simp]: "\<not> isWriting (tc_channel demo_conn)" "mask_ok (tc_channel demo_conn)"
  using demo_conn_mask by (auto simp: isWriting_def mask_write mask_ok_def)

lemma demo_conn_inv: "conn_inv demo_conn"
proof -
  have "nb_inv (tc_in demo_conn)" "nb_inv (tc_out demo_conn)"
    using new_netBuffer_inv [of 4096] by (simp_all add: demo_conn_def new_TcpConnection_def INT_MAX_def)
  then show ?thesis by (simp add: conn_inv_def)
qed

theorem send_keeps_order_witness:
  "\<exists>c'. send demo_sys3 ''hello'' demo_conn = ok c' \<and> wire (\<lambda>k. k) c' = ''hello''"
  using send_keeps_order [of demo_sys3 demo_conn "\<lambda>k. k" "''hello''"] demo_contract demo_conn_inv
  by (auto simp: wire_def cut_off_def demo_sys3_def)

text \<open>C25: draining the output buffer.  When the kernel reports a connection that listens for EPOLLOUT as writable, exactly
  one \<open>write\<close> of all the waiting bytes is made.  Whatever number of bytes the kernel takes, these are the next ones of the
  outgoing stream and exactly the others stay in the buffer, in order; if the call fails nothing changes.  When this empties the
  buffer, and only then, EPOLLOUT is switched off (the channel and the epoll instance change as by \<open>disableWriting\<close>), the
  write-complete callback is queued if there is one, and the socket is shut down for writing if the connection is
  disconnecting.  Reading, the input buffer and the state are untouched.\<close>

theorem handleWrite_drains:
  assumes "write_contract sk (tc_fd c) sent" "conn_inv c" "tc_alive c" "tc_inLoop c" "isWriting (tc_channel c)"
    "sk_write sk (tc_kernel c) (tc_fd c) (nb_bytes (tc_out c)) = (r, k)"
  shows "\<exists>c'. handleWrite sk c = ok c' \<and> conn_inv c' \<and> same_conn c c' \<and> tc_kernel c' = k
    \<and> nb_bytes (tc_out c') = drop (case r of Wrote n \<Rightarrow> n | WFail e \<Rightarrow> 0) (nb_bytes (tc_out c))
    \<and> sent k = sent (tc_kernel c) @ take (case r of Wrote n \<Rightarrow> n | WFail e \<Rightarrow> 0) (nb_bytes (tc_out c))
    \<and> isWriting (tc_channel c') = (\<not> drained r (nb_bytes (tc_out c)))
    \<and> isReading (tc_channel c') = isReading (tc_channel c)
    \<and> (tc_channel c', tc_epoll c') = (if drained r (nb_bytes (tc_out c))
        then chan_do DisableWriting (tc_ptr c) (tc_channel c) (tc_epoll c) else (tc_channel c, tc_epoll c))
    \<and> tc_queue c' = tc_queue c
        @ (if drained r (nb_bytes (tc_out c)) \<and> tc_hasWriteComplete c then [T_writeComplete] else [])
    \<and> tc_trace c' = tc_trace c
        @ (if drained r (nb_bytes (tc_out c)) \<and> tc_state c = kDisconnecting then [Shutdown_write (tc_fd c)] else [])"
  using assms by (rule handleWrite_exact)

text \<open>For the witness: two bytes wait, and the user has asked to disconnect.\<close>

definition demo_buffer :: netBuffer where
  "demo_buffer = \<lparr>nb_buf = [None, Some CHR ''E'', Some CHR ''T'', None], nb_r = 1, nb_w = 3, nb_alloc = 4\<rparr>"

definition demo_waiting :: "char list tconn" where
  "demo_waiting = (on_channel EnableWriting demo_conn)\<lparr>tc_out := demo_buffer, tc_state := kDisconnecting,
     tc_hasWriteComplete := True\<rparr>"

theorem handleWrite_drains_witness:
  "\<exists>c'. handleWrite demo_sys3 demo_waiting = ok c' \<and> nb_bytes (tc_out c') = [] \<and> tc_kernel c' = ''ET''
    \<and> isWriting (tc_channel demo_waiting) \<and> \<not> isWriting (tc_channel c')
    \<and> tc_queue c' = tc_queue demo_waiting @ [T_writeComplete] \<and> tc_trace c' = [Shutdown_write 9]"
proof -
  have b: "nb_inv demo_buffer" "nb_bytes demo_buffer = ''ET''"
    by (simp_all add: demo_buffer_def nb_inv_def nb_wf_def nb_cells_def nb_bytes_def INT_MAX_def)
  have fl: "mask_ok (tc_channel (on_channel EnableWriting demo_conn))"
    "isWriting (tc_channel (on_channel EnableWriting demo_conn))"
    using on_channel_flags [of demo_conn EnableWriting] by simp_all
  have "nb_inv (tc_in demo_conn)" using demo_conn_inv by (simp add: conn_inv_def)
  with b fl have inv: "conn_inv demo_waiting" by (simp add: demo_waiting_def conn_inv_def)
  have w: "sk_write demo_sys3 (tc_kernel demo_waiting) (tc_fd demo_waiting) (nb_bytes (tc_out demo_waiting)) = (Wrote 2, ''ET'')"
    using b by (simp add: demo_waiting_def demo_sys3_def)
  have fd: "tc_fd demo_waiting = 9" by (simp add: demo_waiting_def tc_fd_def) (metis demo_conn_simps(7) on_channel_simps(12) tc_fd_def)
  show ?thesis
    using handleWrite_drains [OF demo_contract inv _ _ _ w] b fl fd
    by (auto simp: drained_def demo_waiting_def)
qed

text \<open>A file is silently not sent when output is pending.  When the connection already waits for
  EPOLLOUT or has bytes in its output buffer, \<open>sendFile\<close> changes nothing at all: no byte is
  queued and the descriptor is not closed.\<close>

theorem sendFile_dropped_when_busy:
  assumes "tc_alive c" "tc_inLoop c" "isWriting (tc_channel c) \<or> readable (tc_out c) \<noteq> 0"
  shows "sendFile sk fd sz c = ok c"
  using assms by (auto simp: sendFile_def run_task_def sendInLoop_def)

theorem sendFile_dropped_when_busy_witness:
  "sendFile demo_sys3 5 100 (on_channel EnableWriting demo_conn) = ok (on_channel EnableWriting demo_conn)"
  using sendFile_dropped_when_busy [of "on_channel EnableWriting demo_conn" demo_sys3 5 100]
  on_channel_flags(3) [of demo_conn EnableWriting] by simp

text \<open>A file that is sent only in part loses its rest.  When \<open>sendfile\<close> takes some bytes but not
  all, the descriptor is closed before it is read for the remainder, and closed again after; if
  reading the closed descriptor fails, nothing of the remainder reaches the output buffer.\<close>

theorem sendFile_partial_loses_rest:
  assumes "tc_alive c" "tc_inLoop c" "tc_state c = kConnected" "\<not> isWriting (tc_channel c)" "readable (tc_out c) = 0"
    "0 < fd" "0 < n" "int n < sz" "sz \<le> INT_MAX" "sk_sendfile sk (tc_kernel c) (tc_fd c) fd sz = (Wrote n, k)"
    "sk_pread sk (sk_close sk k fd) fd (writeable (tc_out c)) (int n) = (Fail EBADF, k')"
  shows "\<exists>c'. sendFile sk fd sz c = ok c' \<and> tc_out c' = tc_out c
    \<and> tc_trace c' = tc_trace c @ [Close_fd fd, Close_fd fd]"
proof -
  let ?c1 = "c\<lparr>tc_kernel := k\<rparr>"
  have rem: "to_size_t (sz - int n) = sz - int n" using assms(7-9) by (intro to_size_t_id) simp_all
  have after: "after_write sk (File fd sz) (Wrote n, k) c = (int n, sz - int n, False, close_fd sk fd ?c1)"
    using rem assms(6,8) by (simp add: after_write_def Let_def)
  have "readFd (sk_read sk) (sk_pread sk) fd (int n) (sk_close sk k fd) (tc_out c)
      = ok \<lparr>rf_ret = - 1, rf_savedErrno = Some EBADF, rf_closed = False, rf_buf = tc_out c, rf_kernel = k'\<rparr>"
    using assms(7,11) unfolding readFd_def by (subst readFd_loop.simps) simp
  then have "keep_rest sk (File fd sz) (int n) (close_fd sk fd ?c1)
      = ok (on_channel EnableWriting (close_fd sk fd ((close_fd sk fd ?c1)\<lparr>tc_out := tc_out c, tc_kernel := k'\<rparr>)))"
    using assms(4,6) by (simp add: keep_rest_def)
  then show ?thesis
    using assms(1-6,8,10) after by (simp add: sendFile_def run_task_def sendInLoop_def first_write_def)
qed

theorem sendFile_partial_loses_rest_witness:
  "\<exists>c'. sendFile demo_sys3 5 4 demo_conn = ok c' \<and> tc_trace c' = [Close_fd 5, Close_fd 5]"
  using sendFile_partial_loses_rest [of demo_conn 5 2 4 demo_sys3 "''fi''" "''fi''"]
  by (auto simp: demo_sys3_def INT_MAX_def)

end
