(* ===== verification/Conn_Life.thy ===== *)
theory Conn_Life
  imports Tcp_Connection
begin

unbundle bit_operations_syntax

text \<open>
  The life of a connection over any sequence of events, tasks and calls: its state only moves
  forward from connecting to disconnected, the close callback runs at most once, waiting output
  implies a subscription to EPOLLOUT.  \<open>conn_client\<close> is the interface to the code that sets the
  callbacks; whoever interprets it gets the invariant for all reachable states.
\<close>

section \<open>The life of a connection\<close>

fun rank :: "StateE \<Rightarrow> nat" where
  "rank kConnecting = 0"
| "rank kConnected = 1"
| "rank kDisconnecting = 2"
| "rank kDisconnected = 3"

definition life_inv :: "'k tconn \<Rightarrow> bool" where
  "life_inv c \<longleftrightarrow> mask_ok (tc_channel c)
     \<and> (readable (tc_out c) \<noteq> 0 \<longrightarrow> isWriting (tc_channel c) \<or> tc_state c = kDisconnected)
     \<and> (isWriting (tc_channel c) \<longrightarrow> tc_state c \<noteq> kDisconnected)
     \<and> count_list (tc_trace c) Close_callback \<le> (if tc_state c = kDisconnected then 1 else 0)"

definition life_le :: "'k tconn \<Rightarrow> 'k tconn \<Rightarrow> bool" where
  "life_le c c' \<longleftrightarrow> rank (tc_state c) \<le> rank (tc_state c')"

text \<open>\<open>keeps\<close>: an operation that, when it returns, keeps the invariant and never moves the state
  backwards.\<close>

definition keeps :: "('k tconn \<Rightarrow> 'k tconn outcome) \<Rightarrow> bool" where
  "keeps f \<longleftrightarrow> (\<forall>c c'. life_inv c \<and> f c = ok c' \<longrightarrow> life_inv c' \<and> life_le c c')"

named_theorems keeps_intros \<open>operations that keep the connection's life invariant\<close>

lemma keepsD: "keeps f \<Longrightarrow> life_inv c \<Longrightarrow> f c = ok c' \<Longrightarrow> life_inv c' \<and> life_le c c'"
  by (simp add: keeps_def)

lemma life_le_refl [simp]: "life_le c c"
  by (simp add: life_le_def)

lemma life_le_trans: "life_le a b \<Longrightarrow> life_le b c \<Longrightarrow> life_le a c"
  by (simp add: life_le_def)

lemma keepsI: "(\<And>c c'. life_inv c \<Longrightarrow> f c = ok c' \<Longrightarrow> life_inv c' \<and> life_le c c') \<Longrightarrow> keeps f"
  unfolding keeps_def by blast

lemma keeps_in_subLoop:
  assumes "keeps f"
  shows "keeps (\<lambda>c. in_subLoop c f)"
proof (rule keepsI)
  fix c c' :: "'a tconn" assume "life_inv c" "in_subLoop c f = ok c'"
  with in_subLoop_ok [of c f c'] keepsD [OF assms, of c c'] show "life_inv c' \<and> life_le c c'" by auto
qed

lemma keeps_run_task:
  assumes "keeps f"
  shows "keeps (run_task t f)"
proof (rule keepsI)
  fix c c' :: "'a tconn" assume "life_inv c" "run_task t f c = ok c'"
  with keepsD [OF assms, of c c'] show "life_inv c' \<and> life_le c c'"
    by (auto simp: run_task_def life_inv_def life_le_def split: if_splits)
qed

lemma keeps_bind:
  assumes "keeps f" "keeps g"
  shows "keeps (\<lambda>c. bind_out (f c) g)"
proof (rule keepsI)
  fix c c' :: "'a tconn" assume "life_inv c" "bind_out (f c) g = ok c'"
  with keepsD [OF assms(1)] keepsD [OF assms(2)] show "life_inv c' \<and> life_le c c'"
    by (blast intro: life_le_trans)
qed

lemma keeps_after:
  assumes "life_inv c" "life_inv d" "life_le c d" "keeps f" "f d = ok c'"
  shows "life_inv c' \<and> life_le c c'"
  using keepsD [OF assms(4,2,5)] assms(3) by (blast intro: life_le_trans)

lemma mask_ok_on_channel: "mask_ok (tc_channel c) \<Longrightarrow> mask_ok (tc_channel (on_channel opr c))"
  by (cases "opr = Remove") (auto simp: on_channel_flags(1), simp add: mask_ok_def on_channel_Remove)

lemma isWriting_on_channel:
  "mask_ok (tc_channel c) \<Longrightarrow> isWriting (tc_channel (on_channel opr c)) =
     (if opr = EnableWriting then True else if opr = DisableWriting \<or> opr = DisableAll then False
      else isWriting (tc_channel c))"
  using on_channel_flags(3) [of c opr] on_channel_Remove [of c]
  by (cases opr) (auto simp: isWriting_def)

lemmas life_simps = life_inv_def life_le_def mask_ok_on_channel isWriting_on_channel

lemma keeps_shutdownWriteInLoop [keeps_intros]: "keeps shutdownWriteInLoop"
  unfolding shutdownWriteInLoop_def
  by (rule keeps_in_subLoop, rule keepsI) (auto simp: life_simps split: if_splits)

lemma keeps_shutdown [keeps_intros]: "keeps shutdown"
proof (rule keepsI)
  fix c c' :: "'a tconn" assume c: "life_inv c" "shutdown c = ok c'"
  show "life_inv c' \<and> life_le c c'"
  proof (cases "tc_state c = kConnected")
    case True
    have k: "keeps (run_task T_shutdownWriteInLoop (shutdownWriteInLoop :: 'a tconn \<Rightarrow> _))"
      by (intro keeps_run_task keeps_intros)
    have d: "life_inv (c\<lparr>tc_state := kDisconnecting\<rparr>)" "life_le c (c\<lparr>tc_state := kDisconnecting\<rparr>)"
      using c(1) True by (auto simp: life_inv_def life_le_def)
    have "run_task T_shutdownWriteInLoop shutdownWriteInLoop (c\<lparr>tc_state := kDisconnecting\<rparr>) = ok c'"
      using c(2) True by (simp add: shutdown_def)
    then show ?thesis by (rule keeps_after [OF c(1) d k])
  qed (use c in \<open>simp add: shutdown_def\<close>)
qed

lemma keeps_forceClose [keeps_intros]: "keeps forceClose"
  by (rule keepsI) (auto simp: forceClose_def Let_def life_simps split: if_splits)

lemma keeps_handleError [keeps_intros]: "keeps handleError"
  by (rule keepsI) (auto simp: handleError_def life_simps)

lemma keeps_handleClose:
  assumes "keeps (cb_close cb)"
  shows "keeps (handleClose cb)"
  unfolding handleClose_def
proof (rule keeps_in_subLoop, rule keepsI)
  fix c c' :: "'a tconn"
  let ?d = "note_effect Close_callback (on_channel DisableAll (c\<lparr>tc_state := kDisconnected\<rparr>))"
  assume c: "life_inv c" "bind_out (Some (cassert (tc_state c = kConnected \<or> tc_state c = kDisconnecting)))
      (\<lambda>_. let c1 = on_channel DisableAll (c\<lparr>tc_state := kDisconnected\<rparr>)
       in cb_close cb (note_effect Close_callback c1)) = ok c'"
  then have st: "tc_state c = kConnected \<or> tc_state c = kDisconnecting" and r: "cb_close cb ?d = ok c'"
    by (auto simp: Let_def cassert_def split: if_splits)
  have "mask_ok (tc_channel (c\<lparr>tc_state := kDisconnected\<rparr>))" using c(1) by (simp add: life_inv_def)
  then have "life_inv ?d" using c(1) st by (auto simp: life_simps)
  moreover have "life_le c ?d" using st by (auto simp: life_le_def)
  ultimately show "life_inv c' \<and> life_le c c'" using c(1) assms r by (intro keeps_after [of c ?d])
qed

lemma keeps_forceCloseInLoop:
  assumes "keeps (cb_close cb)"
  shows "keeps (forceCloseInLoop cb)"
  unfolding forceCloseInLoop_def
proof (rule keeps_in_subLoop, rule keepsI)
  fix c c' :: "'a tconn"
  assume "life_inv c" "(if tc_state c = kConnected \<or> tc_state c = kDisconnecting then handleClose cb c else ok c) = ok c'"
  with keepsD [OF keeps_handleClose [OF assms], of c c'] show "life_inv c' \<and> life_le c c'"
    by (auto split: if_splits)
qed

lemma keeps_handleRead:
  assumes "keeps (cb_close cb)" "keeps (cb_message cb)"
  shows "keeps (handleRead sk cb)"
  unfolding handleRead_def
proof (rule keeps_in_subLoop, rule keepsI)
  fix c c' :: "'a tconn"
  assume c: "life_inv c" and "bind_out (readFd (sk_read sk) (sk_pread sk) (tc_fd c) 0 (tc_kernel c) (tc_in c)) (\<lambda>out.
       let c1 = c\<lparr>tc_in := rf_buf out, tc_kernel := rf_kernel out\<rparr> in
       if rf_closed out then handleClose cb c1
       else if rf_ret out > 0 then cb_message cb (note_effect Message_callback c1)
       else handleError c1) = ok c'"
  then obtain out :: "'a readFd_out" where r: "(let c1 = c\<lparr>tc_in := rf_buf out, tc_kernel := rf_kernel out\<rparr> in
       if rf_closed out then handleClose cb c1
       else if rf_ret out > 0 then cb_message cb (note_effect Message_callback c1)
       else handleError c1) = ok c'" by (elim bind_out_okE)
  let ?c1 = "c\<lparr>tc_in := rf_buf out, tc_kernel := rf_kernel out\<rparr>"
  have c1: "life_inv ?c1" "life_le c ?c1" using c by (simp_all add: life_inv_def life_le_def)
  have c2: "life_inv (note_effect Message_callback ?c1)" "life_le c (note_effect Message_callback ?c1)"
    using c by (simp_all add: life_inv_def life_le_def)
  from r keeps_after [OF c c1 keeps_handleClose [OF assms(1)], of c'] keeps_after [OF c c2 assms(2), of c']
    keeps_after [OF c c1 keeps_handleError, of c']
  show "life_inv c' \<and> life_le c c'" by (auto simp: Let_def split: if_splits)
qed

lemma keeps_startReadInLoop [keeps_intros]: "keeps startReadInLoop"
  unfolding startReadInLoop_def
  by (rule keeps_in_subLoop, rule keepsI) (auto simp: life_simps split: if_splits option.splits)

lemma keeps_stopReadInLoop [keeps_intros]: "keeps stopReadInLoop"
  unfolding stopReadInLoop_def
  by (rule keeps_in_subLoop, rule keepsI) (auto simp: life_simps split: if_splits option.splits)

lemma keeps_startRead [keeps_intros]: "keeps startRead"
  unfolding startRead_def by (intro keeps_run_task keeps_intros)

lemma keeps_stopRead [keeps_intros]: "keeps stopRead"
  unfolding stopRead_def by (intro keeps_run_task keeps_intros)

lemma keeps_setTcpNoDelay [keeps_intros]: "keeps (setTcpNoDelay on)"
  by (rule keepsI) (auto simp: setTcpNoDelay_def life_simps)

lemma keeps_connectEstablished [keeps_intros]: "keeps connectEstablished"
  unfolding connectEstablished_def
  by (rule keeps_in_subLoop, rule keepsI)
    (auto simp: life_simps cassert_def split: if_splits)

lemma keeps_connectDestroyed [keeps_intros]: "keeps connectDestroyed"
  unfolding connectDestroyed_def
  by (rule keeps_in_subLoop, rule keepsI)
    (auto simp: life_simps Let_def split: if_splits)

lemma keep_rest_life:
  fixes c :: "'k tconn"
  assumes "keep_rest sk req n c = ok c'" "mask_ok (tc_channel c)" "tc_state c \<noteq> kDisconnected"
  shows "mask_ok (tc_channel c') \<and> isWriting (tc_channel c') \<and> tc_state c' = tc_state c
    \<and> count_list (tc_trace c') Close_callback = count_list (tc_trace c) Close_callback"
proof -
  define fin where "fin c1 = (if \<not> isWriting (tc_channel c1) then on_channel EnableWriting c1 else c1)" for c1 :: "'k tconn"
  have fin: ?thesis if "c' = fin c1" "tc_channel c1 = tc_channel c" "tc_state c1 = tc_state c"
      "count_list (tc_trace c1) Close_callback = count_list (tc_trace c) Close_callback" for c1
    using that assms(2) by (auto simp: fin_def mask_ok_on_channel isWriting_on_channel)
  show ?thesis
  proof (cases req)
    case (Message bs)
    with assms(1) obtain b where "c' = fin (c\<lparr>tc_out := b\<rparr>)" by (auto simp: keep_rest_def fin_def)
    then show ?thesis by (rule fin) simp_all
  next
    case (File fd sz)
    with assms(1) obtain out :: "'k readFd_out" where
      "c' = fin (close_fd sk fd (c\<lparr>tc_out := rf_buf out, tc_kernel := rf_kernel out\<rparr>))"
      by (auto simp: keep_rest_def fin_def split: if_splits)
    then show ?thesis by (rule fin) simp_all
  qed
qed

lemma after_write_life:
  assumes "after_write sk req r c = (n, m, e, c1)"
  shows "tc_channel c1 = tc_channel c \<and> tc_state c1 = tc_state c \<and> tc_out c1 = tc_out c
    \<and> count_list (tc_trace c1) Close_callback = count_list (tc_trace c) Close_callback"
  using assms by (cases "fst r"; cases req) (auto simp: after_write_def Let_def split: if_splits)

lemma keeps_sendInLoop [keeps_intros]: "keeps (sendInLoop sk req)"
  unfolding sendInLoop_def
proof (rule keeps_in_subLoop, rule keepsI)
  fix c c' :: "'a tconn"
  assume c: "life_inv c" and r: "(if tc_state c = kDisconnected then ok c
     else
       let (nwrote, remaining, faultError, c1) =
             (if \<not> isWriting (tc_channel c) \<and> readable (tc_out c) = 0
              then after_write sk req (first_write sk req c) c
              else (0, req_len req, False, c))
       in bind_out (Some (cassert (case req of Message bs \<Rightarrow> remaining \<le> int (length bs) | File _ _ \<Rightarrow> True))) (\<lambda>_.
          if \<not> faultError \<and> remaining > 0 then keep_rest sk req nwrote c1 else ok c1)) = ok c'"
  show "life_inv c' \<and> life_le c c'"
  proof (cases "tc_state c = kDisconnected")
    case True
    with c r show ?thesis by simp
  next
    case False
    obtain nwrote remaining faultError and c1 :: "'a tconn" where
      w: "(if \<not> isWriting (tc_channel c) \<and> readable (tc_out c) = 0
           then after_write sk req (first_write sk req c) c else (0, req_len req, False, c))
          = (nwrote, remaining, faultError, c1)"
      by (metis prod_cases4)
    have c1: "tc_channel c1 = tc_channel c" "tc_state c1 = tc_state c" "tc_out c1 = tc_out c"
      "count_list (tc_trace c1) Close_callback = count_list (tc_trace c) Close_callback"
      using w after_write_life [of sk req "first_write sk req c" c] by (auto split: if_splits)
    from r w False have "keep_rest sk req nwrote c1 = ok c' \<or> c' = c1"
      by (auto simp: cassert_def split: if_splits)
    then show ?thesis
    proof
      assume "keep_rest sk req nwrote c1 = ok c'"
      from keep_rest_life [OF this] c c1 False show ?thesis by (auto simp: life_inv_def life_le_def)
    next
      assume "c' = c1"
      with c c1 show ?thesis by (auto simp: life_inv_def life_le_def)
    qed
  qed
qed

lemma keeps_removeConnectionInLoop [keeps_intros]: "keeps removeConnectionInLoop"
  unfolding removeConnectionInLoop_def
  by (rule keeps_in_subLoop, rule keepsI) (auto simp: life_inv_def life_le_def)

lemma keeps_removeConnection [keeps_intros]: "keeps removeConnection"
  unfolding removeConnection_def by (intro keeps_run_task keeps_intros)

lemma keeps_send [keeps_intros]: "keeps (send sk bs)"
proof (rule keepsI)
  fix c c' :: "'a tconn" assume "life_inv c" "send sk bs c = ok c'"
  with keepsD [OF keeps_run_task [OF keeps_sendInLoop], of c] show "life_inv c' \<and> life_le c c'"
    by (auto simp: send_def split: if_splits)
qed

lemma keeps_sendFile [keeps_intros]: "keeps (sendFile sk fd sz)"
proof (rule keepsI)
  fix c c' :: "'a tconn" assume "life_inv c" "sendFile sk fd sz c = ok c'"
  with keepsD [OF keeps_run_task [OF keeps_sendInLoop], of c] show "life_inv c' \<and> life_le c c'"
    by (auto simp: sendFile_def split: if_splits)
qed

lemma retrieve_readable: "retrieve b n = Inr b' \<Longrightarrow> readable b' = readable b - n"
  by (auto simp: retrieve_def readable_def cassert_def split: if_splits)

lemma keeps_handleWrite [keeps_intros]: "keeps (handleWrite sk)"
  unfolding handleWrite_def
proof (rule keeps_in_subLoop, rule keepsI)
  fix c c' :: "'a tconn"
  assume c: "life_inv c" and r: "(if isWriting (tc_channel c)
     then bind_out (Some (read_bytes (tc_out c) (readable (tc_out c)))) (\<lambda>bs.
       let (r, k) = sk_write sk (tc_kernel c) (tc_fd c) bs; c1 = c\<lparr>tc_kernel := k\<rparr> in
       case r of
         Wrote n \<Rightarrow>
           if n > 0 then bind_out (Some (retrieve (tc_out c1) (int n))) (\<lambda>b.
             let c2 = c1\<lparr>tc_out := b\<rparr> in
             if readable (tc_out c2) = 0
             then let c3 = on_channel DisableWriting c2;
                      c4 = (if tc_hasWriteComplete c3 then queue_task T_writeComplete c3 else c3)
                  in if tc_state c4 = kDisconnecting then shutdownWriteInLoop c4 else ok c4
             else ok c2)
           else ok c1
       | WFail e \<Rightarrow> ok c1)
     else ok c) = ok c'"
  show "life_inv c' \<and> life_le c c'"
  proof (cases "isWriting (tc_channel c)")
    case False
    with c r show ?thesis by simp
  next
    case W: True
    define c3 where "c3 k b = on_channel DisableWriting (c\<lparr>tc_kernel := k, tc_out := b\<rparr>)" for k b
    define c4 where "c4 k b = (if tc_hasWriteComplete (c3 k b) then queue_task T_writeComplete (c3 k b) else c3 k b)" for k b
    have c4: "life_inv (c4 k b)" "life_le c (c4 k b)" if "readable b = 0" for k b
      using c that W by (auto simp: life_simps c4_def c3_def)
    from r W obtain bs where r1: "(let (r, k) = sk_write sk (tc_kernel c) (tc_fd c) bs; c1 = c\<lparr>tc_kernel := k\<rparr> in
       case r of
         Wrote n \<Rightarrow>
           if n > 0 then bind_out (Some (retrieve (tc_out c1) (int n))) (\<lambda>b.
             let c2 = c1\<lparr>tc_out := b\<rparr> in
             if readable (tc_out c2) = 0
             then let c3 = on_channel DisableWriting c2;
                      c4 = (if tc_hasWriteComplete c3 then queue_task T_writeComplete c3 else c3)
                  in if tc_state c4 = kDisconnecting then shutdownWriteInLoop c4 else ok c4
             else ok c2)
           else ok c1
       | WFail e \<Rightarrow> ok c1) = ok c'" by auto
    obtain w k where w: "sk_write sk (tc_kernel c) (tc_fd c) bs = (w, k)" by fastforce
    have same: ?thesis if "c' = c\<lparr>tc_kernel := k\<rparr>" using that c by (simp add: life_inv_def life_le_def)
    show ?thesis
    proof (cases w)
      case (WFail e)
      with r1 w same show ?thesis by simp
    next
      case (Wrote n)
      show ?thesis
      proof (cases "n > 0")
        case False
        with Wrote r1 w same show ?thesis by simp
      next
        case True
        with Wrote r1 w obtain b where b: "retrieve (tc_out c) (int n) = Inr b"
          and r2: "(if readable b = 0
             then if tc_state (c4 k b) = kDisconnecting then shutdownWriteInLoop (c4 k b) else ok (c4 k b)
             else ok (c\<lparr>tc_kernel := k, tc_out := b\<rparr>)) = ok c'"
          by (auto simp: Let_def c4_def c3_def cong del: if_weak_cong)
        show ?thesis
        proof (cases "readable b = 0")
          case True
          with r2 c4 [of b k] keeps_after [OF c c4 [of b k] keeps_shutdownWriteInLoop, of c'] show ?thesis
            by (auto split: if_splits)
        next
          case False
          with r2 c W show ?thesis by (auto simp: life_inv_def life_le_def)
        qed
      qed
    qed
  qed
qed

text \<open>The interface between a connection and its user: the callbacks may do anything to the
  connection through its operations, so they keep its invariant and never move its state back.\<close>

locale conn_client =
  fixes sk :: "'k syscalls" and cb :: "'k callbacks"
  assumes message_keeps: "keeps (cb_message cb)"
    and close_keeps: "keeps (cb_close cb)"
    and writeComplete_keeps: "keeps (cb_writeComplete cb)"
begin

lemma callback_keeps: "keeps (run_callback sk cb x)"
proof (cases x)
  case CloseCallback
  then have "run_callback sk cb x = handleClose cb" by (intro ext) simp
  then show ?thesis using keeps_handleClose [OF close_keeps] by simp
next
  case ErrorCallback
  then have "run_callback sk cb x = handleError" by (intro ext) simp
  then show ?thesis by (simp add: keeps_handleError)
next
  case ReadCallback
  then have "run_callback sk cb x = handleRead sk cb" by (intro ext) simp
  then show ?thesis using keeps_handleRead [OF close_keeps message_keeps] by simp
next
  case WriteCallback
  then have "run_callback sk cb x = handleWrite sk" by (intro ext) simp
  then show ?thesis by (simp add: keeps_handleWrite)
qed

lemma callbacks_keep: "keeps (run_callbacks sk cb xs)"
proof (induction xs)
  case Nil
  show ?case by (rule keepsI) simp
next
  case (Cons x xs)
  have "run_callbacks sk cb (x # xs) = (\<lambda>c. bind_out (run_callback sk cb x c) (run_callbacks sk cb xs))"
    by (intro ext) simp
  with keeps_bind [OF callback_keeps Cons.IH] show ?case by simp
qed

lemma event_keeps: "keeps (conn_event sk cb ev)"
proof (rule keepsI)
  fix c c' assume c: "life_inv c" "conn_event sk cb ev c = ok c'"
  let ?c = "c\<lparr>tc_channel := (tc_channel c)\<lparr>ch_revents := ev\<rparr>\<rparr>"
  have "life_inv ?c" "life_le c ?c"
    using c(1) by (auto simp: life_inv_def life_le_def mask_ok_def isWriting_def)
  then show "life_inv c' \<and> life_le c c'"
    using c(2) keeps_after [OF c(1) _ _ callbacks_keep, of ?c] by (simp add: conn_event_def Let_def)
qed

lemma task_keeps: "keeps (run_conn_task sk cb t)"
proof -
  have "run_conn_task sk cb t = (case t of T_sendInLoop bs \<Rightarrow> sendInLoop sk (Message bs)
     | T_sendFileInLoop fd sz \<Rightarrow> sendInLoop sk (File fd sz) | T_shutdownWriteInLoop \<Rightarrow> shutdownWriteInLoop
     | T_forceCloseInLoop \<Rightarrow> forceCloseInLoop cb | T_startReadInLoop \<Rightarrow> startReadInLoop
     | T_stopReadInLoop \<Rightarrow> stopReadInLoop | T_writeComplete \<Rightarrow> cb_writeComplete cb
     | T_connectDestroyed \<Rightarrow> connectDestroyed | T_removeConnectionInLoop \<Rightarrow> removeConnectionInLoop)"
    by (intro ext) (simp split: conn_task.splits)
  then show ?thesis
    using keeps_forceCloseInLoop [OF close_keeps] writeComplete_keeps
    by (auto intro: keeps_intros split: conn_task.splits)
qed

lemma op_keeps: "keeps (conn_do sk cb opr)"
proof -
  have "conn_do sk cb opr = (case opr of Do_established \<Rightarrow> connectEstablished | Do_event ev \<Rightarrow> conn_event sk cb ev
     | Do_task t \<Rightarrow> run_conn_task sk cb t | Do_send bs \<Rightarrow> send sk bs | Do_sendFile fd sz \<Rightarrow> sendFile sk fd sz
     | Do_shutdown \<Rightarrow> shutdown | Do_forceClose \<Rightarrow> forceClose | Do_startRead \<Rightarrow> startRead | Do_stopRead \<Rightarrow> stopRead
     | Do_noDelay on \<Rightarrow> setTcpNoDelay on)"
    by (intro ext) (simp split: conn_op.splits)
  then show ?thesis by (auto intro: keeps_intros event_keeps task_keeps split: conn_op.splits)
qed

lemma step_life: "life_inv c \<Longrightarrow> conn_step sk cb c c' \<Longrightarrow> life_inv c' \<and> life_le c c'"
proof (erule conn_stepE)
  fix opr b assume c: "life_inv c" and d: "conn_do sk cb opr (c\<lparr>tc_inLoop := b\<rparr>) = ok c'"
  have "life_inv (c\<lparr>tc_inLoop := b\<rparr>)" "life_le c (c\<lparr>tc_inLoop := b\<rparr>)"
    using c by (simp_all add: life_inv_def life_le_def)
  then show ?thesis using keeps_after [OF c _ _ op_keeps d] by blast
qed

end

lemma life_inv_init: "conn_init c \<Longrightarrow> life_inv c"
proof -
  assume "conn_init c"
  then obtain fd ptr hasWC ep k where c: "c = new_TcpConnection fd ptr hasWC ep k" by (auto simp: conn_init_def)
  have e: "ch_events (tc_channel c) = mask_of False False"
    by (simp add: c new_TcpConnection_def new_Channel_def mask_of_def)
  then have "\<not> isWriting (tc_channel c)" by (simp add: isWriting_def mask_write)
  with e show ?thesis
    by (auto simp: life_inv_def mask_ok_def c new_TcpConnection_def readable_def new_netBuffer_def)
qed

sublocale conn_client \<subseteq> life: invariant_system conn_init "conn_step sk cb" life_inv
  using life_inv_init step_life by unfold_locales blast+

section \<open>Hang-ups and forced closes\<close>

text \<open>The close callback \<open>TcpServer\<close> installs, on a live connection in its loop.\<close>

lemma removeConnection_ok:
  assumes "tc_alive c" "tc_inLoop c"
  shows "removeConnection c = ok (note_effect Leave_connectSet (queue_task T_connectDestroyed c))"
  using assms by (simp add: removeConnection_def run_task_def removeConnectionInLoop_def)

text \<open>EPOLLHUP with EPOLLRDHUP and without EPOLLIN runs the close callback and then the read callback; the read finds the end of
  the stream and closes again.\<close>

lemma hangup_event:
  assumes "tc_alive c" "tc_inLoop c" "tc_state c = kConnected \<or> tc_state c = kDisconnecting"
    "ch_hasClose (tc_channel c)" "ch_hasRead (tc_channel c)" "cb_close cb = removeConnection"
    "sk_read sk (tc_kernel c) (tc_fd c) (writeable (tc_in c)) = (Ret [], k')"
  defines "c0 \<equiv> c\<lparr>tc_channel := (tc_channel c)\<lparr>ch_revents := EPOLLHUP OR EPOLLRDHUP\<rparr>\<rparr>"
  shows "\<exists>c1. handleEvent (tc_channel c0) = [CloseCallback, ReadCallback] \<and> handleClose cb c0 = ok c1 \<and> tc_state c1 = kDisconnected
    \<and> tc_trace c1 = tc_trace c @ [Close_callback, Leave_connectSet]
    \<and> handleRead sk cb c1 = Some (Inl Assert_failed) \<and> conn_event sk cb (EPOLLHUP OR EPOLLRDHUP) c = Some (Inl Assert_failed)"
proof -
  let ?d = "note_effect Close_callback (on_channel DisableAll (c0\<lparr>tc_state := kDisconnected\<rparr>))"
  let ?c1 = "note_effect Leave_connectSet (queue_task T_connectDestroyed ?d)"
  have order: "handleEvent (tc_channel c0) = [CloseCallback, ReadCallback]"
    using assms(4,5) by (simp add: c0_def handleEvent_def mask_defs)
  have "tc_alive ?d" "tc_inLoop ?d" using assms(1,2) by (simp_all add: c0_def)
  then have close: "handleClose cb c0 = ok ?c1"
    using assms(1-3,6) removeConnection_ok [of ?d] by (simp add: handleClose_def c0_def)
  have "tc_fd ?c1 = tc_fd (c0\<lparr>tc_state := kDisconnected\<rparr>)" by (simp only: note_effect_simps queue_task_simps on_channel_simps)
  then have fd: "tc_fd ?c1 = tc_fd c" by (simp add: tc_fd_def c0_def)
  have "readFd (sk_read sk) (sk_pread sk) (tc_fd ?c1) 0 (tc_kernel ?c1) (tc_in ?c1)
      = ok \<lparr>rf_ret = 0, rf_savedErrno = None, rf_closed = True, rf_buf = tc_in c, rf_kernel = k'\<rparr>"
    using assms(7) unfolding fd readFd_def by (subst readFd_loop.simps) (simp add: c0_def)
  then have read: "handleRead sk cb ?c1 = Some (Inl Assert_failed)"
    using assms(1,2) by (simp add: handleRead_def handleClose_def c0_def)
  have "conn_event sk cb (EPOLLHUP OR EPOLLRDHUP) c = run_callbacks sk cb (handleEvent (tc_channel c0)) c0"
    by (simp add: conn_event_def Let_def c0_def)
  also have "\<dots> = Some (Inl Assert_failed)" using order close read by simp
  finally have ev: "conn_event sk cb (EPOLLHUP OR EPOLLRDHUP) c = Some (Inl Assert_failed)" .
  have "tc_state ?c1 = kDisconnected" "tc_trace ?c1 = tc_trace c @ [Close_callback, Leave_connectSet]"
    by (simp_all add: c0_def)
  then show ?thesis using order close read ev by blast
qed

text \<open>Closing by force drops what was not yet sent.  After \<open>forceClose\<close> and the task it queues the
  connection is disconnected and no longer listens for EPOLLOUT, while the output buffer still
  holds every byte it held.\<close>

theorem forceClose_drops_output:
  assumes "tc_alive c" "tc_inLoop c" "tc_state c = kConnected" "mask_ok (tc_channel c)" "cb_close cb = removeConnection"
  shows "\<exists>c1 c'. forceClose c = ok c1 \<and> tc_queue c1 = tc_queue c @ [T_forceCloseInLoop]
    \<and> run_conn_task sk cb T_forceCloseInLoop c1 = ok c' \<and> tc_state c' = kDisconnected
    \<and> \<not> isWriting (tc_channel c') \<and> tc_out c' = tc_out c"
proof -
  let ?c1 = "queue_task T_forceCloseInLoop (c\<lparr>tc_state := kDisconnecting\<rparr>)"
  have m: "mask_ok (tc_channel (?c1\<lparr>tc_state := kDisconnected\<rparr>))" using assms(4) by simp
  let ?d = "note_effect Close_callback (on_channel DisableAll (?c1\<lparr>tc_state := kDisconnected\<rparr>))"
  let ?c2 = "note_effect Leave_connectSet (queue_task T_connectDestroyed ?d)"
  have "forceClose c = ok ?c1" using assms(1,3) by (simp add: forceClose_def Let_def)
  moreover have "run_conn_task sk cb T_forceCloseInLoop ?c1 = ok ?c2"
    using assms(1,2,5) removeConnection_ok [of ?d] by (simp add: forceCloseInLoop_def handleClose_def)
  moreover have "tc_queue ?c1 = tc_queue c @ [T_forceCloseInLoop]" "tc_state ?c2 = kDisconnected"
    "\<not> isWriting (tc_channel ?c2)" "tc_out ?c2 = tc_out c"
    using isWriting_on_channel [OF m, of DisableAll] by simp_all
  ultimately show ?thesis by blast
qed

theorem forceClose_drops_output_witness:
  "\<exists>c1 c'. forceClose demo_conn = ok c1 \<and> run_conn_task demo_sys3 \<lparr>cb_message = ok, cb_close = removeConnection, cb_writeComplete = ok\<rparr>
      T_forceCloseInLoop c1 = ok c' \<and> tc_state c' = kDisconnected \<and> tc_out c' = tc_out demo_conn"
  using forceClose_drops_output [of demo_conn "\<lparr>cb_message = ok, cb_close = removeConnection, cb_writeComplete = ok\<rparr>" demo_sys3]
  by auto

end
