(* ===== verification/Http_Respond.thy ===== *)
theory Http_Respond
  imports Conn_Life C_String "HOL-Library.List_Lexorder" "HOL-Library.Char_ord"
begin

text \<open>
  \<open>src/src/http/httpRespond.{h,cpp}\<close>: the response under construction and \<open>respond()\<close>, which
  prints status line and headers and sends them, then the body or the file.  \<open>headMap_\<close> is a
  \<open>std::map\<close>, printed in the order of its keys: here the association list sorted by key, with the
  laws of a map proved through the interface \<open>ordered_map\<close>.  The interface \<open>output_stream\<close> is
  what \<open>respond\<close> needs of a connection.
\<close>

section \<open>Header maps\<close>

type_synonym headers = "(string \<times> string) list"

fun head_set :: "string \<Rightarrow> string \<Rightarrow> headers \<Rightarrow> headers" where
  "head_set k v [] = [(k, v)]"
| "head_set k v ((k', v') # hs) =
     (if k < k' then (k, v) # (k', v') # hs
      else if k = k' then (k, v) # hs
      else (k', v') # head_set k v hs)"

lemma sorted_alist_unique:
  fixes xs ys :: "('a :: linorder \<times> 'b) list"
  assumes "sorted (map fst xs)" "distinct (map fst xs)" "sorted (map fst ys)" "distinct (map fst ys)"
    "map_of xs = map_of ys"
  shows "xs = ys"
proof -
  have eq: "set xs = set ys" using assms(2,4,5) by (simp add: map_of_inject_set)
  moreover have "inj_on fst (set xs \<union> set ys)" using assms(2) eq by (simp add: distinct_map)
  ultimately show ?thesis using assms(1-4) by (intro map_sorted_distinct_set_unique [of fst]) auto
qed

locale ordered_map =
  fixes ins :: "'a :: linorder \<Rightarrow> 'b \<Rightarrow> 'm \<Rightarrow> 'm" and look :: "'m \<Rightarrow> 'a \<Rightarrow> 'b option"
    and entries :: "'m \<Rightarrow> ('a \<times> 'b) list" and inv :: "'m \<Rightarrow> bool"
  assumes look_ins: "inv m \<Longrightarrow> look (ins k v m) = (look m)(k \<mapsto> v)"
    and inv_ins: "inv m \<Longrightarrow> inv (ins k v m)"
    and sorted_entries: "inv m \<Longrightarrow> sorted (map fst (entries m)) \<and> distinct (map fst (entries m))"
    and look_entries: "inv m \<Longrightarrow> look m = map_of (entries m)"
begin

lemma inv_fold: "inv m \<Longrightarrow> inv (fold (\<lambda>(k, v). ins k v) kvs m)"
  by (induction kvs arbitrary: m) (auto intro: inv_ins)

lemma look_fold: "inv m \<Longrightarrow> look (fold (\<lambda>(k, v). ins k v) kvs m) = (look m) ++ map_of (rev kvs)"
proof (induction kvs arbitrary: m)
  case (Cons kv kvs)
  then show ?case by (cases kv) (auto simp: inv_ins look_ins fun_eq_iff map_add_def split: option.splits)
qed simp

text \<open>Two maps with the same lookups print the same: the order of insertion does not show.\<close>

lemma entries_unique: "inv m \<Longrightarrow> inv n \<Longrightarrow> look m = look n \<Longrightarrow> entries m = entries n"
  by (intro sorted_alist_unique) (simp_all add: sorted_entries look_entries [symmetric])

end

definition headers_ok :: "headers \<Rightarrow> bool" where
  "headers_ok hs \<longleftrightarrow> sorted (map fst hs) \<and> distinct (map fst hs)"

lemma set_head_set: "fst ` set (head_set k v hs) = insert k (fst ` set hs)"
  by (induction hs rule: head_set.induct [of _ k v]) (simp_all add: insert_commute)

lemma map_of_head_set: "map_of (head_set k v hs) = (map_of hs)(k \<mapsto> v)"
  by (induction hs rule: head_set.induct [of _ k v]) (simp_all add: fun_eq_iff)

lemma headers_ok_set: "headers_ok hs \<Longrightarrow> headers_ok (head_set k v hs)"
proof (induction hs)
  case (Cons kv hs)
  obtain k' v' where kv: "kv = (k', v')" by fastforce
  have "headers_ok hs" using Cons.prems by (simp add: headers_ok_def)
  with Cons have "headers_ok (head_set k v hs)" by simp
  with Cons.prems kv show ?case
    by (auto simp: headers_ok_def set_head_set image_iff)
qed (simp add: headers_ok_def)

interpretation hm: ordered_map head_set map_of "\<lambda>hs. hs" headers_ok
  by unfold_locales (simp_all add: map_of_head_set headers_ok_set, simp_all add: headers_ok_def)

section \<open>The response\<close>

datatype repState = R200Ok | R400BadRequest | R404NotFound | DontKnow

text \<open>\<open>repString[state_]\<close>: the table has no entry for \<open>DontKnow\<close>.\<close>

fun repString :: "repState \<Rightarrow> string result" where
  "repString R200Ok = Inr ''200 OK''"
| "repString R400BadRequest = Inr ''400 Bad Request''"
| "repString R404NotFound = Inr ''404 Not Found''"
| "repString DontKnow = Inl Out_of_bounds"

record httpRespond =
  hr_fd :: int
  hr_size :: int
  hr_state :: "repState option"
  hr_head :: headers
  hr_version :: string
  hr_body :: string

text \<open>The constructor leaves \<open>state_\<close> unset.\<close>

definition new_httpRespond :: httpRespond where
  "new_httpRespond = \<lparr>hr_fd = - 1, hr_size = 0, hr_state = None, hr_head = [], hr_version = [], hr_body = []\<rparr>"

definition setStatusCode :: "repState \<Rightarrow> httpRespond \<Rightarrow> httpRespond" where
  "setStatusCode st r = r\<lparr>hr_state := Some st\<rparr>"

definition respond_setVersion :: "string \<Rightarrow> httpRespond \<Rightarrow> httpRespond" where
  "respond_setVersion v r = r\<lparr>hr_version := v\<rparr>"

definition addHeader :: "string \<Rightarrow> string \<Rightarrow> httpRespond \<Rightarrow> httpRespond" where
  "addHeader k v r = r\<lparr>hr_head := head_set k v (hr_head r)\<rparr>"

definition addContentType :: "string \<Rightarrow> httpRespond \<Rightarrow> httpRespond" where
  "addContentType t r = addHeader ''Content-Type'' t r"

definition addContentSize :: "int \<Rightarrow> httpRespond \<Rightarrow> httpRespond" where
  "addContentSize sz r = addHeader ''Content-Length'' (to_string sz) (r\<lparr>hr_size := sz\<rparr>)"

definition addKeepAlive :: "bool \<Rightarrow> httpRespond \<Rightarrow> httpRespond" where
  "addKeepAlive on r = addHeader ''Connection'' (if on then ''keep-alive'' else ''Close'') r"

definition setBody :: "string \<Rightarrow> httpRespond \<Rightarrow> httpRespond" where
  "setBody b r = addContentSize (to_int (int (length b))) (r\<lparr>hr_body := b\<rparr>)"

definition linkFileFd :: "int \<Rightarrow> httpRespond \<Rightarrow> httpRespond" where
  "linkFileFd fd r = r\<lparr>hr_fd := fd\<rparr>"

definition print_headers :: "headers \<Rightarrow> string" where
  "print_headers hs = concat (map (\<lambda>(k, v). k @ '': '' @ v @ CRLF) hs)"

definition respond_text :: "httpRespond \<Rightarrow> string result" where
  "respond_text r =
     (case hr_state r of
        None \<Rightarrow> Inl Uninit_read
      | Some st \<Rightarrow> bind_res (repString st) (\<lambda>code.
          Inr (hr_version r @ '' '' @ code @ CRLF @ print_headers (hr_head r) @ CRLF)))"

definition respond :: "'k syscalls \<Rightarrow> httpRespond \<Rightarrow> 'k tconn \<Rightarrow> 'k tconn outcome" where
  "respond sk r c =
     bind_out (Some (respond_text r)) (\<lambda>line_head.
     bind_out (send sk line_head c) (\<lambda>c1.
       if hr_fd r > 0 \<and> hr_size r > 0 then sendFile sk (hr_fd r) (hr_size r) c1
       else if int (length (hr_body r)) = to_size_t (hr_size r) then send sk (hr_body r) c1
       else ok c1))"

section \<open>What a response needs of a connection\<close>

text \<open>\<open>room n s\<close>: the stream can take \<open>n\<close> more bytes.\<close>

locale output_stream =
  fixes put :: "char list \<Rightarrow> 's \<Rightarrow> 's outcome" and stream :: "'s \<Rightarrow> char list" and room :: "nat \<Rightarrow> 's \<Rightarrow> bool"
  assumes put_ok: "room n s \<Longrightarrow> length bs \<le> n
      \<Longrightarrow> \<exists>s'. put bs s = ok s' \<and> stream s' = stream s @ bs \<and> room (n - length bs) s'"
begin

lemma put_put:
  assumes "room n s" "length as + length bs \<le> n"
  shows "\<exists>s'. bind_out (put as s) (put bs) = ok s' \<and> stream s' = stream s @ as @ bs
    \<and> room (n - length as - length bs) s'"
proof -
  obtain s1 where s1: "put as s = ok s1" "stream s1 = stream s @ as" "room (n - length as) s1"
    using put_ok [OF assms(1), of as] assms(2) by auto
  with put_ok [of "n - length as" s1 bs] assms(2) show ?thesis by auto
qed

end

text \<open>A connection whose kernel never reports the peer gone.\<close>

definition peer_alive :: "'k syscalls \<Rightarrow> int \<Rightarrow> bool" where
  "peer_alive sk fd \<longleftrightarrow> (\<forall>k bs. fst (sk_write sk k fd bs) \<noteq> WFail EPIPE \<and> fst (sk_write sk k fd bs) \<noteq> WFail ECONNRESET)"

definition conn_room :: "'k syscalls \<Rightarrow> ('k \<Rightarrow> char list) \<Rightarrow> int \<Rightarrow> netBuffer \<Rightarrow> nat \<Rightarrow> 'k tconn \<Rightarrow> bool" where
  "conn_room sk sent fd inb n c \<longleftrightarrow> write_contract sk fd sent \<and> peer_alive sk fd \<and> tc_fd c = fd \<and> tc_in c = inb \<and> conn_inv c
     \<and> tc_alive c \<and> tc_inLoop c \<and> tc_state c = kConnected
     \<and> int (length (nb_bytes (tc_out c))) + int n < 2 ^ 30"

interpretation conn_out: output_stream "send sk" "wire sent" "conn_room sk sent fd inb" for sk sent fd inb
proof
  fix n :: nat and c :: "'a tconn" and bs :: "char list" assume r: "conn_room sk sent fd inb n c" and le: "length bs \<le> n"
  then have "\<not> cut_off sk bs c" by (simp add: conn_room_def peer_alive_def cut_off_def)
  moreover have "int (length (nb_bytes (tc_out c))) + int (length bs) < 2 ^ 30" "tc_state c \<noteq> kDisconnected"
    "write_contract sk (tc_fd c) sent" "conn_inv c" "tc_alive c" "tc_inLoop c"
    using r le by (simp_all add: conn_room_def)
  ultimately obtain c' where c': "sendInLoop sk (Message bs) c = ok c'" "conn_inv c'" "same_conn c c'"
    "wire sent c' = wire sent c @ bs" "length (nb_bytes (tc_out c')) \<le> length (nb_bytes (tc_out c)) + length bs"
    using sendInLoop_message [of sk c sent bs] by auto
  have "send sk bs c = ok c'" using r c'(1) by (simp add: conn_room_def send_def run_task_def)
  moreover have "conn_room sk sent fd inb (n - length bs) c'"
    using r c' le by (simp add: conn_room_def same_conn_def)
  ultimately show "\<exists>c'. send sk bs c = ok c' \<and> wire sent c' = wire sent c @ bs \<and> conn_room sk sent fd inb (n - length bs) c'"
    using c'(4) by blast
qed

section \<open>Properties\<close>

lemma respond_body_ok:
  assumes "conn_room sk sent fd inb n c" "hr_fd r \<le> 0" "hr_size r = int (length (hr_body r))" "hr_size r \<le> INT_MAX"
    "respond_text r = Inr t" "length t + length (hr_body r) \<le> n"
  shows "\<exists>c'. respond sk r c = ok c' \<and> wire sent c' = wire sent c @ t @ hr_body r
    \<and> conn_room sk sent fd inb (n - length t - length (hr_body r)) c'"
proof -
  have "to_size_t (hr_size r) = int (length (hr_body r))" using assms(3,4) to_size_t_id [of "hr_size r"] by simp
  with assms(2,5) have "respond sk r c = bind_out (send sk t c) (send sk (hr_body r))"
    by (simp add: respond_def)
  with conn_out.put_put [OF assms(1,6)] show ?thesis by auto
qed

text \<open>C24: the response on the wire.  For a response with a status, any headers and a body, on a
  connection with room for it, \<open>respond()\<close> returns and appends to the outgoing byte stream
  exactly the status line, the headers sorted by name, the blank line and the body.\<close>

theorem respond_on_wire:
  assumes "conn_room sk sent fd inb n c" "hr_fd r \<le> 0" "hr_size r = int (length (hr_body r))" "hr_size r \<le> INT_MAX"
    "respond_text r = Inr t" "length t + length (hr_body r) \<le> n"
  shows "\<exists>c'. respond sk r c = ok c' \<and> wire sent c' = wire sent c @ t @ hr_body r"
  using respond_body_ok [OF assms] by blast

theorem respond_on_wire_witness:
  "\<exists>c'. respond demo_sys3 (setBody ''hi'' (setStatusCode R200Ok new_httpRespond)) demo_conn = ok c'
    \<and> wire (\<lambda>k. k) c' = '' 200 OK'' @ CRLF @ ''Content-Length: '' @ to_string 2 @ CRLF @ CRLF @ ''hi''"
proof -
  let ?r = "setBody ''hi'' (setStatusCode R200Ok new_httpRespond)"
  have "conn_room demo_sys3 (\<lambda>k. k) 9 (tc_in demo_conn) 1000 demo_conn"
    using demo_contract demo_conn_inv by (simp add: conn_room_def peer_alive_def demo_sys3_def)
  moreover have "respond_text ?r = Inr ('' 200 OK'' @ CRLF @ ''Content-Length: '' @ to_string 2 @ CRLF @ CRLF)"
    by (simp add: respond_text_def setBody_def setStatusCode_def new_httpRespond_def addContentSize_def addHeader_def
        print_headers_def to_int_def)
  moreover have "hr_fd ?r \<le> 0" "hr_size ?r = int (length (hr_body ?r))" "hr_size ?r \<le> INT_MAX" "hr_body ?r = ''hi''"
    by (simp_all add: setBody_def setStatusCode_def new_httpRespond_def addContentSize_def addHeader_def to_int_def INT_MAX_def)
  ultimately show ?thesis
    using respond_on_wire [of demo_sys3 "\<lambda>k. k" 9 "tc_in demo_conn" 1000 demo_conn ?r "'' 200 OK'' @ CRLF @ ''Content-Length: '' @ to_string 2 @ CRLF @ CRLF"]
    by (simp add: wire_def to_string_def nat_digits.simps)
qed

text \<open>Headers are a map.  Whatever headers are added in whatever order, each name is printed once,
  with the value added last, and the names come out sorted; the order of additions of different
  names does not show in the response.\<close>

theorem headers_printed_once:
  defines "build \<equiv> \<lambda>kvs. fold (\<lambda>(k, v). addHeader k v) kvs new_httpRespond"
  shows "map_of (hr_head (build kvs)) = map_of (rev kvs) \<and> sorted (map fst (hr_head (build kvs)))
    \<and> distinct (map fst (hr_head (build kvs)))
    \<and> (map_of (rev kvs) = map_of (rev kvs') \<longrightarrow> hr_head (build kvs) = hr_head (build kvs'))"
proof -
  have fold: "hr_head (fold (\<lambda>(k, v). addHeader k v) kvs r) = fold (\<lambda>(k, v). head_set k v) kvs (hr_head r)" for kvs r
    by (induction kvs arbitrary: r) (auto simp: addHeader_def)
  have nil: "headers_ok []" by (simp add: headers_ok_def)
  have b: "hr_head (build kvs) = fold (\<lambda>(k, v). head_set k v) kvs []" for kvs
    by (simp add: build_def fold new_httpRespond_def)
  have ok: "headers_ok (hr_head (build kvs))" for kvs unfolding b by (rule hm.inv_fold [OF nil])
  have look: "map_of (hr_head (build kvs)) = map_of (rev kvs)" for kvs
    unfolding b using hm.look_fold [OF nil, of kvs] by simp
  show ?thesis
    using ok [of kvs] look hm.entries_unique [OF ok [of kvs] ok [of kvs']] by (simp add: headers_ok_def)
qed

theorem headers_printed_once_witness:
  "hr_head (fold (\<lambda>(k, v). addHeader k v) [(''b'', ''1''), (''a'', ''2'')] new_httpRespond)
    = hr_head (fold (\<lambda>(k, v). addHeader k v) [(''a'', ''2''), (''b'', ''1'')] new_httpRespond)"
proof -
  have "map_of (rev [(''b'', ''1''), (''a'', ''2'')]) = map_of (rev [(''a'', ''2''), (''b'', ''1'')])"
    by (auto simp: fun_eq_iff)
  then show ?thesis
    using headers_printed_once [of "[(''b'', ''1''), (''a'', ''2'')]" "[(''a'', ''2''), (''b'', ''1'')]"] by blast
qed

end
