(* ===== verification/Conn_Stream.thy ===== *)
theory Conn_Stream
  imports Http_Respond
begin

unbundle bit_operations_syntax

text \<open>
  A connection between the two byte streams of its socket: what \<open>handleRead\<close> does with the bytes that have
  arrived, in terms of the incoming stream, the input buffer, and the outgoing stream.  The contract of the kernel
  joins those of \<open>read(2)\<close> and \<open>write(2)\<close>: reading takes nothing from the output, writing and closing take nothing
  from the input.
\<close>

section \<open>The kernel\<close>

text \<open>Whatever \<open>read\<close> leaves alone \<open>readFd\<close> leaves alone.\<close>

lemma readFd_keeps:
  assumes "readFd rd prd fd 0 k b = ok out" "\<And>k n. g (snd (rd k fd n)) = g k"
  shows "g (rf_kernel out) = g k"
proof -
  have "\<forall>out. x = Inr out \<longrightarrow> off = 0 \<and> rd' = rd \<and> fd' = fd \<longrightarrow> g (rf_kernel out) = g k"
    if "readFd_loop rd' prd' fd' off k gs al b = Some x" for rd' prd' fd' off k gs al b x
  proof (rule readFd_loop.raw_induct [where P = "\<lambda>rd' prd' fd' off k gs al b x.
      \<forall>out. x = Inr out \<longrightarrow> off = 0 \<and> rd' = rd \<and> fd' = fd \<longrightarrow> g (rf_kernel out) = g k", OF _ that])
    fix loop rd' prd' and fd' off gs al :: int and k b x
    assume 1: "\<And>rd' prd' fd' off k gs al b x. loop rd' prd' fd' off k gs al b = Some x \<Longrightarrow>
        \<forall>out. x = Inr out \<longrightarrow> off = 0 \<and> rd' = rd \<and> fd' = fd \<longrightarrow> g (rf_kernel out) = g k"
      "(case (if off > 0 then prd' k fd' (writeable b) (off + gs) else rd' k fd' (writeable b)) of
        (Fail e, k') \<Rightarrow>
          (if e = EINTR then loop rd' prd' fd' off k' (-1) al b
           else if e = EAGAIN \<or> e = EWOULDBLOCK
           then Some (Inr \<lparr>rf_ret = al, rf_savedErrno = None, rf_closed = False, rf_buf = b, rf_kernel = k'\<rparr>)
           else Some (Inr \<lparr>rf_ret = -1, rf_savedErrno = Some e, rf_closed = False, rf_buf = b, rf_kernel = k'\<rparr>))
      | (Ret bs, k') \<Rightarrow>
          (if bs = []
           then Some (Inr \<lparr>rf_ret = 0, rf_savedErrno = None, rf_closed = True, rf_buf = b, rf_kernel = k'\<rparr>)
           else (case bind_res (kernel_store b bs) readFd_grow of
                   Inl e \<Rightarrow> Some (Inl e)
                 | Inr b' \<Rightarrow> loop rd' prd' fd' off k' (int (length bs)) (al + int (length bs)) b'))) = Some x"
    have g: "rd k fd n = (r, k') \<Longrightarrow> g k' = g k" for n r k' using assms(2) [of k n] by simp
    show "\<forall>out. x = Inr out \<longrightarrow> off = 0 \<and> rd' = rd \<and> fd' = fd \<longrightarrow> g (rf_kernel out) = g k"
    proof (intro allI impI)
      fix out assume x: "x = Inr out" and eq: "off = 0 \<and> rd' = rd \<and> fd' = fd"
      obtain r k' where c: "rd k fd (writeable b) = (r, k')" by fastforce
      show "g (rf_kernel out) = g k"
      proof (cases r)
        case (Ret bs)
        show ?thesis
        proof (cases "bs = []")
          case True
          then show ?thesis using 1(2) c g [OF c] Ret x by (auto simp: eq)
        next
          case False
          then obtain b' where "loop rd prd' fd 0 k' (int (length bs)) (al + int (length bs)) b' = Some (Inr out)"
            using 1(2) c Ret x by (auto simp: eq split: sum.splits)
          from 1(1) [OF this] g [OF c] show ?thesis by simp
        qed
      next
        case (Fail e)
        show ?thesis
        proof (cases "e = EINTR")
          case True
          then have "loop rd prd' fd 0 k' (- 1) al b = Some (Inr out)" using 1(2) c Fail x by (simp add: eq)
          from 1(1) [OF this] g [OF c] show ?thesis by simp
        qed (use 1(2) c g [OF c] Fail x in \<open>auto simp: eq split: if_splits\<close>)
      qed
    qed
  qed
  from this [of rd prd fd 0 k 0 0 b "Inr out"] assms(1) show ?thesis by (simp add: readFd_def)
qed

definition world_contract :: "'k syscalls \<Rightarrow> int \<Rightarrow> ('k \<Rightarrow> char list) \<Rightarrow> ('k \<Rightarrow> bool) \<Rightarrow> ('k \<Rightarrow> nat) \<Rightarrow> ('k \<Rightarrow> char list) \<Rightarrow> bool" where
  "world_contract sk fd stream ended intr sent \<longleftrightarrow>
     read_contract (sk_read sk) fd stream ended intr \<and> write_contract sk fd sent \<and> peer_alive sk fd
   \<and> (\<forall>k n. sent (snd (sk_read sk k fd n)) = sent k)
   \<and> (\<forall>k bs. stream (snd (sk_write sk k fd bs)) = stream k) \<and> (\<forall>k f. stream (sk_close sk k f) = stream k)"

lemma worldD:
  assumes "world_contract sk fd stream ended intr sent"
  shows "read_contract (sk_read sk) fd stream ended intr" "write_contract sk fd sent" "peer_alive sk fd"
    "sent (snd (sk_read sk k fd n)) = sent k" "stream (snd (sk_write sk k fd bs)) = stream k" "stream (sk_close sk k f) = stream k"
  using assms by (auto simp: world_contract_def)

text \<open>Whatever \<open>write\<close> and \<open>close\<close> leave alone the sending operations leave alone.\<close>

lemma keep_rest_keeps:
  assumes "keep_rest sk (Message bs) n c = ok c'"
  shows "tc_kernel c' = tc_kernel c"
  using assms by (auto simp: keep_rest_def split: if_splits)

lemma sendInLoop_keeps:
  assumes "sendInLoop sk (Message bs) c = ok c'" "\<And>k bs. g (snd (sk_write sk k (tc_fd c) bs)) = g k" "\<And>k f. g (sk_close sk k f) = g k"
  shows "g (tc_kernel c') = g (tc_kernel c)"
proof -
  obtain r k where w: "sk_write sk (tc_kernel c) (tc_fd c) bs = (r, k)" by fastforce
  have g: "g k = g (tc_kernel c)" using assms(2) [of "tc_kernel c" bs] w by simp
  from in_subLoop_ok [OF assms(1) [unfolded sendInLoop_def]] show ?thesis
    using g w assms(3)
    by (cases r) (auto simp: first_write_def after_write_def Let_def dest!: keep_rest_keeps split: if_splits)
qed

lemma handleWrite_keeps:
  assumes "handleWrite sk c = ok c'" "\<And>k bs. g (snd (sk_write sk k (tc_fd c) bs)) = g k"
  shows "g (tc_kernel c') = g (tc_kernel c)"
  using in_subLoop_ok [OF assms(1) [unfolded handleWrite_def]]
proof
  assume "tc_alive c \<and> tc_inLoop c \<and> (if isWriting (tc_channel c)
     then bind_out (Some (read_bytes (tc_out c) (readable (tc_out c)))) (\<lambda>bs.
       let (r, k) = sk_write sk (tc_kernel c) (tc_fd c) bs; c1 = c\<lparr>tc_kernel := k\<rparr> in
       case r of
         Wrote n \<Rightarrow>
           if n > 0 then bind_out (Some (retrieve (tc_out c1) (int n))) (\<lambda>b.
             let c2 = c1\<lparr>tc_out := b\<rparr> in
             if readable (tc_out c2) = 0
             then let c3 = on_channel DisableWriting c2;
                      c4 = (if tc_hasWriteComplete c3 then queue_task T_writeComplete c3 else c3)
                  in if tc_state c4 = kDisconnecting then shutdownWriteInLoop c4 else ok c4
             else ok c2)
           else ok c1
       | WFail e \<Rightarrow> ok c1)
     else ok c) = ok c'"
  moreover have "sk_write sk (tc_kernel c) (tc_fd c) bs = (r, k) \<Longrightarrow> g k = g (tc_kernel c)" for bs r k
    using assms(2) [of "tc_kernel c" bs] by simp
  ultimately show ?thesis
    by (auto simp: Let_def shutdownWriteInLoop_def in_subLoop_def split: if_splits prod.splits wret.splits dest!: sym [of _ "sk_write _ _ _ _"])
qed simp

section \<open>handleRead\<close>

text \<open>A connection in its loop, with its socket.\<close>

definition attached :: "int \<Rightarrow> 'k tconn \<Rightarrow> bool" where
  "attached fd c \<longleftrightarrow> conn_inv c \<and> tc_alive c \<and> tc_inLoop c \<and> tc_fd c = fd"

lemma attached_io [simp]:
  "attached fd (note_effect x c) = attached fd c" "attached fd (c\<lparr>tc_kernel := k\<rparr>) = attached fd c"
  "nb_inv b \<Longrightarrow> attached fd c \<Longrightarrow> attached fd (c\<lparr>tc_in := b\<rparr>)"
  by (simp_all add: attached_def conn_inv_def)

text \<open>The channel's read and write callbacks stay set.\<close>

definition handlers_set :: "'k tconn \<Rightarrow> bool" where
  "handlers_set c \<longleftrightarrow> ch_hasRead (tc_channel c) \<and> ch_hasWrite (tc_channel c)"

lemma handlers_set_simps [simp]:
  "handlers_set (note_effect x c) = handlers_set c" "handlers_set (queue_task t c) = handlers_set c" "handlers_set (close_fd sk fd c) = handlers_set c"
  "handlers_set (on_channel opr c) = handlers_set c" "handlers_set (c\<lparr>tc_kernel := k\<rparr>) = handlers_set c" "handlers_set (c\<lparr>tc_in := b\<rparr>) = handlers_set c"
  "handlers_set (c\<lparr>tc_out := b\<rparr>) = handlers_set c" "handlers_set (c\<lparr>tc_state := st\<rparr>) = handlers_set c"
  by (simp_all add: handlers_set_def on_channel_def chan_defs split: prod.splits) (cases opr; auto simp: chan_defs)+

lemma handlers_set_keep_rest: "keep_rest sk (Message bs) n c = ok c' \<Longrightarrow> handlers_set c' = handlers_set c"
  by (auto simp: keep_rest_def split: if_splits)

lemma handlers_set_sendInLoop:
  assumes "sendInLoop sk (Message bs) c = ok c'"
  shows "handlers_set c' = handlers_set c"
  using in_subLoop_ok [OF assms [unfolded sendInLoop_def]]
  by (auto simp: after_write_def Let_def dest!: handlers_set_keep_rest split: if_splits wret.splits)

lemma handlers_set_handleWrite: "handleWrite sk c = ok c' \<Longrightarrow> handlers_set c' = handlers_set c"
  by (auto simp: handleWrite_def in_subLoop_def shutdownWriteInLoop_def Let_def split: if_splits prod.splits wret.splits)

text \<open>The bytes that have arrived move to the input buffer, read until there are none left; then the connection is closed
  when the last \<open>read\<close> found the end of the stream, the message callback is called when bytes came and the last \<open>read\<close>
  would have blocked, and otherwise an error is logged.\<close>

lemma handleRead_calls:
  assumes "world_contract sk fd stream ended intr sent" "attached fd c"
    "readable (tc_in c) + int (length (stream (tc_kernel c))) + 4096 < 2 ^ 30"
  obtains b k rs r where "nb_inv b" "nb_bytes b = nb_bytes (tc_in c) @ concat (map sys_bytes rs)"
    "stream (tc_kernel c) = concat (map sys_bytes rs) @ stream k" "sent k = sent (tc_kernel c)"
    "read_calls (sk_read sk) fd (tc_kernel c) (rs @ [r]) k" "list_all reads_again rs" "\<not> reads_again r"
    "(let c1 = c\<lparr>tc_in := b, tc_kernel := k\<rparr> in
      handleRead sk cb c = (case r of Ret bs \<Rightarrow> handleClose cb c1
        | Fail e \<Rightarrow> if e = EAGAIN \<and> concat (map sys_bytes rs) \<noteq> [] then cb_message cb (note_effect Message_callback c1)
                  else handleError c1))"
proof -
  note w = worldD [OF assms(1)]
  have inv: "nb_inv (tc_in c)" using assms(2) by (simp add: attached_def conn_inv_def)
  obtain out rs r where out: "readFd (sk_read sk) (sk_pread sk) fd 0 (tc_kernel c) (tc_in c) = ok out"
    "nb_inv (rf_buf out)" "read_calls (sk_read sk) fd (tc_kernel c) (rs @ [r]) (rf_kernel out)"
    "list_all reads_again rs" "\<not> reads_again r"
    "nb_bytes (rf_buf out) = nb_bytes (tc_in c) @ concat (map sys_bytes rs)"
    "stream (tc_kernel c) = concat (map sys_bytes rs) @ stream (rf_kernel out)"
    "(rf_ret out, rf_closed out, rf_savedErrno out) = read_report r (int (length (concat (map sys_bytes rs))))"
    using readFd_loop_calls [OF w(1) order_refl inv assms(3) order_refl, of "sk_pread sk" 0]
    by (simp only: readFd_def add_0_left) blast
  have s: "sent (rf_kernel out) = sent (tc_kernel c)" by (rule readFd_keeps [OF out(1) w(4)])
  have "handleRead sk cb c = (let c1 = c\<lparr>tc_in := rf_buf out, tc_kernel := rf_kernel out\<rparr> in
      if rf_closed out then handleClose cb c1
      else if rf_ret out > 0 then cb_message cb (note_effect Message_callback c1) else handleError c1)"
    using assms(2) out(1) by (simp add: handleRead_def attached_def)
  with out(8) have "let c1 = c\<lparr>tc_in := rf_buf out, tc_kernel := rf_kernel out\<rparr> in
      handleRead sk cb c = (case r of Ret bs \<Rightarrow> handleClose cb c1
        | Fail e \<Rightarrow> if e = EAGAIN \<and> concat (map sys_bytes rs) \<noteq> [] then cb_message cb (note_effect Message_callback c1)
                  else handleError c1)"
    by (auto simp: Let_def read_report_def split: sysret.splits if_splits)
  from that [OF out(2,6,7) s out(3-5) this] show thesis .
qed

end
