(* ===== verification/File_Util.thy ===== *)
theory File_Util
  imports Adl_Prelude
begin

text \<open>
  \<open>src/src/log/fileUtil.{h,cpp}\<close>: the retrying wrappers around the file system calls and the
  appending file \<open>fileApp\<close>.  The system calls are parameters over a state \<open>'k\<close>.  The wrappers that
  keep the result in a \<open>size_t\<close> test it for being negative; the model keeps the conversion, so the
  test is always false, as it is in the code.
\<close>

section \<open>The wrappers\<close>

text \<open>A call that returns a count or fails with -1 and \<open>errno\<close>.\<close>

type_synonym 'k sys_count = "'k \<Rightarrow> wret \<times> 'k"

fun ret_int :: "wret \<Rightarrow> int" where
  "ret_int (Wrote n) = int n"
| "ret_int (WFail e) = - 1"

fun ret_errno :: "wret \<Rightarrow> errno option" where
  "ret_errno (Wrote n) = None"
| "ret_errno (WFail e) = Some e"

text \<open>\<open>xread\<close>: the loop has no exit.\<close>

definition xread :: "'k sys_count \<Rightarrow> 'k \<Rightarrow> (int \<times> 'k) outcome" where
  "xread rd = run_loop (\<lambda>k. let (r, k') = rd k; nr = to_size_t (ret_int r) in
     if nr < 0 then (if ret_errno r = Some EINTR then Some (Inr (Continue k')) else Some (Inr (Continue k')))
     else Some (Inr (Continue k')))"

text \<open>\<open>xwrite\<close>, \<open>xfwrite\<close> and \<open>xfwrite_unlocked\<close> have one shape.\<close>

definition x_count :: "'k sys_count \<Rightarrow> 'k \<Rightarrow> (int \<times> 'k) outcome" where
  "x_count wr = run_loop (\<lambda>k. let (r, k') = wr k; nr = to_size_t (ret_int r) in
     if nr < 0 \<and> ret_errno r = Some EINTR then Some (Inr (Continue k'))
     else Some (Inr (Return (nr, k'))))"

definition xwrite :: "'k sys_count \<Rightarrow> 'k \<Rightarrow> (int \<times> 'k) outcome" where
  "xwrite write k = x_count write k"

definition xfwrite :: "'k sys_count \<Rightarrow> 'k \<Rightarrow> (int \<times> 'k) outcome" where
  "xfwrite fwrite k = x_count fwrite k"

definition xfwrite_unlocked :: "'k sys_count \<Rightarrow> 'k \<Rightarrow> (int \<times> 'k) outcome" where
  "xfwrite_unlocked fwrite_unlocked k = x_count fwrite_unlocked k"

definition xpread :: "'k sys_count \<Rightarrow> 'k \<Rightarrow> (int \<times> 'k) outcome" where
  "xpread rd = run_loop (\<lambda>k. let (r, k') = rd k; nr = to_size_t (ret_int r) in
     if nr < 0 \<and> (ret_errno r = Some EAGAIN \<or> ret_errno r = Some EINTR) then Some (Inr (Continue k'))
     else Some (Inr (Return (nr, k'))))"

text \<open>\<open>xopen\<close> keeps the result of \<open>open\<close> in an \<open>int\<close>.\<close>

datatype open_ret = Opened int | Open_failed errno

type_synonym 'k sys_open = "'k \<Rightarrow> string \<Rightarrow> open_ret \<times> 'k"

definition xopen :: "'k sys_open \<Rightarrow> string \<Rightarrow> 'k \<Rightarrow> (int \<times> 'k) outcome" where
  "xopen opn path = run_loop (\<lambda>k. case opn k path of
       (Opened fd, k') \<Rightarrow> Some (Inr (Return (fd, k')))
     | (Open_failed e, k') \<Rightarrow>
         if e = EINTR then Some (Inr (Continue k')) else Some (Inr (Return (- 1, k'))))"

text \<open>\<open>xfopen\<close> returns only a stream that could be opened.\<close>

definition xfopen :: "'k sys_open \<Rightarrow> string \<Rightarrow> 'k \<Rightarrow> (int \<times> 'k) outcome" where
  "xfopen fopn path = run_loop (\<lambda>k. case fopn k path of
       (Opened fp, k') \<Rightarrow> Some (Inr (Return (fp, k')))
     | (Open_failed e, k') \<Rightarrow>
         if e = EINTR then Some (Inr (Continue k')) else Some (Inr (Continue k')))"

text \<open>\<open>xdup\<close> and \<open>xfdopen\<close> forward to the C library (\<open>fdopen\<close> gives a stream or a null pointer); the last component of the
  result is what goes to \<open>stderr\<close>.\<close>

definition xdup :: "('k \<Rightarrow> int \<Rightarrow> int \<times> 'k) \<Rightarrow> int \<Rightarrow> 'k \<Rightarrow> int \<times> 'k \<times> string" where
  "xdup dup fd k = (let (ret, k') = dup k fd in (ret, k', if ret < 0 then ''dup failed'' else []))"

definition xfdopen :: "('k \<Rightarrow> int \<Rightarrow> string \<Rightarrow> 'f option \<times> 'k) \<Rightarrow> int \<Rightarrow> string \<Rightarrow> 'k \<Rightarrow> 'f option \<times> 'k \<times> string" where
  "xfdopen fdopen fd mode k =
     (let (stream, k') = fdopen k fd mode in (stream, k', if stream = None then ''Out of memory? fdopen failed'' else []))"

section \<open>Appending files\<close>

text \<open>A file open for appending: its name, what has been written to it and \<open>writtenBytes_\<close>.\<close>

record fileApp =
  fa_name :: string
  fa_content :: "char list"
  fa_written :: int
  fa_flushed :: nat

definition new_fileApp :: "string \<Rightarrow> char list \<Rightarrow> fileApp" where
  "new_fileApp name old = \<lparr>fa_name = name, fa_content = old, fa_written = 0, fa_flushed = 0\<rparr>"

text \<open>\<open>fileApp::write\<close>.\<close>

definition fileApp_write :: "'k sys_count \<Rightarrow> 'k \<Rightarrow> (int \<times> 'k) outcome" where
  "fileApp_write fwrite_unlocked k = xfwrite_unlocked fwrite_unlocked k"

text \<open>In \<open>append\<close> a call of \<open>write\<close> is what \<open>fwrite_unlocked\<close> does with the bytes that are left: how many it took
  (\<open>fileApp_write_count\<close>).  The disk may be full.\<close>

type_synonym fwrite = "fileApp \<Rightarrow> char list \<Rightarrow> nat"

function fileApp_append_loop :: "fwrite \<Rightarrow> char list \<Rightarrow> int \<Rightarrow> fileApp \<Rightarrow> int \<times> fileApp" where
  "fileApp_append_loop fw bs tot f =
     (if bs = [] then (tot, f)
      else let written = fw f bs in
        if written = 0 then (- 1, f)
        else fileApp_append_loop fw (drop written bs) (tot + int written)
          (f\<lparr>fa_content := fa_content f @ take written bs, fa_written := fa_written f + int written\<rparr>))"
  by pat_completeness auto
termination
  by (relation "measure (\<lambda>(fw, bs, tot, f). length bs)") auto

declare fileApp_append_loop.simps [simp del]

definition fileApp_append :: "fwrite \<Rightarrow> char list \<Rightarrow> fileApp \<Rightarrow> int \<times> fileApp" where
  "fileApp_append fw bs f = fileApp_append_loop fw bs 0 f"

definition fileApp_flush :: "fileApp \<Rightarrow> fileApp" where
  "fileApp_flush f = f\<lparr>fa_flushed := length (fa_content f)\<rparr>"

text \<open>The destructor: \<open>fclose\<close> writes out what is buffered.\<close>

definition destroy_fileApp :: "fileApp \<Rightarrow> fileApp" where
  "destroy_fileApp f = fileApp_flush f"

definition all_flushed :: "fileApp \<Rightarrow> bool" where
  "all_flushed f \<longleftrightarrow> fa_flushed f = length (fa_content f)"

section \<open>Lemmas\<close>

lemma fileApp_write_count: "wr k = (Wrote n, k') \<Longrightarrow> int n < 2 ^ 64 \<Longrightarrow> fileApp_write wr k = ok (int n, k')"
  by (simp add: fileApp_write_def xfwrite_unlocked_def x_count_def run_loop_step(2) Let_def to_size_t_def)

lemma destroy_fileApp_flushed [simp]: "all_flushed (destroy_fileApp f)"
  by (simp add: all_flushed_def destroy_fileApp_def fileApp_flush_def)

lemma to_size_t_nonneg: "0 \<le> to_size_t x"
  by (simp add: to_size_t_def)

lemma xopen_returns:
  assumes "\<And>k e k'. opn k path = (Open_failed e, k') \<Longrightarrow> e = EINTR \<Longrightarrow> (intr k' :: nat) < intr k"
  shows "\<exists>r. xopen opn path k = ok r"
proof -
  have "xopen opn path k \<noteq> None"
    unfolding xopen_def by (rule run_loop_terminates [where I = "\<lambda>_. True" and m = intr])
      (use assms in \<open>auto split: prod.splits open_ret.splits if_splits\<close>)
  then obtain x where x: "xopen opn path k = Some x" by blast
  have "xopen opn path k \<noteq> Some (Inl e)" for e
  proof
    assume "xopen opn path k = Some (Inl e)"
    then have False
      unfolding xopen_def by (rule run_loop_faults [where I = "\<lambda>_. True"])
        (auto split: prod.splits open_ret.splits if_splits)
    then show False .
  qed
  with x show ?thesis by (cases x) simp_all
qed

lemma xopen_first:
  "opn k path = (Opened fd, k') \<Longrightarrow> xopen opn path k = ok (fd, k')"
  "opn k path = (Open_failed e, k') \<Longrightarrow> e \<noteq> EINTR \<Longrightarrow> xopen opn path k = ok (- 1, k')"
  unfolding xopen_def by (subst run_loop.simps, simp)+

lemma fileApp_append_loop_prefix:
  assumes "\<And>f cs. cs \<noteq> [] \<Longrightarrow> fw f cs \<le> length cs"
  shows "\<exists>n. n \<le> length bs \<and> snd (fileApp_append_loop fw bs t f) =
      f\<lparr>fa_content := fa_content f @ take n bs, fa_written := fa_written f + int n\<rparr>
    \<and> fst (fileApp_append_loop fw bs t f) = (if n = length bs then t + int n else - 1)"
proof (induction bs arbitrary: t f rule: length_induct)
  case (1 bs)
  show ?case
  proof (cases "bs = [] \<or> fw f bs = 0")
    case True
    then show ?thesis by (intro exI [of _ 0], subst (1 2) fileApp_append_loop.simps) (auto simp: Let_def)
  next
    case False
    let ?w = "fw f bs"
    let ?f = "f\<lparr>fa_content := fa_content f @ take ?w bs, fa_written := fa_written f + int ?w\<rparr>"
    have w: "0 < ?w" "?w \<le> length bs" using False assms by auto
    then have "length (drop ?w bs) < length bs" by simp
    with "1.IH" obtain n where n: "n \<le> length (drop ?w bs)"
      "snd (fileApp_append_loop fw (drop ?w bs) (t + int ?w) ?f) =
         ?f\<lparr>fa_content := fa_content ?f @ take n (drop ?w bs), fa_written := fa_written ?f + int n\<rparr>"
      "fst (fileApp_append_loop fw (drop ?w bs) (t + int ?w) ?f) =
         (if n = length (drop ?w bs) then t + int ?w + int n else - 1)"
      by meson
    have "fileApp_append_loop fw bs t f = fileApp_append_loop fw (drop ?w bs) (t + int ?w) ?f"
      using False by (subst fileApp_append_loop.simps) (simp add: Let_def)
    with n w show ?thesis
      by (intro exI [of _ "?w + n"]) (auto simp: take_add)
  qed
qed

section \<open>Properties\<close>

text \<open>Appending to a file.  When each \<open>fwrite\<close> takes at most the bytes it was offered,
  \<open>fileApp::append\<close> returns; the file grows by a prefix of the line, \<open>writtenBytes_\<close> by its
  length, and the return value is that length when the prefix is the whole line and -1
  otherwise.\<close>

theorem fileApp_append_prefix:
  assumes "\<And>f cs. cs \<noteq> [] \<Longrightarrow> fw f cs \<le> length cs"
  shows "\<exists>n f'. n \<le> length bs \<and> fileApp_append fw bs f = (if n = length bs then int n else - 1, f')
    \<and> fa_content f' = fa_content f @ take n bs \<and> fa_written f' = fa_written f + int n \<and> fa_name f' = fa_name f"
proof -
  from fileApp_append_loop_prefix [of fw bs 0 f] assms
  obtain n where n: "n \<le> length bs" "snd (fileApp_append_loop fw bs 0 f) =
      f\<lparr>fa_content := fa_content f @ take n bs, fa_written := fa_written f + int n\<rparr>"
    "fst (fileApp_append_loop fw bs 0 f) = (if n = length bs then int n else - 1)" by auto
  then have "fileApp_append fw bs f = (if n = length bs then int n else - 1,
      f\<lparr>fa_content := fa_content f @ take n bs, fa_written := fa_written f + int n\<rparr>)"
    unfolding fileApp_append_def by (metis prod.collapse)
  with n(1) show ?thesis by auto
qed

theorem fileApp_append_prefix_witness:
  "\<exists>n f'. n \<le> length ''hello'' \<and> fileApp_append (\<lambda>f cs. min 2 (length cs)) ''hello'' (new_fileApp ''a.log'' []) =
      (if n = length ''hello'' then int n else - 1, f') \<and> fa_content f' = take n ''hello''"
  using fileApp_append_prefix [of "\<lambda>f cs. min 2 (length cs)" "''hello''" "new_fileApp ''a.log'' []"]
  by (metis append_Nil fileApp.select_convs(2) min.cobounded2 new_fileApp_def)

text \<open>\<open>xread\<close> never returns, whatever \<open>read\<close> does.\<close>

theorem xread_never_returns: "xread rd k = None"
  unfolding xread_def
  by (rule run_loop_diverges [where I = "\<lambda>_. True"]) (auto simp: Let_def split: prod.splits)

text \<open>The other counting wrappers do not retry.  A call interrupted by a signal makes \<open>xwrite\<close>,
  \<open>xfwrite\<close>, \<open>xfwrite_unlocked\<close> and \<open>xpread\<close> return \<open>SIZE_MAX\<close>, because the negative result was
  converted to \<open>size_t\<close> before it is tested.\<close>

theorem interrupted_not_retried:
  assumes "wr k = (WFail EINTR, k')"
  shows "xwrite wr k = ok (2 ^ 64 - 1, k') \<and> xfwrite wr k = ok (2 ^ 64 - 1, k')
    \<and> xfwrite_unlocked wr k = ok (2 ^ 64 - 1, k') \<and> xpread wr k = ok (2 ^ 64 - 1, k')"
  using assms by (simp add: xwrite_def xfwrite_def xfwrite_unlocked_def x_count_def xpread_def run_loop_step(2) Let_def to_size_t_def)

theorem interrupted_not_retried_witness:
  "xwrite (\<lambda>k :: nat. (WFail EINTR, Suc k)) 0 = ok (2 ^ 64 - 1, 1)"
  using interrupted_not_retried [of "\<lambda>k. (WFail EINTR, Suc k)" 0 1] by simp

text \<open>\<open>xopen\<close> retries interrupted calls and returns: when signals interrupt \<open>open\<close> only finitely
  often, \<open>xopen\<close> ends with a descriptor or -1.\<close>

theorem xopen_terminates:
  assumes "\<And>k e k'. opn k path = (Open_failed e, k') \<Longrightarrow> e = EINTR \<Longrightarrow> (intr k' :: nat) < intr k"
  shows "\<exists>fd k'. xopen opn path k = ok (fd, k')"
  using xopen_returns [of opn path intr k] assms by auto

theorem xopen_terminates_witness:
  "\<exists>fd k'. xopen (\<lambda>k path. if k = 0 then (Opened 5, 0) else (Open_failed EINTR, k - 1)) ''/x'' (3 :: nat) = ok (fd, k')"
  by (rule xopen_terminates [where intr = "\<lambda>k. k"]) (auto split: if_splits)

end
