(* ===== verification/Http_Server.thy ===== *)
theory Http_Server
  imports Parser_Safety Conn_Stream File_Util
begin

text \<open>
  \<open>src/src/httpServer.{h,cpp}\<close>: what the server does with the bytes of a connection.  A message
  callback parses the input buffer; a complete request is taken out of it and answered, GET with
  a file under \<open>./source\<close>, POST by saving the body and a line of text.  The file system is a
  parameter, \<open>files\<close>, over the same kernel state as the sockets.  \<open>http_callbacks\<close> are the
  callbacks a connection of this server has; interpreting \<open>conn_client\<close> for them gives the life
  invariant of every connection the server accepts.
\<close>

section \<open>The file system\<close>

text \<open>\<open>fs_lstat\<close> gives \<open>st_size\<close> and \<open>S_ISREG(st_mode)\<close>, or fails and leaves the structure alone.
  \<open>fs_fopen\<close> opens for appending and gives the old content.  \<open>fs_store\<close> is what \<open>fclose\<close> leaves on
  the disk.\<close>

record 'k files =
  fs_open :: "'k sys_open"
  fs_lstat :: "'k \<Rightarrow> string \<Rightarrow> (int \<times> bool) option"
  fs_rand :: "'k \<Rightarrow> int \<times> 'k"
  fs_fopen :: "'k \<Rightarrow> string \<Rightarrow> char list option \<times> 'k"
  fs_fwrite :: fwrite
  fs_store :: "'k \<Rightarrow> fileApp \<Rightarrow> 'k"

text \<open>\<open>std::string::c_str\<close> as a C function sees it.\<close>

definition c_str :: "string \<Rightarrow> string" where
  "c_str s = takeWhile (\<lambda>c. c \<noteq> CHR 0x00) s"

section \<open>Handling a request\<close>

text \<open>\<open>parseUrl\<close>: the descriptor, the path, \<open>st\<close> (\<open>None\<close> while nothing has been stored in it) and the
  response with its status.\<close>

definition source_path :: "string \<Rightarrow> string" where
  "source_path url =
     (let p = ''./source'' @ url in if p = ''./source/'' then p @ ''index.html'' else p)"

definition parseUrl ::
    "'k files \<Rightarrow> string \<Rightarrow> httpRespond \<Rightarrow> 'k \<Rightarrow> (int \<times> string \<times> (int \<times> bool) option \<times> httpRespond \<times> 'k) outcome" where
  "parseUrl fs url r k =
     (let path = source_path url; path404 = ''./source/404.html'' in
      bind_out (xopen (fs_open fs) (c_str path) k) (\<lambda>(fd, k1).
        let st = (if fd = - 1 then None else fs_lstat fs k1 (c_str path)) in
        if fd = - 1 \<or> st = None \<or> \<not> snd (the st)
        then bind_out (xopen (fs_open fs) path404 k1) (\<lambda>(fd2, k2).
               let st2 = (if fd2 = - 1 then None else fs_lstat fs k2 path404)
               in ok (fd2, path404, if st2 = None then st else st2, setStatusCode R404NotFound r, k2))
        else ok (fd, path, st, setStatusCode R200Ok r, k1)))"

definition is_keepalive :: "httpRequest \<Rightarrow> bool" where
  "is_keepalive rq \<longleftrightarrow> head_getValue (rq_head rq) ''Connection'' = ''Keep-Alive''
     \<or> head_getValue (rq_head rq) ''Connection'' = ''keep-alive''"

text \<open>The end of \<open>successCallback\<close>: a short connection is closed.\<close>

definition finish_request :: "httpRequest \<Rightarrow> 'k tconn \<Rightarrow> 'k tconn outcome" where
  "finish_request rq c = (if \<not> is_keepalive rq then forceClose c else ok c)"

definition start_respond :: "httpRequest \<Rightarrow> httpRespond" where
  "start_respond rq = addKeepAlive (is_keepalive rq) (respond_setVersion (rl_version (rq_line rq)) new_httpRespond)"

definition text_html :: string where
  "text_html = ''text/html; charset=utf-8''"

definition serve_get :: "'k syscalls \<Rightarrow> 'k files \<Rightarrow> httpRequest \<Rightarrow> 'k tconn \<Rightarrow> 'k tconn outcome" where
  "serve_get sk fs rq c =
     bind_out (parseUrl fs (rl_url (rq_line rq)) (start_respond rq) (tc_kernel c)) (\<lambda>(fd, url, st, r, k).
       let c1 = c\<lparr>tc_kernel := k\<rparr> in
       if fd < 0 then forceClose c1
       else case st of
         None \<Rightarrow> Some (Inl Uninit_read)
       | Some (st_size, _) \<Rightarrow>
           bind_out (respond sk (addContentType text_html (linkFileFd fd (addContentSize (to_int st_size) r))) c1)
             (finish_request rq))"

definition saved_name :: "int \<Rightarrow> string" where
  "saved_name x = ''./source/'' @ to_string x @ ''.txt''"

definition saved_reply :: "string \<Rightarrow> string" where
  "saved_reply url = ''which your sended have saved as ./source'' @ url"

definition post_reply :: "httpRequest \<Rightarrow> httpRespond" where
  "post_reply rq =
     setBody (saved_reply (rl_url (rq_line rq)))
       (addContentType text_html (setStatusCode R200Ok (start_respond rq)))"

definition serve_post :: "'k syscalls \<Rightarrow> 'k files \<Rightarrow> httpRequest \<Rightarrow> 'k tconn \<Rightarrow> 'k tconn outcome" where
  "serve_post sk fs rq c =
     (let (x, k1) = fs_rand fs (tc_kernel c);
          name = saved_name x
      in case fs_fopen fs k1 name of
        (None, k2) \<Rightarrow> Some (Inl Abort)
      | (Some old, k2) \<Rightarrow>
          let file = snd (fileApp_append (fs_fwrite fs) (rq_body rq) (new_fileApp name old)) in
          bind_out (respond sk (post_reply rq) (c\<lparr>tc_kernel := k2\<rparr>)) (\<lambda>c1.
            finish_request rq (c1\<lparr>tc_kernel := fs_store fs (tc_kernel c1) file\<rparr>)))"

definition successCallback :: "'k syscalls \<Rightarrow> 'k files \<Rightarrow> httpRequest \<Rightarrow> 'k tconn \<Rightarrow> 'k tconn outcome" where
  "successCallback sk fs rq c =
     bind_out (Some (retrieve (tc_in c) (int (rq_parseSize rq)))) (\<lambda>b.
       let c1 = c\<lparr>tc_in := b\<rparr> in
       case rl_method (rq_line rq) of
         None \<Rightarrow> Some (Inl Uninit_read)
       | Some GET \<Rightarrow> serve_get sk fs rq c1
       | Some POST \<Rightarrow> serve_post sk fs rq c1
       | Some DONT_UNDERSTAND \<Rightarrow> finish_request rq c1)"

text \<open>\<open>peek()\<close> points into the input buffer: the parser can reach the readable bytes and whatever
  the buffer holds after them.\<close>

definition httpMessageCallback :: "'k syscalls \<Rightarrow> 'k files \<Rightarrow> 'k tconn \<Rightarrow> 'k tconn outcome" where
  "httpMessageCallback sk fs c =
     bind_out (parse_request (drop (nat (nb_r (tc_in c))) (nb_buf (tc_in c))) (nat (readable (tc_in c)))) (\<lambda>p.
       case hp_final p of
         Success \<Rightarrow> successCallback sk fs (hp_request p) c
       | Incomplete \<Rightarrow> ok c
       | Failed \<Rightarrow> shutdown (c\<lparr>tc_in := retrieveAll (tc_in c)\<rparr>))"

text \<open>The callbacks of a connection of this server: the write-complete callback is never set.\<close>

definition http_callbacks :: "'k syscalls \<Rightarrow> 'k files \<Rightarrow> 'k callbacks" where
  "http_callbacks sk fs =
     \<lparr>cb_message = httpMessageCallback sk fs, cb_close = removeConnection, cb_writeComplete = (\<lambda>c. ok c)\<rparr>"

section \<open>The life of the server's connections\<close>

lemma life_inv_io [simp]:
  "life_inv (c\<lparr>tc_kernel := k\<rparr>) = life_inv c" "life_inv (c\<lparr>tc_in := b\<rparr>) = life_inv c"
  "life_le (c\<lparr>tc_kernel := k\<rparr>) d = life_le c d" "life_le (c\<lparr>tc_in := b\<rparr>) d = life_le c d"
  by (simp_all add: life_inv_def life_le_def)

lemma keeps_ok [keeps_intros]: "keeps (\<lambda>c. ok c)"
  by (rule keepsI) simp

text \<open>Changing the kernel or the input buffer first does not matter.\<close>

lemma keeps_kernel:
  assumes "keeps f" "life_inv c" "f (c\<lparr>tc_kernel := k\<rparr>) = ok c'"
  shows "life_inv c' \<and> life_le c c'"
  using keepsD [OF assms(1) _ assms(3)] assms(2) by simp

lemma keeps_input:
  assumes "keeps f" "life_inv c" "f (c\<lparr>tc_in := b\<rparr>) = ok c'"
  shows "life_inv c' \<and> life_le c c'"
  using keepsD [OF assms(1) _ assms(3)] assms(2) by simp

lemma keeps_finish [keeps_intros]: "keeps (finish_request rq)"
  by (rule keepsI) (auto simp: finish_request_def dest: keepsD [OF keeps_forceClose] split: if_splits)

lemma keeps_respond [keeps_intros]: "keeps (respond sk r)"
proof (rule keepsI)
  fix c c' :: "'a tconn" assume c: "life_inv c" "respond sk r c = ok c'"
  then obtain t c1 where t: "respond_text r = Inr t" and c1: "send sk t c = ok c1"
    and c': "(if hr_fd r > 0 \<and> hr_size r > 0 then sendFile sk (hr_fd r) (hr_size r) c1
       else if int (length (hr_body r)) = to_size_t (hr_size r) then send sk (hr_body r) c1 else ok c1) = ok c'"
    by (auto simp: respond_def)
  have 1: "life_inv c1" "life_le c c1" using keepsD [OF keeps_send c(1) c1] by auto
  have "life_inv c' \<and> life_le c1 c'"
    using c' 1(1) keepsD [OF keeps_send 1(1)] keepsD [OF keeps_sendFile 1(1)] by (auto split: if_splits)
  with 1 show "life_inv c' \<and> life_le c c'" by (auto intro: life_le_trans)
qed

lemma keeps_serve_get [keeps_intros]: "keeps (serve_get sk fs rq)"
proof (rule keepsI)
  fix c c' :: "'a tconn" assume c: "life_inv c" "serve_get sk fs rq c = ok c'"
  from c(2) [unfolded serve_get_def] obtain q where
    q: "parseUrl fs (rl_url (rq_line rq)) (start_respond rq) (tc_kernel c) = ok q"
    "(case q of (fd, url, st, r, k) \<Rightarrow> let c1 = c\<lparr>tc_kernel := k\<rparr> in if fd < 0 then forceClose c1
      else case st of None \<Rightarrow> Some (Inl Uninit_read)
      | Some (n, _) \<Rightarrow> bind_out (respond sk (addContentType text_html (linkFileFd fd (addContentSize (to_int n) r))) c1)
          (finish_request rq)) = ok c'"
    by (rule bind_out_okE)
  obtain fd url st r k where "q = (fd, url, st, r, k)" by (rule prod_cases5)
  with q(2) show "life_inv c' \<and> life_le c c'"
    using keeps_kernel [OF keeps_forceClose c(1)]
      keeps_kernel [OF keeps_bind [OF keeps_respond keeps_finish] c(1)]
    by (auto simp: Let_def split: if_splits option.splits prod.splits)
qed

lemma keeps_serve_post [keeps_intros]: "keeps (serve_post sk fs rq)"
proof (rule keepsI)
  fix c c' :: "'a tconn" assume c: "life_inv c" "serve_post sk fs rq c = ok c'"
  from c(2) obtain k f where g: "bind_out (respond sk (post_reply rq) (c\<lparr>tc_kernel := k\<rparr>)) (\<lambda>c1.
      finish_request rq (c1\<lparr>tc_kernel := fs_store fs (tc_kernel c1) f\<rparr>)) = ok c'"
    by (auto simp: serve_post_def Let_def split: prod.splits option.splits)
  then obtain c1 where c1: "respond sk (post_reply rq) (c\<lparr>tc_kernel := k\<rparr>) = ok c1"
    "finish_request rq (c1\<lparr>tc_kernel := fs_store fs (tc_kernel c1) f\<rparr>) = ok c'" by blast
  with keeps_kernel [OF keeps_respond c(1) c1(1)] keeps_kernel [OF keeps_finish _ c1(2)]
  show "life_inv c' \<and> life_le c c'" by (blast intro: life_le_trans)
qed

lemma keeps_successCallback [keeps_intros]: "keeps (successCallback sk fs rq)"
proof (rule keepsI)
  fix c c' :: "'a tconn" assume c: "life_inv c" "successCallback sk fs rq c = ok c'"
  then show "life_inv c' \<and> life_le c c'"
    using keeps_input [OF keeps_serve_get c(1)] keeps_input [OF keeps_serve_post c(1)] keeps_input [OF keeps_finish c(1)]
    by (auto simp: successCallback_def Let_def split: option.splits http_method.splits)
qed

lemma keeps_message: "keeps (httpMessageCallback sk fs)"
proof (rule keepsI)
  fix c c' :: "'a tconn" assume c: "life_inv c" "httpMessageCallback sk fs c = ok c'"
  then show "life_inv c' \<and> life_le c c'"
    using keepsD [OF keeps_successCallback c(1)] keeps_input [OF keeps_shutdown c(1)]
    by (auto simp: httpMessageCallback_def split: FinnalState.splits)
qed

interpretation http: conn_client sk "http_callbacks sk fs" for sk fs
  by unfold_locales (simp_all add: http_callbacks_def keeps_message keeps_removeConnection keeps_ok)

lemma handleClose_closed:
  "tc_alive c \<Longrightarrow> tc_inLoop c \<Longrightarrow> tc_state c = kDisconnected \<Longrightarrow> handleClose cb c = Some (Inl Assert_failed)"
  by (simp add: handleClose_def)

section \<open>Properties\<close>

text \<open>C8: the life of every connection.  For a connection of this server, after any sequence of events, queued tasks and calls
  from any thread, with any kernel and any file system, each of which has returned: the close callback has run not at all
  while the connection is not disconnected, and at most once after that; bytes that wait in the output buffer are waited for with
  EPOLLOUT as long as the connection is not disconnected.  Whatever is called next, it either returns with the state not moved backwards from
  disconnected towards connecting and the same holding again, or it ends in a fault (an assertion, an abort or an uncaught exception of
  the server, which ends the process) or does not return.  One such fault is certain: a second close of a disconnected
  connection fails the assertion in \<open>handleClose\<close> (theorem \<open>hangup_closes_twice\<close> shows an event that does this), so the close callback is not
  called a second time but the process is aborted.\<close>

theorem http_connection_life:
  assumes "reachable conn_init (conn_step sk (http_callbacks sk fs)) c"
  shows "count_list (tc_trace c) Close_callback \<le> (if tc_state c = kDisconnected then 1 else 0)
    \<and> (readable (tc_out c) = 0 \<or> tc_state c = kDisconnected \<or> isWriting (tc_channel c))
    \<and> (case conn_do sk (http_callbacks sk fs) opr (c\<lparr>tc_inLoop := b\<rparr>) of
        Some (Inr c') \<Rightarrow> rank (tc_state c) \<le> rank (tc_state c') \<and> reachable conn_init (conn_step sk (http_callbacks sk fs)) c'
          \<and> count_list (tc_trace c') Close_callback \<le> (if tc_state c' = kDisconnected then 1 else 0)
      | Some (Inl e) \<Rightarrow> True | None \<Rightarrow> True)
    \<and> (tc_alive c \<and> tc_state c = kDisconnected
       \<longrightarrow> handleClose (http_callbacks sk fs) (c\<lparr>tc_inLoop := True\<rparr>) = Some (Inl Assert_failed))"
proof -
  have c: "life_inv c" using assms by (rule http.life.inv_reachable)
  have next': "rank (tc_state c) \<le> rank (tc_state c') \<and> reachable conn_init (conn_step sk (http_callbacks sk fs)) c'
      \<and> count_list (tc_trace c') Close_callback \<le> (if tc_state c' = kDisconnected then 1 else 0)"
    if "conn_do sk (http_callbacks sk fs) opr (c\<lparr>tc_inLoop := b\<rparr>) = ok c'" for c'
  proof -
    have st: "conn_step sk (http_callbacks sk fs) c c'" using that by (rule conn_op)
    with assms have "reachable conn_init (conn_step sk (http_callbacks sk fs)) c'" by (rule reachable_step)
    with http.step_life [OF c st] show ?thesis by (simp add: life_inv_def life_le_def)
  qed
  then have "case conn_do sk (http_callbacks sk fs) opr (c\<lparr>tc_inLoop := b\<rparr>) of
        Some (Inr c') \<Rightarrow> rank (tc_state c) \<le> rank (tc_state c') \<and> reachable conn_init (conn_step sk (http_callbacks sk fs)) c'
          \<and> count_list (tc_trace c') Close_callback \<le> (if tc_state c' = kDisconnected then 1 else 0)
      | Some (Inl e) \<Rightarrow> True | None \<Rightarrow> True"
    by (auto split: option.splits sum.splits)
  with c handleClose_closed [of "c\<lparr>tc_inLoop := True\<rparr>"] show ?thesis by (auto simp: life_inv_def)
qed

text \<open>For the witness: a file system without files; the reads of \<open>demo_sys3\<close> find the end of the stream.  The connection is
  established and the peer's close is read.\<close>

definition demo_fs :: "char list files" where
  "demo_fs = \<lparr>fs_open = (\<lambda>k p. (Open_failed ENOENT, k)), fs_lstat = (\<lambda>k p. None), fs_rand = (\<lambda>k. (0, k)),
     fs_fopen = (\<lambda>k p. (None, k)), fs_fwrite = (\<lambda>f cs. 0), fs_store = (\<lambda>k f. k)\<rparr>"

lemma demo_established:
  defines "c1 \<equiv> note_effect Connection_callback (on_channel EnableReading ((new_TcpConnection 9 1 False new_Epoller ([] :: char list))\<lparr>tc_inLoop := True, tc_state := kConnected\<rparr>))"
  shows "reachable conn_init (conn_step demo_sys3 (http_callbacks demo_sys3 demo_fs)) c1"
    "tc_alive c1" "tc_inLoop c1" "tc_state c1 = kConnected" "handlers_set c1" "ch_hasClose (tc_channel c1)" "count_list (tc_trace c1) Close_callback = 0"
proof -
  let ?c0 = "new_TcpConnection 9 1 False new_Epoller ([] :: char list)" and ?cb = "http_callbacks demo_sys3 demo_fs"
  have "conn_init ?c0" unfolding conn_init_def by blast
  then have init: "reachable conn_init (conn_step demo_sys3 ?cb) ?c0" by (rule reachable_init)
  have "conn_do demo_sys3 ?cb Do_established (?c0\<lparr>tc_inLoop := True\<rparr>) = ok c1"
    by (simp add: c1_def connectEstablished_def new_TcpConnection_def)
  then have "conn_step demo_sys3 ?cb ?c0 c1" by (rule conn_op)
  with init show "reachable conn_init (conn_step demo_sys3 ?cb) c1" by (rule reachable_step)
  show "tc_alive c1" "tc_inLoop c1" "tc_state c1 = kConnected" "handlers_set c1" "count_list (tc_trace c1) Close_callback = 0"
    by (simp_all add: c1_def) (simp_all add: new_TcpConnection_def handlers_set_def)
  show "ch_hasClose (tc_channel c1)"
    by (simp add: c1_def on_channel_def chan_defs new_TcpConnection_def new_Channel_def split: prod.splits)
qed

lemma demo_read_end: "sk_read demo_sys3 k fd n = (Ret [], k)"
  by (simp add: demo_sys3_def)

theorem http_connection_life_witness:
  "\<exists>c. reachable conn_init (conn_step demo_sys3 (http_callbacks demo_sys3 demo_fs)) c
    \<and> tc_state c = kDisconnected \<and> count_list (tc_trace c) Close_callback = 1
    \<and> handleClose (http_callbacks demo_sys3 demo_fs) (c\<lparr>tc_inLoop := True\<rparr>) = Some (Inl Assert_failed)"
proof -
  let ?cb = "http_callbacks demo_sys3 demo_fs"
  obtain c1 where c1: "reachable conn_init (conn_step demo_sys3 ?cb) c1"
    "tc_alive c1" "tc_inLoop c1" "tc_state c1 = kConnected" "handlers_set c1" "count_list (tc_trace c1) Close_callback = 0"
    using demo_established by blast
  let ?e = "c1\<lparr>tc_inLoop := True, tc_channel := (tc_channel c1)\<lparr>ch_revents := EPOLLIN\<rparr>\<rparr>"
  let ?d = "note_effect Close_callback (on_channel DisableAll (?e\<lparr>tc_state := kDisconnected\<rparr>))"
  let ?c2 = "note_effect Leave_connectSet (queue_task T_connectDestroyed ?d)"
  have ev: "handleEvent (tc_channel ?e) = [ReadCallback]" using c1(5) by (simp add: handlers_set_def handleEvent_def mask_defs)
  have "readFd (sk_read demo_sys3) (sk_pread demo_sys3) (tc_fd ?e) 0 (tc_kernel ?e) (tc_in ?e)
      = ok \<lparr>rf_ret = 0, rf_savedErrno = None, rf_closed = True, rf_buf = tc_in ?e, rf_kernel = tc_kernel ?e\<rparr>"
    unfolding readFd_def by (subst readFd_loop.simps) (simp add: demo_read_end)
  then have "handleRead demo_sys3 ?cb ?e = handleClose ?cb ?e" using c1(2) by (simp add: handleRead_def)
  also have "\<dots> = ok ?c2"
    using c1(2,4) removeConnection_ok [of ?d] by (simp add: handleClose_def http_callbacks_def)
  finally have "conn_do demo_sys3 ?cb (Do_event EPOLLIN) (c1\<lparr>tc_inLoop := True\<rparr>) = ok ?c2"
    using ev by (simp add: conn_event_def Let_def)
  then have "conn_step demo_sys3 ?cb c1 ?c2" by (rule conn_op)
  with c1(1) have r: "reachable conn_init (conn_step demo_sys3 ?cb) ?c2" by (rule reachable_step)
  have st: "tc_state ?c2 = kDisconnected" "tc_alive ?c2" "count_list (tc_trace ?c2) Close_callback = 1" using c1(2,6) by simp_all
  from http_connection_life [OF r, of "Do_event EPOLLIN" True] st(1,2)
  have "handleClose ?cb (?c2\<lparr>tc_inLoop := True\<rparr>) = Some (Inl Assert_failed)" by blast
  with r st show ?thesis by blast
qed

text \<open>C40: a hang-up closes twice.  On a live connection of this server (its close callback is \<open>TcpServer::removeConnection\<close>), when
  \<open>epoll_wait\<close> reports EPOLLHUP and EPOLLRDHUP without EPOLLIN and the next \<open>read\<close> finds the end of the stream,
  \<open>handleEvent\<close> first runs the close callback, which completes: the connection is disconnected and has left the loop's
  set.  It then runs the read callback, which closes a second time, and the assertion in \<open>handleClose\<close> fails: the process is
  aborted.\<close>

theorem hangup_closes_twice:
  assumes "tc_alive c" "tc_inLoop c" "tc_state c = kConnected \<or> tc_state c = kDisconnecting"
    "ch_hasClose (tc_channel c)" "ch_hasRead (tc_channel c)"
    "sk_read sk (tc_kernel c) (tc_fd c) (writeable (tc_in c)) = (Ret [], k')"
  defines "c0 \<equiv> c\<lparr>tc_channel := (tc_channel c)\<lparr>ch_revents := EPOLLHUP OR EPOLLRDHUP\<rparr>\<rparr>"
  shows "\<exists>c1. handleEvent (tc_channel c0) = [CloseCallback, ReadCallback]
    \<and> handleClose (http_callbacks sk fs) c0 = ok c1 \<and> tc_state c1 = kDisconnected
    \<and> tc_trace c1 = tc_trace c @ [Close_callback, Leave_connectSet]
    \<and> handleRead sk (http_callbacks sk fs) c1 = Some (Inl Assert_failed)
    \<and> conn_event sk (http_callbacks sk fs) (EPOLLHUP OR EPOLLRDHUP) c = Some (Inl Assert_failed)"
  unfolding c0_def by (rule hangup_event [OF assms(1-5) _ assms(6)]) (simp add: http_callbacks_def)

theorem hangup_closes_twice_witness:
  "\<exists>c. reachable conn_init (conn_step demo_sys3 (http_callbacks demo_sys3 demo_fs)) c
    \<and> conn_event demo_sys3 (http_callbacks demo_sys3 demo_fs) (EPOLLHUP OR EPOLLRDHUP) c = Some (Inl Assert_failed)"
proof -
  obtain c1 where c1: "reachable conn_init (conn_step demo_sys3 (http_callbacks demo_sys3 demo_fs)) c1"
    "tc_alive c1" "tc_inLoop c1" "tc_state c1 = kConnected" "handlers_set c1" "ch_hasClose (tc_channel c1)"
    using demo_established by blast
  have "ch_hasRead (tc_channel c1)" using c1(5) by (simp add: handlers_set_def)
  from hangup_closes_twice [OF c1(2,3) disjI1 [OF c1(4)] c1(6) this demo_read_end, where fs = demo_fs] c1(1) show ?thesis by blast
qed

end
