(* ===== verification/Http_Serving.thy ===== *)
theory Http_Serving
  imports Http_Server "HOL-Library.Sublist"
begin

text \<open>
  What a client of the server sees: requests as bytes in the input buffer, answers as bytes on the
  wire.  The theorems compose the parser, the response printer, the connection and the file system
  through \<open>httpMessageCallback\<close>.
\<close>

section \<open>The head of an answer\<close>

definition reply_head :: "httpRequest \<Rightarrow> string \<Rightarrow> int \<Rightarrow> string" where
  "reply_head rq code sz = rl_version (rq_line rq) @ '' '' @ code @ CRLF
     @ ''Connection: '' @ (if is_keepalive rq then ''keep-alive'' else ''Close'') @ CRLF
     @ ''Content-Length: '' @ to_string sz @ CRLF
     @ ''Content-Type: '' @ text_html @ CRLF @ CRLF"

lemma header_order [simp]:
  "''Connection'' < ''Content-Length''" "''Connection'' < ''Content-Type''" "''Content-Length'' < ''Content-Type''"
  by (simp_all add: less_char_def)

lemma header_order' [simp]:
  "\<not> ''Content-Length'' < ''Connection''" "\<not> ''Content-Type'' < ''Connection''" "\<not> ''Content-Type'' < ''Content-Length''"
  using header_order by (simp_all add: not_less order.strict_implies_order del: header_order Cons_less_Cons)

lemma post_reply_text:
  assumes "int (length (rl_url (rq_line rq))) < INT_MAX - 100"
  shows "hr_fd (post_reply rq) = - 1" 
    "hr_body (post_reply rq) = saved_reply (rl_url (rq_line rq))"
    "hr_size (post_reply rq) = int (length (hr_body (post_reply rq)))"
    "respond_text (post_reply rq) = Inr (reply_head rq ''200 OK'' (hr_size (post_reply rq)))"
  using assms
  by (simp_all add: post_reply_def setBody_def addContentType_def addContentSize_def addHeader_def setStatusCode_def
     start_respond_def addKeepAlive_def respond_setVersion_def new_httpRespond_def respond_text_def print_headers_def
     reply_head_def to_int_id fits_int_def INT_MIN_def saved_reply_def)


text \<open>What the server relies on: file operations put nothing on the socket, and a stored file can be
  read back.\<close>

definition files_contract :: "'k files \<Rightarrow> ('k \<Rightarrow> char list) \<Rightarrow> ('k \<Rightarrow> string \<Rightarrow> char list) \<Rightarrow> bool" where
  "files_contract fs sent stored \<longleftrightarrow>
     (\<forall>k p. sent (snd (fs_open fs k p)) = sent k) \<and> (\<forall>k. sent (snd (fs_rand fs k)) = sent k)
     \<and> (\<forall>k p. sent (snd (fs_fopen fs k p)) = sent k) \<and> (\<forall>k f. sent (fs_store fs k f) = sent k)
     \<and> (\<forall>k f. stored (fs_store fs k f) (fa_name f) = fa_content f)"

lemma nb_cells_buf:
  assumes "nb_inv b"
  shows "\<exists>tail. drop (nat (nb_r b)) (nb_buf b) = map Some (nb_bytes b) @ tail \<and> nat (readable b) = length (nb_bytes b)"
proof -
  have "nb_cells b = map Some (nb_bytes b)" using nb_cells_bytes [OF nb_inv_wf [OF assms]] .
  then have "take (nat (nb_w b - nb_r b)) (drop (nat (nb_r b)) (nb_buf b)) = map Some (nb_bytes b)"
    by (simp add: nb_cells_def)
  then show ?thesis using length_nb_bytes [OF nb_inv_wf [OF assms]] append_take_drop_id by (metis nat_int)
qed

lemma conn_room_kernel: "sent k = sent (tc_kernel c) \<Longrightarrow> conn_room sk sent fd inb n (c\<lparr>tc_kernel := k\<rparr>) = conn_room sk sent fd inb n c"
  by (simp add: conn_room_def conn_inv_def)

lemma conn_room_input: "conn_room sk sent fd inb n c \<Longrightarrow> nb_inv b \<Longrightarrow> conn_room sk sent fd b n (c\<lparr>tc_in := b\<rparr>)"
  by (auto simp: conn_room_def conn_inv_def)

text \<open>Closing or keeping the connection after the answer.\<close>

lemma finish_request_ok:
  assumes "tc_state c = kConnected" "tc_alive c"
  shows "\<exists>c'. finish_request rq c = ok c' \<and> tc_in c' = tc_in c \<and> tc_out c' = tc_out c \<and> tc_kernel c' = tc_kernel c
    \<and> tc_state c' = (if is_keepalive rq then kConnected else kDisconnecting)
    \<and> tc_queue c' = tc_queue c @ (if is_keepalive rq then [] else [T_forceCloseInLoop])
    \<and> tc_channel c' = tc_channel c \<and> tc_alive c' = tc_alive c \<and> tc_inLoop c' = tc_inLoop c"
  using assms by (simp add: finish_request_def forceClose_def Let_def)

text \<open>The queued close of a short connection, when the loop runs it: the connection is disconnected whatever still waits in
  its output buffer; the kernel's state is untouched, so nothing more is sent.\<close>

lemma forced_close:
  assumes "tc_alive c" "tc_inLoop c" "tc_state c = kDisconnecting"
  shows "\<exists>c'. run_conn_task sk (http_callbacks sk fs) T_forceCloseInLoop c = ok c' \<and> tc_state c' = kDisconnected
    \<and> tc_kernel c' = tc_kernel c"
  using assms
  by (simp add: forceCloseInLoop_def handleClose_def http_callbacks_def removeConnection_def run_task_def removeConnectionInLoop_def)

text \<open>A parsed request leaves the input buffer, and nothing else does: the assertion in \<open>retrieve\<close>
  cannot fail.\<close>

lemma message_parsed:
  assumes "nb_inv (tc_in c)"
    "\<And>tail. \<exists>p. parse_request (map Some (nb_bytes (tc_in c)) @ tail) (length (nb_bytes (tc_in c))) = Some (Inr p)
       \<and> hp_final p = Success \<and> hp_request p = rq"
  shows "\<exists>b. nb_inv b \<and> nb_bytes b = drop (rq_parseSize rq) (nb_bytes (tc_in c))
    \<and> retrieve (tc_in c) (int (rq_parseSize rq)) = Inr b \<and> httpMessageCallback sk fs c = successCallback sk fs rq c"
proof -
  obtain tail where t: "drop (nat (nb_r (tc_in c))) (nb_buf (tc_in c)) = map Some (nb_bytes (tc_in c)) @ tail"
    "nat (readable (tc_in c)) = length (nb_bytes (tc_in c))" using nb_cells_buf [OF assms(1)] by blast
  from assms(2) [of tail] obtain p where p:
    "parse_request (map Some (nb_bytes (tc_in c)) @ tail) (length (nb_bytes (tc_in c))) = Some (Inr p)"
    "hp_final p = Success" "hp_request p = rq" by blast
  then have "httpMessageCallback sk fs c = successCallback sk fs rq c" by (simp add: httpMessageCallback_def t)
  moreover have "rq_parseSize rq \<le> length (nb_bytes (tc_in c))" using parse_success_size [OF p(1,2)] p(3) by simp
  ultimately show ?thesis using nbq.get_ok [OF assms(1)] by blast
qed

lemma post_message_ok:
  fixes u v hs defines "rq \<equiv> \<lambda>body. \<lparr>rq_parseSize = length (request_text POST u v hs @ body),
        rq_line = parsed_line POST u v, rq_head = map_of hs, rq_body = body\<rparr>"
  assumes "nb_inv (tc_in c)" "nb_bytes (tc_in c) = request_text POST u v hs @ body @ rest"
    "ok_url u" "ok_version v" "\<forall>kv\<in>set hs. ok_header kv"
    "map_of hs ''Content-Length'' = Some (to_string (int (length body)))" "body \<noteq> []"
  shows "\<exists>b. nb_inv b \<and> nb_bytes b = rest \<and> httpMessageCallback sk fs c = serve_post sk fs (rq body) (c\<lparr>tc_in := b\<rparr>)"
proof -
  have len: "int (length (request_text POST u v hs @ body @ rest)) \<le> INT_MAX"
    using readable_bounds [OF assms(2)] length_nb_bytes [OF nb_inv_wf [OF assms(2)]] assms(3) by simp
  have "\<exists>p. parse_request (map Some (nb_bytes (tc_in c)) @ tail) (length (nb_bytes (tc_in c))) = Some (Inr p)
       \<and> hp_final p = Success \<and> hp_request p = rq body" for tail
    using parse_post_ok [OF assms(4-8) len, of tail] by (simp add: assms(3) rq_def)
  from message_parsed [OF assms(2) this] obtain b where "nb_inv b" "nb_bytes b = rest"
    "retrieve (tc_in c) (int (rq_parseSize (rq body))) = Inr b" "httpMessageCallback sk fs c = successCallback sk fs (rq body) c"
    by (auto simp: assms(3) rq_def)
  then show ?thesis by (auto simp: successCallback_def rq_def parsed_line_def)
qed

lemma get_message_ok:
  fixes u v hs defines "rq \<equiv> \<lparr>rq_parseSize = length (request_text GET u v hs),
        rq_line = parsed_line GET u v, rq_head = map_of hs, rq_body = []\<rparr>"
  assumes "nb_inv (tc_in c)" "nb_bytes (tc_in c) = request_text GET u v hs @ rest"
    "ok_url u" "ok_version v" "\<forall>kv\<in>set hs. ok_header kv"
  shows "\<exists>b. nb_inv b \<and> nb_bytes b = rest \<and> httpMessageCallback sk fs c = serve_get sk fs rq (c\<lparr>tc_in := b\<rparr>)"
proof -
  have "\<exists>p. parse_request (map Some (nb_bytes (tc_in c)) @ tail) (length (nb_bytes (tc_in c))) = Some (Inr p)
       \<and> hp_final p = Success \<and> hp_request p = rq" for tail
    using parse_get_ok [OF assms(4-6), of rest tail] by (simp add: assms(3) rq_def)
  from message_parsed [OF assms(2) this] obtain b where "nb_inv b" "nb_bytes b = rest"
    "retrieve (tc_in c) (int (rq_parseSize rq)) = Inr b" "httpMessageCallback sk fs c = successCallback sk fs rq c"
    by (auto simp: assms(3) rq_def)
  then show ?thesis by (auto simp: successCallback_def rq_def parsed_line_def)
qed

section \<open>Sending the head and a file\<close>

text \<open>How many bytes a write took.\<close>

definition bytes_taken :: "wret \<Rightarrow> nat" where
  "bytes_taken r = (case r of Wrote n \<Rightarrow> n | WFail e \<Rightarrow> 0)"

text \<open>\<open>sendfile(2)\<close> on the opened file: it sends a prefix of its content, possibly all, or fails and sends nothing.\<close>

definition sendfile_contract :: "'k syscalls \<Rightarrow> ('k \<Rightarrow> char list) \<Rightarrow> int \<Rightarrow> int \<Rightarrow> char list \<Rightarrow> bool" where
  "sendfile_contract sk sent fd ffd content \<longleftrightarrow>
     (\<forall>k. case sk_sendfile sk k fd ffd (int (length content)) of
        (Wrote n, k') \<Rightarrow> n \<le> length content \<and> sent k' = sent k @ take n content
      | (WFail e, k') \<Rightarrow> sent k' = sent k)"

text \<open>A descriptor that has been closed cannot be read.\<close>

definition closed_contract :: "'k syscalls \<Rightarrow> ('k \<Rightarrow> char list) \<Rightarrow> int \<Rightarrow> bool" where
  "closed_contract sk sent ffd \<longleftrightarrow>
     (\<forall>k n off. fst (sk_read sk (sk_close sk k ffd) ffd n) = Fail EBADF \<and> sent (snd (sk_read sk (sk_close sk k ffd) ffd n)) = sent k
        \<and> fst (sk_pread sk (sk_close sk k ffd) ffd n off) = Fail EBADF
        \<and> sent (snd (sk_pread sk (sk_close sk k ffd) ffd n off)) = sent k)"

definition idle :: "'k tconn \<Rightarrow> bool" where
  "idle c \<longleftrightarrow> tc_alive c \<and> tc_inLoop c \<and> tc_state c = kConnected \<and> \<not> isWriting (tc_channel c)
     \<and> nb_inv (tc_out c) \<and> nb_bytes (tc_out c) = []"

lemma idle_out: "idle c \<Longrightarrow> readable (tc_out c) = 0 \<and> nb_bytes (tc_out c) = []"
  by (simp add: idle_def readable_zero)

lemma idle_io [simp]: "idle (c\<lparr>tc_in := b\<rparr>) = idle c" "idle (c\<lparr>tc_kernel := k\<rparr>) = idle c"
  by (simp_all add: idle_def)

text \<open>A connection ready to answer: idle, valid, with a live peer.\<close>

definition ready :: "'k syscalls \<Rightarrow> ('k \<Rightarrow> char list) \<Rightarrow> int \<Rightarrow> 'k tconn \<Rightarrow> bool" where
  "ready sk sent fd c \<longleftrightarrow> idle c \<and> conn_inv c \<and> tc_fd c = fd \<and> write_contract sk fd sent \<and> peer_alive sk fd"

lemma ready_io [simp]: "ready sk sent fd (c\<lparr>tc_kernel := k\<rparr>) = ready sk sent fd c"
  "nb_inv b \<Longrightarrow> ready sk sent fd c \<Longrightarrow> ready sk sent fd (c\<lparr>tc_in := b\<rparr>)"
  by (simp_all add: ready_def conn_inv_def)

lemma write_contractD:
  assumes "write_contract sk fd sent" "sk_write sk k fd bs = (r, k')"
  shows "sent k' = sent k @ take (bytes_taken r) bs" "bytes_taken r \<le> length bs" "sent (sk_close sk k f) = sent k"
proof -
  have w: "case sk_write sk k fd bs of
        (Wrote n, k') \<Rightarrow> n \<le> length bs \<and> sent k' = sent k @ take n bs
      | (WFail e, k') \<Rightarrow> sent k' = sent k" and "sent (sk_close sk k f) = sent k"
    using assms(1) unfolding write_contract_def by auto
  with assms(2) show "sent k' = sent k @ take (bytes_taken r) bs" "bytes_taken r \<le> length bs" "sent (sk_close sk k f) = sent k"
    by (auto simp: bytes_taken_def split: wret.splits)
qed

text \<open>Sending on an idle connection: what the kernel takes at once is on the wire; if that is not everything the rest
  waits in the output buffer.\<close>

lemma send_ready:
  assumes "ready sk sent fd c" "sk_write sk (tc_kernel c) fd bs = (r, k)" "bs \<noteq> []" "int (length bs) < 2 ^ 30"
  shows "\<exists>c'. send sk bs c = ok c' \<and> same_conn c c' \<and> conn_inv c'
    \<and> (if r = Wrote (length bs) then ready sk sent fd c' \<and> tc_kernel c' = sk_close sk k (- 1)
       else isWriting (tc_channel c') \<and> nb_bytes (tc_out c') = drop (bytes_taken r) bs \<and> sent (tc_kernel c') = sent k)"
proof -
  note rd = assms(1) [unfolded ready_def idle_def]
  have w: "write_contract sk fd sent" using rd by simp
  note wc = write_contractD [OF w assms(2)]
  have noerr: "r \<noteq> WFail EPIPE" "r \<noteq> WFail ECONNRESET" using rd assms(2) unfolding peer_alive_def by (metis fst_conv)+
  have out0: "readable (tc_out c) = 0" "nb_bytes (tc_out c) = []" using rd readable_zero by simp_all
  let ?c1 = "c\<lparr>tc_kernel := k\<rparr>"
  have inv1: "conn_inv ?c1" using rd by (simp add: conn_inv_def)
  show ?thesis
  proof (cases r)
    case (WFail e)
    obtain c' where k': "keep_rest sk (Message bs) 0 ?c1 = ok c'" "conn_inv c'" "same_conn ?c1 c'" "isWriting (tc_channel c')"
      "tc_kernel c' = k" "nb_bytes (tc_out c') = bs"
      using keep_rest_message [OF inv1, of 0 bs sk] rd assms(4) out0 by auto
    have "send sk bs c = ok c'"
      using rd out0 assms(2,3) WFail noerr k'(1)
      by (simp add: send_def run_task_def sendInLoop_def first_write_def after_write_def Let_def)
    with k' WFail show ?thesis by (intro exI [of _ c']) (simp add: bytes_taken_def same_conn_def)
  next
    case (Wrote n)
    have n: "n \<le> length bs" using wc(2) Wrote by (simp add: bytes_taken_def)
    define c2 where "c2 = close_fd sk (- 1) (if int (length bs) - int n = 0 \<and> tc_hasWriteComplete ?c1
      then queue_task T_writeComplete ?c1 else ?c1)"
    have c2: "tc_out c2 = tc_out c" "tc_in c2 = tc_in c" "tc_channel c2 = tc_channel c" "same_conn c c2" "tc_fd c2 = fd"
      "tc_kernel c2 = sk_close sk k (- 1)"
      using rd by (simp_all add: c2_def same_conn_def)
    have st2: "tc_state c2 = kConnected" "tc_alive c2" "tc_inLoop c2" using c2(4) rd by (simp_all add: same_conn_def)
    have inv2: "conn_inv c2" using rd c2 by (simp add: conn_inv_def)
    have rem: "to_size_t (int (length bs) - int n) = int (length bs) - int n"
      using n assms(4) by (intro to_size_t_id) (simp_all add: INT_MAX_def)
    have send: "send sk bs c = (if n < length bs then keep_rest sk (Message bs) (int n) c2 else ok c2)"
      using rd out0 assms(2) Wrote n rem
      by (simp add: send_def run_task_def sendInLoop_def first_write_def after_write_def Let_def c2_def)
    have s2: "sent (tc_kernel c2) = sent k" using write_contractD(3) [OF w, of k "[]"] unfolding c2(6) by (metis prod.collapse)
    show ?thesis
    proof (cases "n < length bs")
      case True
      obtain c' where "keep_rest sk (Message bs) (int n) c2 = ok c'" "conn_inv c'" "same_conn c2 c'" "isWriting (tc_channel c')"
        "tc_kernel c' = tc_kernel c2" "nb_bytes (tc_out c') = drop n bs"
        using keep_rest_message [OF inv2 _ n, of sk] st2 c2 out0 assms(4) by auto
      with send True Wrote s2 c2(4) show ?thesis by (intro exI [of _ c']) (auto simp: bytes_taken_def same_conn_def)
    next
      case False
      with n have "n = length bs" by simp
      with send Wrote c2 st2 inv2 rd show ?thesis by (intro exI [of _ c2]) (simp add: ready_def idle_def)
    qed
  qed
qed

text \<open>\<open>sendFile\<close> on an idle connection: what \<open>sendfile\<close> takes is on the wire, the rest of the file is lost.\<close>

lemma sendFile_ready:
  assumes "ready sk sent fd c" "sendfile_contract sk sent fd ffd content" "closed_contract sk sent ffd"
    "sk_sendfile sk (tc_kernel c) fd ffd (int (length content)) = (r, k)" "0 < ffd" "int (length content) \<le> INT_MAX"
  shows "\<exists>c'. sendFile sk ffd (int (length content)) c = ok c' \<and> same_conn c c' \<and> nb_bytes (tc_out c') = []
    \<and> sent (tc_kernel c') = sent (tc_kernel c) @ take (bytes_taken r) content
    \<and> (r = Wrote (length content) \<longrightarrow> last (tc_trace c') = Close_fd ffd)"
proof -
  note rd = assms(1) [unfolded ready_def idle_def]
  have out0: "readable (tc_out c) = 0" "nb_bytes (tc_out c) = []" using rd readable_zero by simp_all
  have sf: "case r of Wrote n \<Rightarrow> n \<le> length content \<and> sent k = sent (tc_kernel c) @ take n content
      | WFail e \<Rightarrow> sent k = sent (tc_kernel c)"
    using assms(2,4) unfolding sendfile_contract_def by (auto dest!: spec [of _ "tc_kernel c"] split: wret.splits)
  have closes: "sent (sk_close sk k' f) = sent k'" for k' f using rd unfolding write_contract_def by blast
  let ?c1 = "c\<lparr>tc_kernel := k\<rparr>"
  show ?thesis
  proof (cases r)
    case (WFail e)
    have "sendFile sk ffd (int (length content)) c = ok ?c1"
      using rd out0 assms(4,5) WFail
      by (simp add: sendFile_def run_task_def sendInLoop_def first_write_def after_write_def Let_def)
    with WFail sf out0 show ?thesis by (intro exI [of _ ?c1]) (simp add: bytes_taken_def same_conn_def)
  next
    case (Wrote n)
    have n: "n \<le> length content" "sent k = sent (tc_kernel c) @ take n content" using sf Wrote by simp_all
    define c2 where "c2 = close_fd sk ffd (if int (length content) - int n = 0 \<and> tc_hasWriteComplete ?c1
      then queue_task T_writeComplete ?c1 else ?c1)"
    have c2: "tc_out c2 = tc_out c" "tc_channel c2 = tc_channel c" "same_conn c c2" "last (tc_trace c2) = Close_fd ffd"
      "tc_kernel c2 = sk_close sk k ffd" by (simp_all add: c2_def same_conn_def)
    have rem: "to_size_t (int (length content) - int n) = int (length content) - int n"
      using n(1) assms(6) by (intro to_size_t_id) simp_all
    have sf': "sendFile sk ffd (int (length content)) c
        = (if n < length content then keep_rest sk (File ffd (int (length content))) (int n) c2 else ok c2)"
      using rd out0 assms(4,5) Wrote n(1) rem
      by (simp add: sendFile_def run_task_def sendInLoop_def first_write_def after_write_def Let_def c2_def)
    show ?thesis
    proof (cases "n < length content")
      case False
      with n have "n = length content" by simp
      with sf' c2 closes n(2) out0 Wrote show ?thesis by (intro exI [of _ c2]) (simp add: bytes_taken_def)
    next
      case True
      obtain r' k' where rk: "(if int n > 0 then sk_pread sk (sk_close sk k ffd) ffd (writeable (tc_out c)) (int n)
          else sk_read sk (sk_close sk k ffd) ffd (writeable (tc_out c))) = (r', k')" by fastforce
      then have b: "r' = Fail EBADF" "sent k' = sent k"
        using assms(3) unfolding closed_contract_def by (metis fst_conv snd_conv)+
      have "readFd (sk_read sk) (sk_pread sk) ffd (int n) (tc_kernel c2) (tc_out c2)
          = ok \<lparr>rf_ret = - 1, rf_savedErrno = Some EBADF, rf_closed = False, rf_buf = tc_out c, rf_kernel = k'\<rparr>"
        unfolding readFd_def c2 using rk b(1) by (subst readFd_loop.simps, cases "n = 0", simp_all)
      then have "keep_rest sk (File ffd (int (length content))) (int n) c2
          = ok (on_channel EnableWriting (close_fd sk ffd (c2\<lparr>tc_out := tc_out c, tc_kernel := k'\<rparr>)))"
        using rd c2(2) assms(5) by (simp add: keep_rest_def)
      with sf' True Wrote n(2) b(2) closes out0 c2(3) show ?thesis by (auto simp: bytes_taken_def same_conn_def)
    qed
  qed
qed

text \<open>The answer to a request for a file: the kernel state in which it begins is \<open>k\<close>.  When the kernel takes the head in one
  \<open>write\<close>, the bytes \<open>sendfile\<close> takes follow and nothing waits; otherwise what was not taken of the head waits and no byte
  of the file is sent.\<close>

definition file_answered :: "'k syscalls \<Rightarrow> ('k \<Rightarrow> char list) \<Rightarrow> int \<Rightarrow> int \<Rightarrow> string \<Rightarrow> char list \<Rightarrow> 'k \<Rightarrow> 'k tconn \<Rightarrow> bool" where
  "file_answered sk sent fd ffd head content k c' \<longleftrightarrow>
     (let (r, k1) = sk_write sk k fd head; (r', k2) = sk_sendfile sk (sk_close sk k1 (- 1)) fd ffd (int (length content)) in
      if r = Wrote (length head)
      then nb_bytes (tc_out c') = [] \<and> sent (tc_kernel c') = sent k @ head @ take (bytes_taken r') content
        \<and> (r' = Wrote (length content) \<longrightarrow> last (tc_trace c') = Close_fd ffd)
      else nb_bytes (tc_out c') = drop (bytes_taken r) head \<and> sent (tc_kernel c') = sent k @ take (bytes_taken r) head)"

text \<open>The kernel takes this answer whole: its head by the one \<open>write\<close> and the file by the one \<open>sendfile\<close> made for it.\<close>

definition takes_file_answer :: "'k syscalls \<Rightarrow> int \<Rightarrow> int \<Rightarrow> string \<Rightarrow> char list \<Rightarrow> 'k \<Rightarrow> bool" where
  "takes_file_answer sk fd ffd head content k \<longleftrightarrow>
     (let (r, k1) = sk_write sk k fd head in r = Wrote (length head)
      \<and> fst (sk_sendfile sk (sk_close sk k1 (- 1)) fd ffd (int (length content))) = Wrote (length content))"

lemma file_answered_whole:
  assumes "file_answered sk sent fd ffd head content k c'" "takes_file_answer sk fd ffd head content k"
  shows "nb_bytes (tc_out c') = []" "sent (tc_kernel c') = sent k @ head @ content" "last (tc_trace c') = Close_fd ffd"
  using assms by (auto simp: file_answered_def takes_file_answer_def Let_def bytes_taken_def split: prod.splits)

lemma send_head_and_file:
  assumes "ready sk sent fd c" "sendfile_contract sk sent fd ffd content" "closed_contract sk sent ffd" "0 < ffd"
    "int (length content) \<le> INT_MAX" "head \<noteq> []" "int (length head) < 2 ^ 30"
  shows "\<exists>c1 c2. send sk head c = ok c1 \<and> sendFile sk ffd (int (length content)) c1 = ok c2 \<and> same_conn c c2
    \<and> file_answered sk sent fd ffd head content (tc_kernel c) c2"
proof -
  obtain r k1 where w: "sk_write sk (tc_kernel c) fd head = (r, k1)" by fastforce
  note wc = write_contractD [OF _ w, of sent]
  have wcon: "write_contract sk fd sent" using assms(1) by (simp add: ready_def)
  obtain c1 where c1: "send sk head c = ok c1" "same_conn c c1" "if r = Wrote (length head)
       then ready sk sent fd c1 \<and> tc_kernel c1 = sk_close sk k1 (- 1)
       else isWriting (tc_channel c1) \<and> nb_bytes (tc_out c1) = drop (bytes_taken r) head \<and> sent (tc_kernel c1) = sent k1"
    using send_ready [OF assms(1) w assms(6,7)] by blast
  have live: "tc_alive c1" "tc_inLoop c1" using c1(2) assms(1) by (simp_all add: same_conn_def ready_def idle_def)
  show ?thesis
  proof (cases "r = Wrote (length head)")
    case True
    obtain r' k2 where sf: "sk_sendfile sk (tc_kernel c1) fd ffd (int (length content)) = (r', k2)" by fastforce
    have rd: "ready sk sent fd c1" and k: "tc_kernel c1 = sk_close sk k1 (- 1)" using c1(3) True by simp_all
    obtain c2 where c2: "sendFile sk ffd (int (length content)) c1 = ok c2" "same_conn c1 c2" "nb_bytes (tc_out c2) = []"
      "sent (tc_kernel c2) = sent (tc_kernel c1) @ take (bytes_taken r') content"
      "r' = Wrote (length content) \<longrightarrow> last (tc_trace c2) = Close_fd ffd"
      using sendFile_ready [OF rd assms(2,3) sf assms(4,5)] by blast
    have "sent (tc_kernel c1) = sent (tc_kernel c) @ head"
      using wc(1) [OF wcon] True wcon unfolding k write_contract_def by (simp add: bytes_taken_def)
    with c1(1,2) c2 True w sf k show ?thesis
      by (intro exI [of _ c1] exI [of _ c2]) (auto simp: file_answered_def same_conn_def)
  next
    case False
    then have "sendFile sk ffd (int (length content)) c1 = ok c1"
      using sendFile_dropped_when_busy [OF live] c1(3) by simp
    with c1 False w wc(1) [OF wcon] show ?thesis
      by (intro exI [of _ c1]) (simp add: file_answered_def split: prod.splits)
  qed
qed

lemma file_reply_text:
  assumes "int (length content) \<le> INT_MAX" 
  shows "respond_text (addContentType text_html (linkFileFd ffd (addContentSize (to_int (int (length content)))
      (setStatusCode st (start_respond rq))))) = bind_res (repString st) (\<lambda>code. Inr (reply_head rq code (int (length content))))"
    "hr_fd (addContentType text_html (linkFileFd ffd (addContentSize (to_int (int (length content))) (setStatusCode st (start_respond rq))))) = ffd"
    "hr_size (addContentType text_html (linkFileFd ffd (addContentSize (to_int (int (length content))) (setStatusCode st (start_respond rq))))) = int (length content)"
  using assms
  by (simp_all add: addContentType_def addContentSize_def addHeader_def setStatusCode_def linkFileFd_def
     start_respond_def addKeepAlive_def respond_setVersion_def new_httpRespond_def respond_text_def print_headers_def
     reply_head_def to_int_id fits_int_def INT_MIN_def)

lemma reply_head_nonempty: "reply_head rq code sz \<noteq> []"
  by (simp add: reply_head_def)

lemma serve_get_ok:
  assumes "ready sk sent fd c" "sendfile_contract sk sent fd ffd content" "closed_contract sk sent ffd"
    "0 < ffd" "content \<noteq> []" "int (length content) \<le> INT_MAX"
    "parseUrl fs (rl_url (rq_line rq)) (start_respond rq) (tc_kernel c)
       = ok (ffd, path, Some (int (length content), reg), setStatusCode st (start_respond rq), k)"
    "repString st = Inr code" "int (length (reply_head rq code (int (length content)))) < 2 ^ 30"
  shows "\<exists>c'. serve_get sk fs rq c = ok c' \<and> tc_in c' = tc_in c
    \<and> file_answered sk sent fd ffd (reply_head rq code (int (length content))) content k c'
    \<and> tc_state c' = (if is_keepalive rq then kConnected else kDisconnecting)
    \<and> (is_keepalive rq \<or> last (tc_queue c') = T_forceCloseInLoop)"
proof -
  let ?c = "c\<lparr>tc_kernel := k\<rparr>"
  let ?r = "addContentType text_html (linkFileFd ffd (addContentSize (to_int (int (length content))) (setStatusCode st (start_respond rq))))"
  have "ready sk sent fd ?c" using assms(1) by simp
  from send_head_and_file [OF this assms(2-4,6) reply_head_nonempty assms(9)] obtain c1 c2 where
    c: "send sk (reply_head rq code (int (length content))) ?c = ok c1" "sendFile sk ffd (int (length content)) c1 = ok c2"
    "same_conn ?c c2" "file_answered sk sent fd ffd (reply_head rq code (int (length content))) content k c2" by auto
  have "tc_state c2 = kConnected" "tc_alive c2" using c(3) assms(1) by (simp_all add: same_conn_def ready_def idle_def)
  from finish_request_ok [OF this, of rq] obtain c' where c': "finish_request rq c2 = ok c'" "tc_in c' = tc_in c2"
    "tc_out c' = tc_out c2" "tc_kernel c' = tc_kernel c2" "tc_state c' = (if is_keepalive rq then kConnected else kDisconnecting)"
    "tc_queue c' = tc_queue c2 @ (if is_keepalive rq then [] else [T_forceCloseInLoop])"
    by auto
  have tr: "tc_trace c' = tc_trace c2" using c'(1) by (auto simp: finish_request_def forceClose_def Let_def split: if_splits)
  have "file_answered sk sent fd ffd (reply_head rq code (int (length content))) content k c'"
    using c(4) unfolding file_answered_def tr c'(3,4) .
  moreover have "respond sk ?r ?c = ok c2"
    using c(1,2) assms(4,5,8) file_reply_text [OF assms(6), of ffd st rq] by (simp add: respond_def)
  then have "serve_get sk fs rq c = ok c'" using assms(4,7) c'(1) by (simp add: serve_get_def)
  ultimately show ?thesis using c' c(3) by (auto simp: same_conn_def)
qed


section \<open>Saving a body and sending a page\<close>

lemma fileApp_append_all:
  assumes "bs \<noteq> [] \<Longrightarrow> fw (new_fileApp name old) bs = length bs"
  shows "snd (fileApp_append fw bs (new_fileApp name old)) = (new_fileApp name old)\<lparr>fa_content := old @ bs, fa_written := int (length bs)\<rparr>"
  using assms
  by (cases "bs = []") (simp_all add: fileApp_append_def fileApp_append_loop.simps new_fileApp_def Let_def)

text \<open>The kernel takes an answer with a body whole, each of its two parts by one \<open>write\<close>.\<close>

definition takes_body_answer :: "'k syscalls \<Rightarrow> int \<Rightarrow> string \<Rightarrow> string \<Rightarrow> 'k \<Rightarrow> bool" where
  "takes_body_answer sk fd head body k \<longleftrightarrow>
     (let (r, k1) = sk_write sk k fd head in r = Wrote (length head)
      \<and> fst (sk_write sk (sk_close sk k1 (- 1)) fd body) = Wrote (length body))"

lemma respond_whole:
  assumes "ready sk sent fd c" "hr_fd r \<le> 0" "hr_size r = int (length (hr_body r))" "hr_size r < 2 ^ 30"
    "respond_text r = Inr t" "t \<noteq> []" "hr_body r \<noteq> []" "int (length t) < 2 ^ 30"
    "takes_body_answer sk fd t (hr_body r) (tc_kernel c)" "respond sk r c = ok c'"
  shows "nb_bytes (tc_out c') = []"
proof -
  obtain k1 k2 where w: "sk_write sk (tc_kernel c) fd t = (Wrote (length t), k1)"
    "sk_write sk (sk_close sk k1 (- 1)) fd (hr_body r) = (Wrote (length (hr_body r)), k2)"
    using assms(9) by (auto simp: takes_body_answer_def Let_def split: prod.splits) (metis prod.collapse)
  obtain c1 where c1: "send sk t c = ok c1" "ready sk sent fd c1" "tc_kernel c1 = sk_close sk k1 (- 1)"
    using send_ready [OF assms(1) w(1) assms(6,8)] by auto
  have "int (length (hr_body r)) < 2 ^ 30" using assms(3,4) by simp
  from send_ready [OF c1(2) w(2) [folded c1(3)] assms(7) this] obtain c2 where
    c2: "send sk (hr_body r) c1 = ok c2" "ready sk sent fd c2" by auto
  have "to_size_t (hr_size r) = int (length (hr_body r))" using assms(3,4) to_size_t_id [of "hr_size r"] by (simp add: INT_MAX_def)
  with assms(2,5,10) c1(1) c2(1) have "c' = c2" by (simp add: respond_def)
  with c2(2) show ?thesis by (simp add: ready_def idle_def)
qed

lemma serve_post_ok:
  fixes rq defines "reply \<equiv> saved_reply (rl_url (rq_line rq))"
  assumes "conn_room sk sent fd inb n c" "files_contract fs sent stored"
    "fs_fwrite fs (new_fileApp (saved_name x) old) (rq_body rq) = length (rq_body rq)"
    "fs_rand fs (tc_kernel c) = (x, k1)" "fs_fopen fs k1 (saved_name x) = (Some old, k2)"
    "length (reply_head rq ''200 OK'' (int (length reply))) + length reply \<le> n"
    "int (length (rl_url (rq_line rq))) < INT_MAX - 100"
  shows "\<exists>c'. serve_post sk fs rq c = ok c' \<and> tc_in c' = inb
    \<and> wire sent c' = wire sent c @ reply_head rq ''200 OK'' (int (length reply)) @ reply
    \<and> (nb_bytes (tc_out c') = [] \<or> isWriting (tc_channel c'))
    \<and> (idle c \<and> takes_body_answer sk fd (reply_head rq ''200 OK'' (int (length reply))) reply k2 \<longrightarrow> nb_bytes (tc_out c') = [])
    \<and> stored (tc_kernel c') (saved_name x) = old @ rq_body rq \<and> tc_alive c' \<and> tc_inLoop c'
    \<and> tc_state c' = (if is_keepalive rq then kConnected else kDisconnecting)
    \<and> (is_keepalive rq \<or> last (tc_queue c') = T_forceCloseInLoop)"
proof -
  let ?f = "(new_fileApp (saved_name x) old)\<lparr>fa_content := old @ rq_body rq,
      fa_written := int (length (rq_body rq))\<rparr>"
  note fc = assms(3) [unfolded files_contract_def]
  have "sent k2 = sent (tc_kernel c)" using fc assms(5,6) by (metis snd_conv)
  then have r: "conn_room sk sent fd inb n (c\<lparr>tc_kernel := k2\<rparr>)" "wire sent (c\<lparr>tc_kernel := k2\<rparr>) = wire sent c"
    using assms(2) by (simp_all add: conn_room_kernel wire_def)
  note t = post_reply_text [OF assms(8)]
  have sz: "hr_size (post_reply rq) = int (length reply)" "hr_body (post_reply rq) = reply" using t by (simp_all add: reply_def)
  have le: "length (reply_head rq ''200 OK'' (int (length reply))) + length reply < 2 ^ 30"
    using assms(2,7) by (simp add: conn_room_def)
  have pr: "hr_fd (post_reply rq) \<le> 0" "hr_size (post_reply rq) = int (length (hr_body (post_reply rq)))"
    "hr_size (post_reply rq) \<le> INT_MAX" "respond_text (post_reply rq) = Inr (reply_head rq ''200 OK'' (int (length reply)))"
    "length (reply_head rq ''200 OK'' (int (length reply))) + length (hr_body (post_reply rq)) \<le> n"
    "hr_body (post_reply rq) \<noteq> []"
    using t sz assms(7,8) by (simp_all add: reply_def saved_reply_def)
  from respond_body_ok [OF r(1) pr(1-5)] r(2) sz obtain c1 m where c1: "respond sk (post_reply rq) (c\<lparr>tc_kernel := k2\<rparr>) = ok c1"
    "wire sent c1 = wire sent c @ reply_head rq ''200 OK'' (int (length reply)) @ reply"
    "conn_room sk sent fd inb m c1" by auto
  let ?c2 = "c1\<lparr>tc_kernel := fs_store fs (tc_kernel c1) ?f\<rparr>"
  have whole: "nb_bytes (tc_out c1) = []"
    if "idle c" "takes_body_answer sk fd (reply_head rq ''200 OK'' (int (length reply))) reply k2"
  proof (rule respond_whole [OF _ pr(1,2) _ pr(4) _ pr(6) _ _ c1(1)])
    show "ready sk sent fd (c\<lparr>tc_kernel := k2\<rparr>)" using that(1) assms(2) by (auto simp: ready_def conn_room_def conn_inv_def)
    show "hr_size (post_reply rq) < 2 ^ 30" using le sz by simp
    show "reply_head rq ''200 OK'' (int (length reply)) \<noteq> []" by (simp add: reply_head_def)
  qed (use that sz le in simp_all)
  have "tc_state ?c2 = kConnected" "tc_alive ?c2" "tc_in ?c2 = inb" using c1(3) by (simp_all add: conn_room_def)
  from finish_request_ok [OF this(1,2), of rq] this obtain c' where c': "finish_request rq ?c2 = ok c'" "tc_in c' = inb"
    "tc_out c' = tc_out c1" "tc_kernel c' = fs_store fs (tc_kernel c1) ?f" "tc_channel c' = tc_channel c1"
    "tc_alive c'" "tc_inLoop c' = tc_inLoop c1"
    "tc_state c' = (if is_keepalive rq then kConnected else kDisconnecting)"
    "tc_queue c' = tc_queue c1 @ (if is_keepalive rq then [] else [T_forceCloseInLoop])" by auto
  moreover have "serve_post sk fs rq c = ok c'"
    using c1(1) c'(1) assms(5,6) fileApp_append_all [of "rq_body rq" "fs_fwrite fs"] assms(4) by (simp add: serve_post_def)
  moreover have "wire sent c' = wire sent c1" using fc c' by (simp add: wire_def)
  moreover have "stored (tc_kernel c') (saved_name x) = old @ rq_body rq"
  proof -
    have "stored (tc_kernel c') (fa_name ?f) = fa_content ?f" using fc unfolding c'(4) by blast
    then show ?thesis by (simp add: new_fileApp_def)
  qed
  moreover have "nb_bytes (tc_out c1) = [] \<or> isWriting (tc_channel c1)" "tc_inLoop c1"
    using c1(3) by (auto simp: conn_room_def conn_inv_def)
  ultimately show ?thesis using c1(2) whole by auto
qed

section \<open>Whole requests\<close>

lemma parseUrl_found:
  assumes "fs_open fs k (c_str (source_path u)) = (Opened ffd, k1)" "ffd \<noteq> - 1"
    "fs_lstat fs k1 (c_str (source_path u)) = Some (n, True)"
  shows "parseUrl fs u r k = ok (ffd, source_path u, Some (n, True), setStatusCode R200Ok r, k1)"
  using assms by (simp add: parseUrl_def xopen_first Let_def)

lemma parseUrl_missing:
  assumes "fs_open fs k (c_str (source_path u)) = (Open_failed e, k1)" "e \<noteq> EINTR"
    "fs_open fs k1 ''./source/404.html'' = (Opened ffd, k2)" "ffd \<noteq> - 1" "fs_lstat fs k2 ''./source/404.html'' = Some (n, reg)"
  shows "parseUrl fs u r k = ok (ffd, ''./source/404.html'', Some (n, reg), setStatusCode R404NotFound r, k2)"
  using assms by (simp add: parseUrl_def xopen_first Let_def)

lemma parseUrl_nothing:
  assumes "fs_open fs k (c_str (source_path u)) = (Open_failed e, k1)" "e \<noteq> EINTR"
    "fs_open fs k1 ''./source/404.html'' = (Open_failed e', k2)" "e' \<noteq> EINTR"
  shows "parseUrl fs u r k = ok (- 1, ''./source/404.html'', None, setStatusCode R404NotFound r, k2)"
  using assms by (simp add: parseUrl_def xopen_first Let_def)

lemma get_message_served:
  fixes u v hs defines "rq \<equiv> \<lparr>rq_parseSize = length (request_text GET u v hs),
        rq_line = parsed_line GET u v, rq_head = map_of hs, rq_body = []\<rparr>"
  assumes "ready sk sent fd c" "nb_bytes (tc_in c) = request_text GET u v hs @ rest"
    "ok_url u" "ok_version v" "\<forall>kv\<in>set hs. ok_header kv"
    "sendfile_contract sk sent fd ffd content" "closed_contract sk sent ffd"
    "0 < ffd" "content \<noteq> []" "int (length content) \<le> INT_MAX"
    "\<And>r. parseUrl fs u r (tc_kernel c) = ok (ffd, path, Some (int (length content), reg), setStatusCode st r, k)"
    "repString st = Inr code" "int (length (reply_head rq code (int (length content)))) < 2 ^ 30"
  shows "\<exists>c'. httpMessageCallback sk fs c = ok c' \<and> nb_bytes (tc_in c') = rest
    \<and> file_answered sk sent fd ffd (reply_head rq code (int (length content))) content k c'
    \<and> tc_state c' = (if is_keepalive rq then kConnected else kDisconnecting)
    \<and> (is_keepalive rq \<or> last (tc_queue c') = T_forceCloseInLoop)"
proof -
  have inv: "nb_inv (tc_in c)" using assms(2) by (simp add: ready_def conn_inv_def)
  obtain b where b: "nb_inv b" "nb_bytes b = rest" "httpMessageCallback sk fs c = serve_get sk fs rq (c\<lparr>tc_in := b\<rparr>)"
    using get_message_ok [OF inv assms(3-6), of sk fs] by (auto simp: rq_def)
  have "rl_url (rq_line rq) = u" by (simp add: rq_def parsed_line_def)
  with serve_get_ok [of sk sent fd "c\<lparr>tc_in := b\<rparr>" ffd content fs rq path reg st k code] assms(2,7-) b
  show ?thesis by auto
qed

text \<open>What a POST request leads to, in the connection \<open>c'\<close> after the callback: the answer is on the outgoing stream (accepted by the
  kernel or waiting in the output buffer, for EPOLLOUT); a long connection stays open; a short one
  is queued for closing, and when the loop runs that task nothing more is sent.  When the connection was idle and the kernel takes both
  parts at once, nothing waits, so all of the answer has been sent.\<close>

definition post_answered :: "'k syscalls \<Rightarrow> 'k files \<Rightarrow> ('k \<Rightarrow> char list) \<Rightarrow> int \<Rightarrow> string \<Rightarrow> string \<Rightarrow> bool \<Rightarrow> 'k \<Rightarrow> 'k tconn \<Rightarrow> 'k tconn \<Rightarrow> bool" where
  "post_answered sk fs sent fd head body keep k c c' \<longleftrightarrow>
     sent (tc_kernel c') @ nb_bytes (tc_out c') = (sent (tc_kernel c) @ nb_bytes (tc_out c)) @ head @ body
   \<and> (nb_bytes (tc_out c') = [] \<or> isWriting (tc_channel c'))
   \<and> (idle c \<and> takes_body_answer sk fd head body k
        \<longrightarrow> nb_bytes (tc_out c') = [] \<and> sent (tc_kernel c') = sent (tc_kernel c) @ head @ body)
   \<and> (if keep then tc_state c' = kConnected
      else tc_state c' = kDisconnecting \<and> last (tc_queue c') = T_forceCloseInLoop
        \<and> (\<exists>d. run_conn_task sk (http_callbacks sk fs) T_forceCloseInLoop c' = ok d \<and> tc_state d = kDisconnected
              \<and> sent (tc_kernel d) = sent (tc_kernel c')))"

lemma post_message_served:
  fixes u v hs body
  defines "reply \<equiv> saved_reply u"
    and "rq \<equiv> \<lparr>rq_parseSize = length (request_text POST u v hs @ body), rq_line = parsed_line POST u v,
        rq_head = map_of hs, rq_body = body\<rparr>"
  assumes "conn_room sk sent fd inb n c" "nb_bytes inb = request_text POST u v hs @ body @ rest"
    "ok_url u" "ok_version v" "\<forall>kv\<in>set hs. ok_header kv"
    "map_of hs ''Content-Length'' = Some (to_string (int (length body)))" "body \<noteq> []"
    "files_contract fs sent stored" "fs_fwrite fs (new_fileApp (saved_name x) old) body = length body"
    "fs_rand fs (tc_kernel c) = (x, k1)" "fs_fopen fs k1 (saved_name x) = (Some old, k2)"
    "length (reply_head rq ''200 OK'' (int (length reply))) + length reply \<le> n"
  shows "\<exists>c'. httpMessageCallback sk fs c = ok c' \<and> nb_bytes (tc_in c') = rest
    \<and> post_answered sk fs sent fd (reply_head rq ''200 OK'' (int (length reply))) reply (is_keepalive rq) k2 c c'
    \<and> stored (tc_kernel c') (saved_name x) = old @ body"
proof -
  have c: "nb_inv (tc_in c)" "tc_in c = inb" using assms(3) by (auto simp: conn_room_def conn_inv_def)
  then obtain b where b: "nb_inv b" "nb_bytes b = rest"
    "httpMessageCallback sk fs c = serve_post sk fs rq (c\<lparr>tc_in := b\<rparr>)"
    using post_message_ok [OF c(1) _ assms(5-9), of rest sk fs] assms(4) by (auto simp: rq_def)
  have room: "conn_room sk sent fd b n (c\<lparr>tc_in := b\<rparr>)" using conn_room_input [OF assms(3) b(1)] .
  have rq: "rl_url (rq_line rq) = u" "rq_body rq = body" by (simp_all add: rq_def parsed_line_def)
  have "n < 2 ^ 30" using assms(3) by (simp add: conn_room_def)
  with assms(14) have u: "int (length (rl_url (rq_line rq))) < INT_MAX - 100" by (simp add: reply_def saved_reply_def rq INT_MAX_def)
  have "fs_rand fs (tc_kernel (c\<lparr>tc_in := b\<rparr>)) = (x, k1)" "wire sent (c\<lparr>tc_in := b\<rparr>) = wire sent c"
    using assms(12) by (simp_all add: wire_def)
  with serve_post_ok [OF room assms(10) _ _ assms(13) _ u] assms(11,14) obtain c' where
    c': "serve_post sk fs rq (c\<lparr>tc_in := b\<rparr>) = ok c'" "tc_in c' = b"
    "wire sent c' = wire sent c @ reply_head rq ''200 OK'' (int (length reply)) @ reply"
    "nb_bytes (tc_out c') = [] \<or> isWriting (tc_channel c')"
    "idle c \<and> takes_body_answer sk fd (reply_head rq ''200 OK'' (int (length reply))) reply k2 \<longrightarrow> nb_bytes (tc_out c') = []"
    "stored (tc_kernel c') (saved_name x) = old @ body" "tc_alive c'" "tc_inLoop c'"
    "tc_state c' = (if is_keepalive rq then kConnected else kDisconnecting)"
    "is_keepalive rq \<or> last (tc_queue c') = T_forceCloseInLoop"
    unfolding reply_def rq by auto
  have cl: "\<exists>d. run_conn_task sk (http_callbacks sk fs) T_forceCloseInLoop c' = ok d \<and> tc_state d = kDisconnected
      \<and> sent (tc_kernel d) = sent (tc_kernel c')" if "\<not> is_keepalive rq"
    using forced_close [OF c'(7,8), of sk fs] c'(9) that by auto
  have "post_answered sk fs sent fd (reply_head rq ''200 OK'' (int (length reply))) reply (is_keepalive rq) k2 c c'"
    using c' cl idle_out [of c] by (auto simp: post_answered_def wire_def simp del: run_conn_task.simps)
  with c' b show ?thesis by auto
qed

section \<open>An example server\<close>

text \<open>For the witnesses: a kernel that keeps the bytes on the wire and the stored files, takes every
  write whole and sends the two bytes of any file; a file system that has every file but
  \<open>./source/x\<close>; a connection that has received \<open>cs\<close>.\<close>

type_synonym demo_kernel = "char list \<times> (string \<Rightarrow> char list)"

definition demo_web :: "demo_kernel syscalls" where
  "demo_web = \<lparr>sk_read = (\<lambda>k fd n. (Fail EBADF, k)), sk_pread = (\<lambda>k fd n off. (Fail EBADF, k)),
     sk_write = (\<lambda>k fd bs. (Wrote (length bs), (fst k @ bs, snd k))),
     sk_sendfile = (\<lambda>k fd f n. (Wrote 2, (fst k @ ''fi'', snd k))), sk_close = (\<lambda>k f. k)\<rparr>"

definition demo_files :: "demo_kernel files" where
  "demo_files = \<lparr>fs_open = (\<lambda>k p. (if p = ''./source/x'' then Open_failed ENOENT else Opened 5, k)),
     fs_lstat = (\<lambda>k p. Some (2, True)), fs_rand = (\<lambda>k. (7, k)), fs_fopen = (\<lambda>k p. (Some [], k)),
     fs_fwrite = (\<lambda>f cs. length cs), fs_store = (\<lambda>k f. (fst k, (snd k)(fa_name f := fa_content f)))\<rparr>"

definition demo_input :: "char list \<Rightarrow> netBuffer" where
  "demo_input cs = \<lparr>nb_buf = map Some cs @ [None], nb_r = 0, nb_w = int (length cs), nb_alloc = int (length cs) + 1\<rparr>"

definition demo_client :: "char list \<Rightarrow> demo_kernel tconn" where
  "demo_client cs = (new_TcpConnection 9 1 False new_Epoller ([], \<lambda>_. []))\<lparr>tc_state := kConnected, tc_in := demo_input cs\<rparr>"

lemma demo_web_ok: "write_contract demo_web fd fst" "sendfile_contract demo_web fst fd ffd ''fi''" "closed_contract demo_web fst ffd"
  "peer_alive demo_web fd" "files_contract demo_files fst snd" "takes_file_answer demo_web fd ffd head ''fi'' k"
  "takes_body_answer demo_web fd head body k"
  by (simp_all add: write_contract_def sendfile_contract_def closed_contract_def peer_alive_def files_contract_def
     takes_file_answer_def takes_body_answer_def demo_web_def demo_files_def)

lemma demo_input_ok: "int (length cs) < INT_MAX \<Longrightarrow> nb_inv (demo_input cs)" "nb_bytes (demo_input cs) = cs"
  by (auto simp: demo_input_def nb_inv_def nb_wf_def nb_cells_def nb_bytes_def nat_add_distrib)

lemma demo_client_simps [simp]:
  "tc_in (demo_client cs) = demo_input cs" "tc_fd (demo_client cs) = 9" "tc_kernel (demo_client cs) = ([], \<lambda>_. [])"
  "nb_bytes (tc_out (demo_client cs)) = []" "wire fst (demo_client cs) = []" "tc_trace (demo_client cs) = []"
  using new_netBuffer_inv [of 4096]
  by (simp_all add: demo_client_def new_TcpConnection_def tc_fd_def new_Channel_def wire_def INT_MAX_def)

lemma demo_client_idle: "idle (demo_client cs)" "mask_ok (tc_channel (demo_client cs))"
proof -
  have e: "ch_events (tc_channel (demo_client cs)) = mask_of False False"
    by (simp add: demo_client_def new_TcpConnection_def new_Channel_def mask_of_def)
  then show "mask_ok (tc_channel (demo_client cs))" by (auto simp: mask_ok_def)
  have "\<not> isWriting (tc_channel (demo_client cs))" using e by (simp add: isWriting_def mask_write)
  then show "idle (demo_client cs)" using new_netBuffer_inv [of 4096]
    by (simp add: idle_def demo_client_def new_TcpConnection_def INT_MAX_def)
qed

lemma demo_client_room: "int (length cs) < INT_MAX \<Longrightarrow> conn_room demo_web fst 9 (demo_input cs) 1000 (demo_client cs)"
  using demo_client_idle [of cs] by (simp add: conn_room_def conn_inv_def demo_web_ok demo_input_ok idle_def)

lemma demo_files_simps [simp]:
  "fs_open demo_files k q = (if q = ''./source/x'' then Open_failed ENOENT else Opened 5, k)"
  "fs_lstat demo_files k q = Some (2, True)" "fs_rand demo_files k = (7, k)" "fs_fopen demo_files k q = (Some [], k)"
  "fs_fwrite demo_files f cs = length cs"
  by (simp_all add: demo_files_def)

lemma demo_text_ok: "ok_url ''/../secret''" "ok_url ''/x''" "ok_version ''HTTP/1.1''" "ok_url ''/index.htm''"
  by (auto simp: ok_url_def ok_version_def)

lemma demo_client_ready: "int (length cs) < INT_MAX \<Longrightarrow> ready demo_web fst 9 (demo_client cs)"
  using demo_client_idle [of cs] demo_input_ok [of cs] by (simp add: ready_def conn_inv_def demo_web_ok idle_def)

lemma demo_get_inv: "length u \<le> 100 \<Longrightarrow> nb_inv (demo_input (request_text GET u ''HTTP/1.1'' []))"
  by (rule demo_input_ok) (simp add: request_text_def line_text_def head_text_def INT_MAX_def)

section \<open>Properties\<close>

text \<open>C6: a POST request is saved and answered.  The input buffer holds a POST request with its body (and anything after it);
  the peer is alive (\<open>write\<close> does not fail with EPIPE or ECONNRESET), \<open>fopen\<close> of the random name succeeds and
  \<open>fwrite\<close> takes the body whole.  Then the message callback returns; exactly the request is taken out of the buffer, the
  file ends with the body, and exactly one answer with status 200 joins the outgoing stream: accepted by the kernel, or waiting in the output
  buffer with EPOLLOUT listened for.  If nothing was waiting before and the kernel takes head and page at once, all of it has been
  sent.  A long connection stays open.  A short one is queued for closing, and when the loop runs that task nothing
  more is sent: what the kernel has not taken by then is dropped (theorem \<open>forceClose_drops_output\<close>).\<close>

theorem post_saved_and_answered:
  fixes u v hs body
  defines "reply \<equiv> saved_reply u"
    and "rq \<equiv> \<lparr>rq_parseSize = length (request_text POST u v hs @ body), rq_line = parsed_line POST u v,
        rq_head = map_of hs, rq_body = body\<rparr>"
  assumes "conn_room sk sent fd inb n c" "nb_bytes inb = request_text POST u v hs @ body @ rest"
    "ok_url u" "ok_version v" "\<forall>kv\<in>set hs. ok_header kv"
    "map_of hs ''Content-Length'' = Some (to_string (int (length body)))" "body \<noteq> []"
    "files_contract fs sent stored" "fs_fwrite fs (new_fileApp (saved_name x) old) body = length body"
    "fs_rand fs (tc_kernel c) = (x, k1)" "fs_fopen fs k1 (saved_name x) = (Some old, k2)"
    "length (reply_head rq ''200 OK'' (int (length reply))) + length reply \<le> n"
  shows "\<exists>c'. httpMessageCallback sk fs c = ok c' \<and> nb_bytes (tc_in c') = rest
    \<and> post_answered sk fs sent fd (reply_head rq ''200 OK'' (int (length reply))) reply (is_keepalive rq) k2 c c'
    \<and> stored (tc_kernel c') (saved_name x) = old @ body"
  unfolding reply_def rq_def by (rule post_message_served [OF assms(3-13) assms(14) [unfolded reply_def rq_def]])

theorem post_saved_and_answered_witness:
  "\<exists>c' head. httpMessageCallback demo_web demo_files
      (demo_client (request_text POST ''/x'' ''HTTP/1.1'' [(''Content-Length'', to_string 3)] @ ''abc'' @ ''GET'')) = ok c'
    \<and> nb_bytes (tc_in c') = ''GET'' \<and> snd (tc_kernel c') (saved_name 7) = ''abc''
    \<and> fst (tc_kernel c') = head @ saved_reply ''/x'' \<and> nb_bytes (tc_out c') = []"
proof -
  let ?hs = "[(''Content-Length'', to_string 3)]"
  let ?cs = "request_text POST ''/x'' ''HTTP/1.1'' ?hs @ ''abc'' @ ''GET''"
  have len: "length (to_string 3) = 1" "length (to_string (int (length (saved_reply ''/x'')))) = 2"
    by (simp_all add: to_string_def nat_digits.simps saved_reply_def)
  have room: "conn_room demo_web fst 9 (demo_input ?cs) 1000 (demo_client ?cs)"
    by (rule demo_client_room) (simp add: request_text_def line_text_def head_text_def header_line_def INT_MAX_def len)
  have hs: "\<forall>kv\<in>set ?hs. ok_header kv" using to_string_plain [of 3] by (simp add: ok_header_def)
  have cl: "map_of ?hs ''Content-Length'' = Some (to_string (int (length ''abc'')))" by simp
  have "length (reply_head r ''200 OK'' (int (length (saved_reply ''/x'')))) + length (saved_reply ''/x'') \<le> 1000"
    if "length (rl_version (rq_line r)) = 8" for r
    using len that by (simp add: reply_head_def text_html_def saved_reply_def)
  then show ?thesis
    using post_saved_and_answered [OF room demo_input_ok(2) demo_text_ok(2,3) hs cl _ demo_web_ok(5), where x = 7 and old = "[]"]
    by (fastforce simp: parsed_line_def post_answered_def demo_web_ok demo_client_idle)
qed

text \<open>C7: a GET request is answered with the file.  The URL has no component that begins with a dot; the path \<open>./source\<close>
  followed by it opens as a regular file that is not empty; the peer is alive and \<open>sendfile(2)\<close> may send any part of the file.  On an idle
  connection the message callback returns and what follows the request stays in the input buffer.  The answer is status 200
  with the file's size, then the file: when the kernel takes the head in one \<open>write\<close> and the file in one \<open>sendfile\<close>, exactly these bytes have
  been sent, nothing waits and the file is closed.  In every other case the theorem says what is sent: a prefix of the
  file when \<open>sendfile\<close> takes only that (the rest is lost), the head alone when it was not taken at once.  A short connection is queued for
  closing.\<close>

theorem get_sends_file:
  fixes u v hs defines "rq \<equiv> \<lparr>rq_parseSize = length (request_text GET u v hs),
        rq_line = parsed_line GET u v, rq_head = map_of hs, rq_body = []\<rparr>"
  assumes "ready sk sent fd c" "nb_bytes (tc_in c) = request_text GET u v hs @ rest"
    "ok_url u" "ok_version v" "\<forall>kv\<in>set hs. ok_header kv" "\<not> sublist ''/.'' u"
    "sendfile_contract sk sent fd ffd content" "closed_contract sk sent ffd" "files_contract fs sent stored"
    "0 < ffd" "content \<noteq> []" "int (length content) \<le> INT_MAX"
    "fs_open fs (tc_kernel c) (c_str (source_path u)) = (Opened ffd, k)"
    "fs_lstat fs k (c_str (source_path u)) = Some (int (length content), True)"
    "int (length (reply_head rq ''200 OK'' (int (length content)))) < 2 ^ 30"
  shows "\<exists>c'. httpMessageCallback sk fs c = ok c' \<and> nb_bytes (tc_in c') = rest
    \<and> file_answered sk sent fd ffd (reply_head rq ''200 OK'' (int (length content))) content k c'
    \<and> (takes_file_answer sk fd ffd (reply_head rq ''200 OK'' (int (length content))) content k
       \<longrightarrow> sent (tc_kernel c') = sent (tc_kernel c) @ reply_head rq ''200 OK'' (int (length content)) @ content
         \<and> nb_bytes (tc_out c') = [] \<and> last (tc_trace c') = Close_fd ffd)
    \<and> tc_state c' = (if is_keepalive rq then kConnected else kDisconnecting)
    \<and> (is_keepalive rq \<or> last (tc_queue c') = T_forceCloseInLoop)"
proof -
  have k: "sent k = sent (tc_kernel c)" using assms(10,14) unfolding files_contract_def by (metis snd_conv)
  have "ffd \<noteq> - 1" using assms(11) by simp
  from get_message_served [OF assms(2-6,8,9,11-13) parseUrl_found [OF assms(14) this assms(15)] _ assms(16) [unfolded rq_def]]
  obtain c' where c': "httpMessageCallback sk fs c = ok c'" "nb_bytes (tc_in c') = rest"
    "file_answered sk sent fd ffd (reply_head rq ''200 OK'' (int (length content))) content k c'"
    "tc_state c' = (if is_keepalive rq then kConnected else kDisconnecting)"
    "is_keepalive rq \<or> last (tc_queue c') = T_forceCloseInLoop" unfolding rq_def by auto
  show ?thesis using c' file_answered_whole [OF c'(3)] k by (intro exI [of _ c']) simp
qed

theorem get_sends_file_witness:
  "\<exists>c' head. httpMessageCallback demo_web demo_files (demo_client (request_text GET ''/index.htm'' ''HTTP/1.1'' [])) = ok c'
    \<and> fst (tc_kernel c') = head @ ''fi'' \<and> nb_bytes (tc_out c') = [] \<and> last (tc_trace c') = Close_fd 5"
proof -
  let ?c = "demo_client (request_text GET ''/index.htm'' ''HTTP/1.1'' [])"
  have in_ok: "ready demo_web fst 9 ?c" "nb_bytes (tc_in ?c) = request_text GET ''/index.htm'' ''HTTP/1.1'' [] @ []"
    by (rule demo_client_ready) (simp_all add: demo_input_ok request_text_def line_text_def head_text_def INT_MAX_def)
  have op: "fs_open demo_files (tc_kernel ?c) (c_str (source_path ''/index.htm'')) = (Opened 5, tc_kernel ?c)"
    "fs_lstat demo_files (tc_kernel ?c) (c_str (source_path ''/index.htm'')) = Some (int (length ''fi''), True)"
    by (simp_all add: source_path_def c_str_def)
  have "length (to_string (int (length ''fi''))) = 1" by (simp add: to_string_def nat_digits.simps)
  then have "int (length (reply_head r ''200 OK'' (int (length ''fi'')))) < 2 ^ 30" if "length (rl_version (rq_line r)) = 8" for r
    using that by (simp add: reply_head_def text_html_def)
  then have l: "int (length (reply_head \<lparr>rq_parseSize = length (request_text GET ''/index.htm'' ''HTTP/1.1'' []),
      rq_line = parsed_line GET ''/index.htm'' ''HTTP/1.1'', rq_head = map_of [], rq_body = []\<rparr> ''200 OK'' (int (length ''fi'')))) < 2 ^ 30"
    by (simp add: parsed_line_def)
  from get_sends_file [OF in_ok demo_text_ok(4,3) _ _ demo_web_ok(2,3,5) _ _ _ op l] show ?thesis
    by (auto simp: INT_MAX_def sublist_code demo_web_ok)
qed

text \<open>A URL with \<open>..\<close> is served like any other: the comment in \<open>httpRespond.h\<close> says that such a URL answers 404.\<close>

lemma dotdot_served:
  "\<exists>c' head. httpMessageCallback demo_web demo_files (demo_client (request_text GET ''/../secret'' ''HTTP/1.1'' [])) = ok c'
    \<and> fst (tc_kernel c') = ''HTTP/1.1 200 OK'' @ head @ ''fi''"
proof -
  let ?c = "demo_client (request_text GET ''/../secret'' ''HTTP/1.1'' [])"
  have in_ok: "ready demo_web fst 9 ?c" "nb_bytes (tc_in ?c) = request_text GET ''/../secret'' ''HTTP/1.1'' [] @ []"
    by (rule demo_client_ready) (simp_all add: demo_input_ok request_text_def line_text_def head_text_def INT_MAX_def)
  have op: "fs_open demo_files (tc_kernel ?c) (c_str (source_path ''/../secret'')) = (Opened 5, tc_kernel ?c)"
    "fs_lstat demo_files (tc_kernel ?c) (c_str (source_path ''/../secret'')) = Some (int (length ''fi''), True)"
    by (simp_all add: source_path_def c_str_def)
  have "length (to_string (int (length ''fi''))) = 1" by (simp add: to_string_def nat_digits.simps)
  then have "int (length (reply_head r ''200 OK'' (int (length ''fi'')))) < 2 ^ 30" if "length (rl_version (rq_line r)) = 8" for r
    using that by (simp add: reply_head_def text_html_def)
  then have l: "int (length (reply_head \<lparr>rq_parseSize = length (request_text GET ''/../secret'' ''HTTP/1.1'' []),
      rq_line = parsed_line GET ''/../secret'' ''HTTP/1.1'', rq_head = map_of [], rq_body = []\<rparr> ''200 OK'' (int (length ''fi'')))) < 2 ^ 30"
    by (simp add: parsed_line_def)
  have "(5::int) \<noteq> - 1" by simp
  from get_message_served [OF in_ok demo_text_ok(1,3) _ demo_web_ok(2,3) _ _ _ parseUrl_found [OF op(1) this op(2)] _ l]
  show ?thesis by (fastforce simp: INT_MAX_def demo_web_ok reply_head_def parsed_line_def dest: file_answered_whole)
qed

text \<open>C35: a GET request for a file that cannot be opened, with \<open>./source/404.html\<close> found or missing too.  When it is found and
  not empty, the answer has status 404 and is sent as in the case of a file that exists: all of it when the kernel takes the head in one \<open>write\<close>
  and the page in one \<open>sendfile\<close>, a prefix otherwise.  When it is missing too, nothing is sent and the connection is queued for closing.  The
  peer is alive.\<close>

theorem get_missing_file:
  fixes u v hs defines "rq \<equiv> \<lparr>rq_parseSize = length (request_text GET u v hs),
        rq_line = parsed_line GET u v, rq_head = map_of hs, rq_body = []\<rparr>"
  assumes "ready sk sent fd c" "nb_bytes (tc_in c) = request_text GET u v hs @ rest"
    "ok_url u" "ok_version v" "\<forall>kv\<in>set hs. ok_header kv"
    "sendfile_contract sk sent fd ffd content" "closed_contract sk sent ffd" "files_contract fs sent stored"
    "0 < ffd" "content \<noteq> []" "int (length content) \<le> INT_MAX"
    "fs_open fs (tc_kernel c) (c_str (source_path u)) = (Open_failed e, k1)" "e \<noteq> EINTR"
    "fs_open fs k1 ''./source/404.html'' = (found, k2)"
    "found = Opened ffd \<and> fs_lstat fs k2 ''./source/404.html'' = Some (int (length content), reg) \<or> found = Open_failed e' \<and> e' \<noteq> EINTR"
    "int (length (reply_head rq ''404 Not Found'' (int (length content)))) < 2 ^ 30"
  shows "\<exists>c'. httpMessageCallback sk fs c = ok c' \<and> nb_bytes (tc_in c') = rest
    \<and> (if found = Opened ffd
       then file_answered sk sent fd ffd (reply_head rq ''404 Not Found'' (int (length content))) content k2 c'
         \<and> (takes_file_answer sk fd ffd (reply_head rq ''404 Not Found'' (int (length content))) content k2
            \<longrightarrow> sent (tc_kernel c') = sent (tc_kernel c) @ reply_head rq ''404 Not Found'' (int (length content)) @ content
              \<and> nb_bytes (tc_out c') = [] \<and> last (tc_trace c') = Close_fd ffd)
         \<and> tc_state c' = (if is_keepalive rq then kConnected else kDisconnecting)
       else sent (tc_kernel c') = sent (tc_kernel c) \<and> tc_out c' = tc_out c \<and> tc_state c' = kDisconnecting
         \<and> last (tc_queue c') = T_forceCloseInLoop)"
proof -
  have k2: "sent k2 = sent (tc_kernel c)" using assms(9,13,15) unfolding files_contract_def by (metis snd_conv)
  show ?thesis
  proof (cases "found = Opened ffd")
    case True
    have ffd: "ffd \<noteq> - 1" using assms(10) by simp
    have st: "fs_lstat fs k2 ''./source/404.html'' = Some (int (length content), reg)" using True assms(16) by auto
    from get_message_served [OF assms(2-8,10-12) parseUrl_missing [OF assms(13,14) assms(15) [unfolded True] ffd st] _ assms(17) [unfolded rq_def]]
    obtain c' where c': "httpMessageCallback sk fs c = ok c'" "nb_bytes (tc_in c') = rest"
      "file_answered sk sent fd ffd (reply_head rq ''404 Not Found'' (int (length content))) content k2 c'"
      "tc_state c' = (if is_keepalive rq then kConnected else kDisconnecting)" unfolding rq_def by auto
    show ?thesis using c' file_answered_whole [OF c'(3)] k2 True by (intro exI [of _ c']) simp
  next
    case False
    with assms(16) have f: "found = Open_failed e'" "e' \<noteq> EINTR" by auto
    have inv: "nb_inv (tc_in c)" using assms(2) by (simp add: ready_def conn_inv_def)
    obtain b where b: "nb_inv b" "nb_bytes b = rest" "httpMessageCallback sk fs c = serve_get sk fs rq (c\<lparr>tc_in := b\<rparr>)"
      using get_message_ok [OF inv assms(3-6), of sk fs] by (auto simp: rq_def)
    have "rl_url (rq_line rq) = u" by (simp add: rq_def parsed_line_def)
    then have "serve_get sk fs rq (c\<lparr>tc_in := b\<rparr>) = forceClose (c\<lparr>tc_in := b, tc_kernel := k2\<rparr>)"
      using parseUrl_nothing [OF assms(13,14) assms(15) [unfolded f(1)] f(2), of "start_respond rq"] by (simp add: serve_get_def)
    then show ?thesis using False b assms(2) k2 by (simp add: ready_def idle_def forceClose_def Let_def)
  qed
qed

theorem get_missing_file_witness:
  "\<exists>c' head. httpMessageCallback demo_web demo_files (demo_client (request_text GET ''/x'' ''HTTP/1.1'' [])) = ok c'
    \<and> fst (tc_kernel c') = ''HTTP/1.1 404 Not Found'' @ head @ ''fi'' \<and> nb_bytes (tc_out c') = []"
proof -
  let ?c = "demo_client (request_text GET ''/x'' ''HTTP/1.1'' [])"
  have in_ok: "ready demo_web fst 9 ?c" "nb_bytes (tc_in ?c) = request_text GET ''/x'' ''HTTP/1.1'' [] @ []"
    by (rule demo_client_ready) (simp_all add: demo_input_ok request_text_def line_text_def head_text_def INT_MAX_def)
  have op: "fs_open demo_files (tc_kernel ?c) (c_str (source_path ''/x'')) = (Open_failed ENOENT, tc_kernel ?c)"
    by (simp add: source_path_def c_str_def)
  have f: "Opened 5 = Opened 5 \<and> fs_lstat demo_files (tc_kernel ?c) ''./source/404.html'' = Some (int (length ''fi''), True)
      \<or> Opened 5 = Open_failed ENOENT \<and> ENOENT \<noteq> EINTR" by simp
  have o2: "fs_open demo_files (tc_kernel ?c) ''./source/404.html'' = (Opened 5, tc_kernel ?c)" by simp
  have "length (to_string (int (length ''fi''))) = 1" by (simp add: to_string_def nat_digits.simps)
  then have "int (length (reply_head r ''404 Not Found'' (int (length ''fi'')))) < 2 ^ 30" if "length (rl_version (rq_line r)) = 8" for r
    using that by (simp add: reply_head_def text_html_def)
  then have l: "int (length (reply_head \<lparr>rq_parseSize = length (request_text GET ''/x'' ''HTTP/1.1'' []),
      rq_line = parsed_line GET ''/x'' ''HTTP/1.1'', rq_head = map_of [], rq_body = []\<rparr> ''404 Not Found'' (int (length ''fi'')))) < 2 ^ 30"
    by (simp add: parsed_line_def)
  from get_missing_file [OF in_ok demo_text_ok(2,3) _ demo_web_ok(2,3,5) _ _ _ op _ o2 f l]
  show ?thesis by (fastforce simp: INT_MAX_def demo_web_ok reply_head_def parsed_line_def)
qed

text \<open>A malformed request.  When the parser rejects the input, all of it is discarded, nothing is
  sent, the connection starts disconnecting and its writing side is shut down unless output is
  still waiting.\<close>

theorem bad_request_closes:
  assumes "conn_room sk sent fd inb n c"
    "parse_request (drop (nat (nb_r inb)) (nb_buf inb)) (nat (readable inb)) = Some (Inr p)" "hp_final p = Failed"
  shows "\<exists>c'. httpMessageCallback sk fs c = ok c' \<and> nb_bytes (tc_in c') = [] \<and> wire sent c' = wire sent c
    \<and> tc_state c' = kDisconnecting
    \<and> tc_trace c' = tc_trace c @ (if isWriting (tc_channel c) then [] else [Shutdown_write fd])"
proof -
  have "nb_inv (tc_in c)" "tc_in c = inb" "tc_state c = kConnected" "tc_alive c" "tc_inLoop c" "tc_fd c = fd"
    using assms(1) by (auto simp: conn_room_def conn_inv_def)
  with assms(2,3) retrieveAll_inv [of inb] show ?thesis
    by (simp add: httpMessageCallback_def shutdown_def run_task_def shutdownWriteInLoop_def wire_def)
qed

theorem bad_request_closes_witness:
  "\<exists>c'. httpMessageCallback demo_web demo_files (demo_client (''XYZ'' @ CRLF)) = ok c' \<and> nb_bytes (tc_in c') = []
    \<and> tc_trace c' = [Shutdown_write 9]"
proof -
  let ?cs = "''XYZ'' @ CRLF"
  have "\<exists>p. parse_request (drop (nat (nb_r (demo_input ?cs))) (nb_buf (demo_input ?cs))) (nat (readable (demo_input ?cs))) = Some (Inr p)
      \<and> hp_final p = Failed"
    by (simp add: demo_input_def readable_def parser_eval)
  then show ?thesis
    using bad_request_closes [OF demo_client_room, of ?cs _ demo_files] demo_client_idle(1) [of ?cs]
    by (auto simp: INT_MAX_def idle_def)
qed

end
