(* ===== verification/Log_Stream.thy ===== *)
theory Log_Stream
  imports C_String
begin

text \<open>
  \<open>src/src/log/adlBuffer.h\<close> and \<open>logStream.{h,cpp}\<close>: the fixed-size character buffer behind every
  log line and the insertion operators.  \<open>ab_cells\<close> is the array \<open>buf_[SIZE]\<close>, \<open>None\<close> where nothing was
  written.  Every failed \<open>assert\<close> is a fault of the model; the interface \<open>bounded_sink\<close> states why
  none fails: an operator asks for room first and drops the whole piece when there is none.
\<close>

section \<open>adlBuffer\<close>

definition kSmallBuffer :: nat where "kSmallBuffer = 4000"
definition kLargeBuffer :: nat where "kLargeBuffer = 4000 * 1000"

record adlBuffer =
  ab_len :: nat
  ab_cells :: "char option list"

abbreviation ab_SIZE :: "adlBuffer \<Rightarrow> nat" where
  "ab_SIZE b \<equiv> length (ab_cells b)"

definition new_adlBuffer :: "nat \<Rightarrow> adlBuffer" where
  "new_adlBuffer SIZE = \<lparr>ab_len = 0, ab_cells = replicate SIZE None\<rparr>"

definition ab_setlen :: "nat \<Rightarrow> adlBuffer \<Rightarrow> adlBuffer result" where
  "ab_setlen len b =
     bind_res (cassert (len < ab_SIZE b)) (\<lambda>_.
       Inr (b\<lparr>ab_len := len, ab_cells := (ab_cells b)[len := Some (CHR 0x00)]\<rparr>))"

definition ab_addlen :: "nat \<Rightarrow> adlBuffer \<Rightarrow> adlBuffer result" where
  "ab_addlen len b = ab_setlen (len + ab_len b) b"

definition ab_avail :: "adlBuffer \<Rightarrow> nat result" where
  "ab_avail b = bind_res (cassert (ab_len b < ab_SIZE b)) (\<lambda>_. Inr (ab_SIZE b - 1 - ab_len b))"

text \<open>\<open>memcpy\<close> of bytes to a position of the array.\<close>

definition ab_copy :: "char list \<Rightarrow> adlBuffer \<Rightarrow> adlBuffer result" where
  "ab_copy cs b =
     (if ab_len b + length cs \<le> ab_SIZE b
      then Inr (b\<lparr>ab_cells := take (ab_len b) (ab_cells b) @ map Some cs @ drop (ab_len b + length cs) (ab_cells b)\<rparr>)
      else Inl Out_of_bounds)"

definition ab_append_char :: "char \<Rightarrow> adlBuffer \<Rightarrow> adlBuffer result" where
  "ab_append_char c b =
     bind_res (ab_avail b) (\<lambda>a. bind_res (cassert (1 \<le> a)) (\<lambda>_.
       ab_addlen 1 (b\<lparr>ab_cells := (ab_cells b)[ab_len b := Some c]\<rparr>)))"

definition ab_append :: "char list \<Rightarrow> adlBuffer \<Rightarrow> adlBuffer result" where
  "ab_append cs b =
     (if cs = [] then Inr b
      else bind_res (ab_avail b) (\<lambda>a. bind_res (cassert (length cs \<le> a)) (\<lambda>_.
             bind_res (ab_copy cs b) (ab_addlen (length cs)))))"

text \<open>The overload for \<open>std::string\<close> has no test for the empty string.\<close>

definition ab_append_string :: "char list \<Rightarrow> adlBuffer \<Rightarrow> adlBuffer result" where
  "ab_append_string cs b =
     bind_res (ab_avail b) (\<lambda>a. bind_res (cassert (length cs \<le> a)) (\<lambda>_.
       bind_res (ab_copy cs b) (ab_addlen (length cs))))"

definition ab_clear :: "adlBuffer \<Rightarrow> adlBuffer" where
  "ab_clear b = b\<lparr>ab_cells := replicate (ab_SIZE b) (Some (CHR 0x00))\<rparr>"

definition ab_reset :: "bool \<Rightarrow> adlBuffer \<Rightarrow> adlBuffer result" where
  "ab_reset ifClear b = ab_setlen 0 (if ifClear then ab_clear b else b)"

text \<open>\<open>toString\<close>: reading a byte nobody wrote is a fault.\<close>

definition ab_toString :: "adlBuffer \<Rightarrow> string result" where
  "ab_toString b =
     (if None \<in> set (take (ab_len b) (ab_cells b)) then Inl Uninit_read
      else Inr (map the (take (ab_len b) (ab_cells b))))"

definition ab_text :: "adlBuffer \<Rightarrow> char list" where
  "ab_text b = map the (take (ab_len b) (ab_cells b))"

definition ab_inv :: "nat \<Rightarrow> adlBuffer \<Rightarrow> bool" where
  "ab_inv SIZE b \<longleftrightarrow> ab_SIZE b = SIZE \<and> ab_len b < SIZE \<and> None \<notin> set (take (ab_len b) (ab_cells b))"

lemma ab_inv_new: "0 < SIZE \<Longrightarrow> ab_inv SIZE (new_adlBuffer SIZE) \<and> ab_text (new_adlBuffer SIZE) = []"
  by (simp add: ab_inv_def new_adlBuffer_def ab_text_def)

lemma length_ab_text: "ab_inv SIZE b \<Longrightarrow> length (ab_text b) = ab_len b"
  by (simp add: ab_inv_def ab_text_def)

lemma ab_avail_ok: "ab_inv SIZE b \<Longrightarrow> ab_avail b = Inr (SIZE - 1 - length (ab_text b))"
  by (simp add: ab_avail_def length_ab_text) (simp add: ab_inv_def)

lemma ab_toString_ok: "ab_inv SIZE b \<Longrightarrow> ab_toString b = Inr (ab_text b)"
  by (simp add: ab_toString_def ab_text_def ab_inv_def)

lemma ab_append_string_ok:
  assumes "ab_inv SIZE b" "length (ab_text b) + length cs < SIZE"
  shows "\<exists>b'. ab_append_string cs b = Inr b' \<and> ab_inv SIZE b' \<and> ab_text b' = ab_text b @ cs"
proof -
  have l: "ab_len b + length cs < ab_SIZE b" "ab_SIZE b = SIZE" "length (ab_text b) = ab_len b"
    using assms length_ab_text [OF assms(1)] by (simp_all add: ab_inv_def)
  let ?cells = "take (ab_len b) (ab_cells b) @ map Some cs @ drop (ab_len b + length cs) (ab_cells b)"
  let ?b = "b\<lparr>ab_len := length cs + ab_len b, ab_cells := ?cells[length cs + ab_len b := Some (CHR 0x00)]\<rparr>"
  have t: "take (length cs + ab_len b) ?cells = take (ab_len b) (ab_cells b) @ map Some cs" using l by simp
  have "ab_append_string cs b = Inr ?b"
    using l ab_avail_ok [OF assms(1)]
    by (auto simp: ab_append_string_def ab_copy_def ab_addlen_def ab_setlen_def cassert_def)
  moreover have "ab_inv SIZE ?b" using l assms(1) t by (simp add: ab_inv_def)
  moreover have "ab_text ?b = ab_text b @ cs" using t by (simp add: ab_text_def)
  ultimately show ?thesis by blast
qed

lemma ab_append_ok:
  assumes "ab_inv SIZE b" "length (ab_text b) + length cs < SIZE"
  shows "\<exists>b'. ab_append cs b = Inr b' \<and> ab_inv SIZE b' \<and> ab_text b' = ab_text b @ cs"
proof (cases "cs = []")
  case True
  then show ?thesis using assms(1) by (simp add: ab_append_def)
next
  case False
  then have "ab_append cs b = ab_append_string cs b" by (simp add: ab_append_def ab_append_string_def)
  then show ?thesis using ab_append_string_ok [OF assms] by simp
qed

lemma ab_append_too_much:
  "ab_inv SIZE b \<Longrightarrow> cs \<noteq> [] \<Longrightarrow> SIZE \<le> length (ab_text b) + length cs \<Longrightarrow> ab_append cs b = Inl Assert_failed"
  using ab_avail_ok [of SIZE b] by (auto simp: ab_append_def length_ab_text ab_inv_def cassert_def)

lemma ab_append_char_string: "ab_append_char c b = ab_append_string [c] b"
proof -
  have "take (ab_len b) (ab_cells b) @ Some c # drop (Suc (ab_len b)) (ab_cells b) = (ab_cells b)[ab_len b := Some c]"
    if "ab_len b < length (ab_cells b)" using that by (simp add: upd_conv_take_nth_drop)
  then show ?thesis
    by (auto simp: ab_append_char_def ab_append_string_def ab_copy_def ab_avail_def bind_res_def cassert_def
        split: sum.splits)
qed

lemma ab_reset_ok:
  "ab_inv SIZE b \<Longrightarrow> \<exists>b'. ab_reset ifc b = Inr b' \<and> ab_inv SIZE b' \<and> ab_text b' = []"
  by (cases ifc) (auto simp: ab_reset_def ab_setlen_def ab_clear_def ab_inv_def ab_text_def)

section \<open>logStream\<close>

text \<open>One constructor per insertion operator; the integer operators all go through \<open>formatInteger\<close>.
  For pointers and floating point numbers the argument is the text \<open>snprintf\<close> produces for them;
  \<open>L_buf_len\<close> has the bytes its pointer reaches and the length.\<close>

datatype log_item =
    L_buf_len "char list" int
  | L_bool bool
  | L_integer int
  | L_pointer string
  | L_double string
  | L_char char
  | L_cstring "string option"
  | L_buffer adlBuffer
  | L_string string
  | L_endl

text \<open>\<open>formatInteger\<close>.\<close>

definition formatInteger :: "int \<Rightarrow> adlBuffer \<Rightarrow> adlBuffer result" where
  "formatInteger v b =
     (let s = to_string v in bind_res (ab_avail b) (\<lambda>a. if length s \<le> a then ab_append_string s b else Inr b))"

text \<open>\<open>snprintf(current(), 32, ...)\<close> stores at most 31 characters and a terminator and returns the length
  of the whole text.\<close>

definition format32 :: "string \<Rightarrow> adlBuffer \<Rightarrow> adlBuffer result" where
  "format32 t b =
     bind_res (ab_avail b) (\<lambda>a. if 32 \<le> a
       then bind_res (ab_copy (take 31 t @ [CHR 0x00]) b) (ab_addlen (length t)) else Inr b)"

definition append_if_room :: "char list \<Rightarrow> adlBuffer \<Rightarrow> adlBuffer result" where
  "append_if_room cs b = bind_res (ab_avail b) (\<lambda>a. if length cs \<le> a then ab_append cs b else Inr b)"

fun ls_insert :: "log_item \<Rightarrow> adlBuffer \<Rightarrow> adlBuffer result" where
  "ls_insert (L_buf_len cs n) b =
     bind_res (ab_avail b) (\<lambda>a.
       if to_size_t n \<le> int a
       then if to_size_t n \<le> int (length cs) then ab_append (take (nat (to_size_t n)) cs) b else Inl Out_of_bounds
       else Inr b)"
| "ls_insert (L_bool v) b = append_if_room (if v then ''1'' else ''0'') b"
| "ls_insert (L_integer v) b = formatInteger v b"
| "ls_insert (L_pointer t) b = format32 t b"
| "ls_insert (L_double t) b = format32 t b"
| "ls_insert (L_char c) b = append_if_room [c] b"
| "ls_insert (L_cstring (Some cs)) b = append_if_room cs b"
| "ls_insert (L_cstring None) b = append_if_room ''(null)'' b"
| "ls_insert (L_buffer v) b = bind_res (ab_avail b) (\<lambda>a.
     if ab_len v \<le> a then bind_res (ab_toString v) (\<lambda>cs. ab_append cs b) else Inr b)"
| "ls_insert (L_string cs) b = bind_res (ab_avail b) (\<lambda>a. if length cs \<le> a then ab_append_string cs b else Inr b)"
| "ls_insert L_endl b = bind_res (ab_avail b) (\<lambda>a. if 1 \<le> a then ab_append_char (CHR 0x0A) b else Inr b)"

text \<open>\<open>stream << x << y << ...\<close>\<close>

fun insert_all :: "('x \<Rightarrow> 'b \<Rightarrow> 'b result) \<Rightarrow> 'x list \<Rightarrow> 'b \<Rightarrow> 'b result" where
  "insert_all ins [] b = Inr b"
| "insert_all ins (x # xs) b = bind_res (ins x b) (insert_all ins xs)"

section \<open>What the stream promises\<close>

text \<open>The text of an item and the room the operator asks for before it writes.\<close>

fun piece :: "log_item \<Rightarrow> string" where
  "piece (L_buf_len cs n) = take (nat n) cs"
| "piece (L_bool v) = (if v then ''1'' else ''0'')"
| "piece (L_integer v) = to_string v"
| "piece (L_pointer t) = t"
| "piece (L_double t) = t"
| "piece (L_char c) = [c]"
| "piece (L_cstring v) = (case v of Some cs \<Rightarrow> cs | None \<Rightarrow> ''(null)'')"
| "piece (L_buffer v) = ab_text v"
| "piece (L_string cs) = cs"
| "piece L_endl = [CHR 0x0A]"

fun need :: "log_item \<Rightarrow> nat" where
  "need (L_pointer t) = 32"
| "need (L_double t) = 32"
| "need x = length (piece x)"

text \<open>What the caller must give: a length that fits the bytes, a conversion that fits its 32 bytes, a
  buffer whose contents were written.\<close>

fun item_ok :: "log_item \<Rightarrow> bool" where
  "item_ok (L_buf_len cs n) \<longleftrightarrow> 0 \<le> n \<and> n \<le> int (length cs) \<and> n \<le> INT_MAX"
| "item_ok (L_pointer t) \<longleftrightarrow> length t < 32"
| "item_ok (L_double t) \<longleftrightarrow> length t < 32"
| "item_ok (L_buffer v) \<longleftrightarrow> (\<exists>n. ab_inv n v)"
| "item_ok x \<longleftrightarrow> True"

fun sink_spec :: "nat \<Rightarrow> log_item list \<Rightarrow> string \<Rightarrow> string" where
  "sink_spec limit [] t = t"
| "sink_spec limit (x # xs) t =
     sink_spec limit xs (if length t + need x \<le> limit then t @ piece x else t)"

locale bounded_sink =
  fixes insert :: "log_item \<Rightarrow> 'b \<Rightarrow> 'b result" and inv :: "'b \<Rightarrow> bool" and str :: "'b \<Rightarrow> string" and limit :: nat
  assumes insert_ok: "inv b \<Longrightarrow> item_ok x \<Longrightarrow> \<exists>b'. insert x b = Inr b' \<and> inv b'
      \<and> str b' = (if length (str b) + need x \<le> limit then str b @ piece x else str b)"
    and bounded: "inv b \<Longrightarrow> length (str b) \<le> limit"
begin

lemma run_ok:
  "inv b \<Longrightarrow> \<forall>x\<in>set xs. item_ok x \<Longrightarrow> \<exists>b'. insert_all insert xs b = Inr b' \<and> inv b' \<and> str b' = sink_spec limit xs (str b)"
proof (induction xs arbitrary: b)
  case (Cons x xs)
  then obtain b1 where "insert x b = Inr b1" "inv b1"
    "str b1 = (if length (str b) + need x \<le> limit then str b @ piece x else str b)" using insert_ok [of b x] by auto
  with Cons.IH [of b1] Cons.prems(2) show ?case by auto
qed simp

end

lemma need_piece: "item_ok x \<Longrightarrow> length (piece x) \<le> need x"
  by (cases x) auto

lemma sink_spec_all:
  "\<forall>x\<in>set xs. item_ok x \<Longrightarrow> length t + sum_list (map need xs) \<le> limit \<Longrightarrow> sink_spec limit xs t = t @ concat (map piece xs)"
proof (induction xs arbitrary: t)
  case (Cons x xs)
  then have "length (t @ piece x) + sum_list (map need xs) \<le> limit" using need_piece [of x] by auto
  with Cons show ?case by simp
qed simp

lemma sink_spec_length: "\<forall>x\<in>set xs. item_ok x \<Longrightarrow> length t \<le> n \<Longrightarrow> length (sink_spec n xs t) \<le> n"
proof (induction xs arbitrary: t)
  case (Cons x xs)
  then have "length (if length t + need x \<le> n then t @ piece x else t) \<le> n" using need_piece [of x] by auto
  with Cons show ?case by simp
qed simp

text \<open>An append-or-drop step: \<open>cs\<close> is appended when \<open>nd\<close> characters are free.\<close>

definition sinks :: "nat \<Rightarrow> nat \<Rightarrow> string \<Rightarrow> adlBuffer \<Rightarrow> adlBuffer result \<Rightarrow> bool" where
  "sinks SIZE nd cs b r \<longleftrightarrow> (\<exists>b'. r = Inr b' \<and> ab_inv SIZE b'
     \<and> ab_text b' = (if length (ab_text b) + nd \<le> SIZE - 1 then ab_text b @ cs else ab_text b))"

lemma append_if_room_ok:
  assumes "ab_inv SIZE b" "0 < SIZE"
  shows "sinks SIZE (length cs) cs b (append_if_room cs b)"
  using ab_append_ok [OF assms(1), of cs] ab_avail_ok [OF assms(1)] assms length_ab_text [OF assms(1)]
  by (auto simp: sinks_def append_if_room_def ab_inv_def)

lemma format32_ok:
  assumes "ab_inv SIZE b" "length t < 32"
  shows "sinks SIZE 32 t b (format32 t b)"
proof (cases "length (ab_text b) + 32 \<le> SIZE - 1")
  case False
  then show ?thesis using assms ab_avail_ok [OF assms(1)] by (auto simp: sinks_def format32_def)
next
  case True
  have l: "ab_len b + 32 < ab_SIZE b" "ab_SIZE b = SIZE" "length (ab_text b) = ab_len b"
    using assms True length_ab_text [OF assms(1)] by (auto simp: ab_inv_def)
  let ?cells = "take (ab_len b) (ab_cells b) @ map Some (t @ [CHR 0x00]) @ drop (ab_len b + length t + 1) (ab_cells b)"
  let ?b = "b\<lparr>ab_len := length t + ab_len b, ab_cells := ?cells[length t + ab_len b := Some (CHR 0x00)]\<rparr>"
  have tk: "take (length t + ab_len b) ?cells = take (ab_len b) (ab_cells b) @ map Some t" using l by simp
  have "format32 t b = Inr ?b"
    using l True assms(2) ab_avail_ok [OF assms(1)]
    by (simp add: format32_def ab_copy_def ab_addlen_def ab_setlen_def)
  moreover have "ab_inv SIZE ?b" using l assms tk by (simp add: ab_inv_def)
  moreover have "ab_text ?b = ab_text b @ t" using tk by (simp add: ab_text_def)
  ultimately show ?thesis using True by (auto simp: sinks_def)
qed

lemma append_string_if_room_ok:
  assumes "ab_inv SIZE b"
  shows "sinks SIZE (length cs) cs b (bind_res (ab_avail b) (\<lambda>a. if length cs \<le> a then ab_append_string cs b else Inr b))"
  using ab_append_string_ok [OF assms, of cs] ab_avail_ok [OF assms] assms length_ab_text [OF assms]
  by (auto simp: sinks_def ab_inv_def)

interpretation ls: bounded_sink ls_insert "ab_inv kSmallBuffer" ab_text "kSmallBuffer - 1"
proof
  fix b x assume b: "ab_inv kSmallBuffer b" and x: "item_ok x"
  have len: "0 < kSmallBuffer" by (simp add: kSmallBuffer_def)
  note room = append_if_room_ok [OF b len]
  have "sinks kSmallBuffer (need x) (piece x) b (ls_insert x b)"
  proof (cases x)
    case (L_buf_len cs n)
    then have n: "to_size_t n = n" "0 \<le> n" "length (take (nat n) cs) = nat n" using x by (auto simp: to_size_t_id)
    with L_buf_len x have "ls_insert x b = append_if_room (take (nat n) cs) b"
      by (auto simp: append_if_room_def ab_avail_ok [OF b])
    with room [of "take (nat n) cs"] L_buf_len show ?thesis by simp
  next
    case (L_buffer v)
    then obtain m where v: "ab_inv m v" using x by auto
    then have "ls_insert x b = append_if_room (ab_text v) b"
      using L_buffer ab_toString_ok [OF v] length_ab_text [OF v]
      by (simp add: append_if_room_def cong del: if_weak_cong)
    with room [of "ab_text v"] L_buffer show ?thesis by simp
  next
    case (L_cstring v)
    then show ?thesis using room [of "piece x"] by (cases v) simp_all
  next
    case L_endl
    then show ?thesis using append_string_if_room_ok [OF b, of "[CHR 0x0A]"] by (simp add: ab_append_char_string cong del: if_weak_cong)
  next
    case (L_bool v)
    then show ?thesis using room [of "piece x"] by (cases v) simp_all
  next
    case (L_integer v)
    then show ?thesis using append_string_if_room_ok [OF b, of "to_string v"] by (simp add: formatInteger_def Let_def)
  next
    case (L_char c)
    then show ?thesis using room [of "[c]"] by simp
  qed (use x append_string_if_room_ok [OF b] format32_ok [OF b] in simp_all)
  then show "\<exists>b'. ls_insert x b = Inr b' \<and> ab_inv kSmallBuffer b'
      \<and> ab_text b' = (if length (ab_text b) + need x \<le> kSmallBuffer - 1 then ab_text b @ piece x else ab_text b)"
    by (simp add: sinks_def)
next
  fix b assume "ab_inv kSmallBuffer b"
  then show "length (ab_text b) \<le> kSmallBuffer - 1" using length_ab_text [of kSmallBuffer b] by (auto simp: ab_inv_def)
qed

section \<open>Properties\<close>

text \<open>Log lines never overflow.  Whatever is inserted, in whatever order and however often, no
  assertion of the buffer fails and nothing is written outside it; every item is either appended
  whole or dropped whole, in order, the text never exceeds 3999 characters, and when everything
  fits nothing is dropped.\<close>

theorem log_stream_bounded:
  assumes "\<forall>x\<in>set xs. item_ok x"
  shows "\<exists>b. insert_all ls_insert xs (new_adlBuffer kSmallBuffer) = Inr b
    \<and> ab_toString b = Inr (sink_spec 3999 xs []) \<and> ab_len b \<le> 3999
    \<and> (sum_list (map need xs) \<le> 3999 \<longrightarrow> ab_toString b = Inr (concat (map piece xs)))"
proof -
  have new: "ab_inv kSmallBuffer (new_adlBuffer kSmallBuffer)" "ab_text (new_adlBuffer kSmallBuffer) = []"
    using ab_inv_new [of kSmallBuffer] by (simp_all add: kSmallBuffer_def)
  from ls.run_ok [OF new(1) assms] obtain b where b: "insert_all ls_insert xs (new_adlBuffer kSmallBuffer) = Inr b"
    "ab_inv kSmallBuffer b" "ab_text b = sink_spec 3999 xs []"
    unfolding new(2) by (auto simp: kSmallBuffer_def)
  have "ab_len b \<le> 3999" using b(2) by (simp add: ab_inv_def kSmallBuffer_def)
  with b ab_toString_ok [OF b(2)] sink_spec_all [OF assms, of "[]" 3999] show ?thesis by auto
qed

theorem log_stream_bounded_witness:
  "\<exists>b. insert_all ls_insert [L_cstring (Some ''fd ''), L_integer 7, L_cstring None, L_endl] (new_adlBuffer kSmallBuffer) = Inr b
    \<and> ab_toString b = Inr (''fd '' @ to_string 7 @ ''(null)'' @ [CHR 0x0A])"
  using log_stream_bounded [of "[L_cstring (Some ''fd ''), L_integer 7, L_cstring None, L_endl]"]
  by (auto simp: to_string_def nat_digits.simps)

end
