(* ===== verification/Log_File.thy ===== *)
theory Log_File
  imports File_Util "HOL-Library.Signed_Division"
begin

text \<open>
  \<open>src/src/log/logFile.h\<close>: the log file that starts a new file when the current one has grown past
  \<open>rollSize_\<close> or a day has passed.  The clock is a parameter: \<open>le_clock i\<close> is what the \<open>i\<close>-th call of
  \<open>time\<close> returns; \<open>le_format\<close> is \<open>timeStamp::getYearToSecondFormatTime\<close>.  The mutex makes each call
  atomic.  \<open>lf_disk\<close> is what is on the disk under each name; \<open>lf_closed\<close> remembers the files that were
  replaced and \<open>lf_rolls\<close> the times of the rolls (both only for the statements).
\<close>

record log_env =
  le_clock :: "nat \<Rightarrow> int"
  le_format :: "int \<Rightarrow> string"
  le_fopen :: "string \<Rightarrow> bool"
  le_fwrite :: fwrite

record logFile =
  lf_baseName :: string
  lf_rollSize :: int
  lf_flushInterval :: int
  lf_checkEveryN :: int
  lf_count :: int
  lf_startOfPeriod :: int
  lf_lastRoll :: int
  lf_lastFlush :: int
  lf_file :: "fileApp option"
  lf_disk :: "string \<Rightarrow> char list"
  lf_ticks :: nat
  lf_closed :: "fileApp list"
  lf_rolls :: "int list"

definition kRollPerSeconds :: int where
  "kRollPerSeconds = 60 * 60 * 24"

definition start_of_day :: "int \<Rightarrow> int" where
  "start_of_day now = (now sdiv kRollPerSeconds) * kRollPerSeconds"

definition log_time :: "log_env \<Rightarrow> logFile \<Rightarrow> int \<times> logFile" where
  "log_time e f = (le_clock e (lf_ticks f), f\<lparr>lf_ticks := Suc (lf_ticks f)\<rparr>)"

text \<open>\<open>file_.reset(new fileApp(filename))\<close>: the new file is opened for appending, then the old one destroyed.\<close>

definition switch_file :: "string \<Rightarrow> logFile \<Rightarrow> logFile" where
  "switch_file name f =
     (let disk = (case lf_file f of None \<Rightarrow> lf_disk f | Some old \<Rightarrow> (lf_disk f)(fa_name old := fa_content old))
      in f\<lparr>lf_file := Some (new_fileApp name (disk name)), lf_disk := disk,
           lf_closed := lf_closed f @ (case lf_file f of None \<Rightarrow> [] | Some old \<Rightarrow> [destroy_fileApp old])\<rparr>)"

definition rollfile :: "log_env \<Rightarrow> logFile \<Rightarrow> (bool \<times> logFile) result" where
  "rollfile e f =
     (let (now, f1) = log_time e f;
          filename = lf_baseName f1 @ le_format e now @ ''.log'';
          start = start_of_day now
      in if now \<le> lf_lastRoll f1 then Inr (False, f1)
         else let f2 = f1\<lparr>lf_lastRoll := now, lf_lastFlush := now, lf_startOfPeriod := start, lf_rolls := lf_rolls f1 @ [now]\<rparr>
              in if \<not> le_fopen e filename then Inl Abort else Inr (True, switch_file filename f2))"

definition new_logFile :: "log_env \<Rightarrow> string \<Rightarrow> int \<Rightarrow> int \<Rightarrow> int \<Rightarrow> (string \<Rightarrow> char list) \<Rightarrow> logFile result" where
  "new_logFile e basename rollSize flushInterval checkEveryN disk =
     bind_res (rollfile e \<lparr>lf_baseName = basename, lf_rollSize = rollSize, lf_flushInterval = flushInterval,
         lf_checkEveryN = checkEveryN, lf_count = 0, lf_startOfPeriod = 0, lf_lastRoll = 0, lf_lastFlush = 0,
         lf_file = None, lf_disk = disk, lf_ticks = 0, lf_closed = [], lf_rolls = []\<rparr>) (\<lambda>(_, f). Inr f)"

text \<open>A null \<open>file_\<close> is dereferenced when the constructor's roll did not open a file.\<close>

definition with_file :: "(fileApp \<Rightarrow> fileApp) \<Rightarrow> logFile \<Rightarrow> logFile result" where
  "with_file g f = (case lf_file f of None \<Rightarrow> Inl Out_of_bounds | Some x \<Rightarrow> Inr (f\<lparr>lf_file := Some (g x)\<rparr>))"

text \<open>The length goes through an \<open>int\<close> parameter and back to \<open>size_t\<close>.\<close>

definition file_append :: "log_env \<Rightarrow> char list \<Rightarrow> logFile \<Rightarrow> logFile result" where
  "file_append e line f =
     (let n = to_size_t (to_int (int (length line))) in
      if n \<le> int (length line) then with_file (\<lambda>x. snd (fileApp_append (le_fwrite e) (take (nat n) line) x)) f
      else Inl Out_of_bounds)"

definition periodic_check :: "log_env \<Rightarrow> logFile \<Rightarrow> logFile result" where
  "periodic_check e f =
     (let (now, f1) = log_time e (f\<lparr>lf_count := 0\<rparr>); thisPeriod = start_of_day now in
      if thisPeriod \<noteq> lf_startOfPeriod f1 then bind_res (rollfile e f1) (\<lambda>(_, f2). Inr f2)
      else if now - lf_lastFlush f1 > lf_flushInterval f1
      then with_file fileApp_flush (f1\<lparr>lf_lastFlush := now\<rparr>)
      else Inr f1)"

definition append_unlocked :: "log_env \<Rightarrow> char list \<Rightarrow> logFile \<Rightarrow> logFile result" where
  "append_unlocked e line f =
     bind_res (file_append e line f) (\<lambda>f1.
       case lf_file f1 of
         None \<Rightarrow> Inl Out_of_bounds
       | Some x \<Rightarrow>
           if fa_written x > lf_rollSize f1 then bind_res (rollfile e f1) (\<lambda>(_, f2). Inr f2)
           else let f2 = f1\<lparr>lf_count := lf_count f1 + 1\<rparr> in
             if \<not> fits_int (lf_count f2) then Inl Int_overflow
             else if lf_count f2 \<ge> lf_checkEveryN f2 then periodic_check e f2 else Inr f2)"

definition logFile_append :: "log_env \<Rightarrow> char list \<Rightarrow> logFile \<Rightarrow> logFile result" where
  "logFile_append e line f = append_unlocked e line f"

definition logFile_flush :: "logFile \<Rightarrow> logFile result" where
  "logFile_flush f = with_file fileApp_flush f"

section \<open>What is in the log\<close>

text \<open>The bytes written to a file since it was opened, and the whole log in the order of the files.\<close>

definition session_bytes :: "fileApp \<Rightarrow> char list" where
  "session_bytes x = drop (length (fa_content x) - nat (fa_written x)) (fa_content x)"

definition log_text :: "logFile \<Rightarrow> char list" where
  "log_text f = concat (map session_bytes (lf_closed f @ (case lf_file f of None \<Rightarrow> [] | Some x \<Rightarrow> [x])))"

definition file_ok :: "fileApp \<Rightarrow> bool" where
  "file_ok x \<longleftrightarrow> 0 \<le> fa_written x \<and> nat (fa_written x) \<le> length (fa_content x)"

definition lf_inv :: "logFile \<Rightarrow> bool" where
  "lf_inv f \<longleftrightarrow> (\<exists>x. lf_file f = Some x \<and> file_ok x) \<and> sorted_wrt (<) (lf_rolls f)
     \<and> lf_rolls f \<noteq> [] \<and> last (lf_rolls f) = lf_lastRoll f \<and> length (lf_rolls f) = Suc (length (lf_closed f))
     \<and> (\<forall>x\<in>set (lf_closed f). all_flushed x) \<and> 0 \<le> lf_count f \<and> lf_count f < max 1 (lf_checkEveryN f) \<and> lf_checkEveryN f \<le> INT_MAX"

text \<open>A disk that takes every write whole and opens every file.\<close>

definition good_disk :: "log_env \<Rightarrow> bool" where
  "good_disk e \<longleftrightarrow> (\<forall>f cs. le_fwrite e f cs = length cs) \<and> (\<forall>n. le_fopen e n)"

lemma session_new [simp]: "session_bytes (new_fileApp name old) = []" "file_ok (new_fileApp name old)"
  "fa_written (new_fileApp name old) = 0"
  by (simp_all add: session_bytes_def new_fileApp_def file_ok_def)

lemma append_good:
  assumes "good_disk e" "file_ok x"
  shows "file_ok (snd (fileApp_append (le_fwrite e) line x))"
    "session_bytes (snd (fileApp_append (le_fwrite e) line x)) = session_bytes x @ line"
    "fa_written (snd (fileApp_append (le_fwrite e) line x)) = fa_written x + int (length line)"
proof -
  have "snd (fileApp_append (le_fwrite e) line x)
      = x\<lparr>fa_content := fa_content x @ line, fa_written := fa_written x + int (length line)\<rparr>"
    using assms(1) by (cases "line = []")
      (simp_all add: fileApp_append_def fileApp_append_loop.simps good_disk_def Let_def)
  then show "file_ok (snd (fileApp_append (le_fwrite e) line x))"
    "session_bytes (snd (fileApp_append (le_fwrite e) line x)) = session_bytes x @ line"
    "fa_written (snd (fileApp_append (le_fwrite e) line x)) = fa_written x + int (length line)"
    using assms(2) by (auto simp: file_ok_def session_bytes_def nat_add_distrib)
qed

lemma session_flush [simp]: "session_bytes (fileApp_flush x) = session_bytes x" "file_ok (fileApp_flush x) = file_ok x"
  "session_bytes (destroy_fileApp x) = session_bytes x"
  by (simp_all add: session_bytes_def fileApp_flush_def file_ok_def destroy_fileApp_def)

lemma sorted_wrt_snoc_last:
  fixes x :: int
  assumes "sorted_wrt (<) xs" "xs \<noteq> []" "last xs < x"
  shows "sorted_wrt (<) (xs @ [x])"
  using assms by (induction xs) (auto split: if_splits dest!: bspec [OF _ last_in_set])

text \<open>Rolling keeps the log, and does nothing until the clock has moved past the last roll.\<close>

lemma rollfile_ok:
  assumes "good_disk e" "lf_inv f"
  shows "\<exists>b f'. rollfile e f = Inr (b, f') \<and> lf_inv f' \<and> log_text f' = log_text f \<and> lf_ticks f' = Suc (lf_ticks f)
    \<and> lf_rollSize f' = lf_rollSize f \<and> (b \<longleftrightarrow> lf_lastRoll f < le_clock e (lf_ticks f))
    \<and> (b \<longrightarrow> lf_file f' \<noteq> None \<and> fa_written (the (lf_file f')) = 0)"
proof -
  obtain x where x: "lf_file f = Some x" "file_ok x" using assms(2) by (auto simp: lf_inv_def)
  have "sorted_wrt (<) (lf_rolls f @ [now])" if "lf_lastRoll f < now" for now
    using assms(2) that by (intro sorted_wrt_snoc_last) (auto simp: lf_inv_def)
  with x assms show ?thesis
    by (auto simp: rollfile_def log_time_def Let_def lf_inv_def log_text_def switch_file_def good_disk_def)
qed

lemma file_append_ok:
  assumes "good_disk e" "lf_inv f" "int (length line) \<le> INT_MAX"
  shows "\<exists>f'. file_append e line f = Inr f' \<and> lf_inv f' \<and> log_text f' = log_text f @ line
    \<and> lf_rollSize f' = lf_rollSize f \<and> lf_lastRoll f' = lf_lastRoll f \<and> lf_ticks f' = lf_ticks f"
proof -
  obtain x where x: "lf_file f = Some x" "file_ok x" using assms(2) by (auto simp: lf_inv_def)
  have "to_size_t (to_int (int (length line))) = int (length line)"
    using assms(3) by (simp add: to_int_id fits_int_nonneg to_size_t_id)
  with x append_good [OF assms(1) x(2), of line] assms(2) show ?thesis
    by (simp add: file_append_def with_file_def lf_inv_def log_text_def)
qed

lemma lf_inv_count: "lf_inv f \<Longrightarrow> 0 \<le> n \<Longrightarrow> n < max 1 (lf_checkEveryN f) \<Longrightarrow> lf_inv (f\<lparr>lf_count := n\<rparr>)"
  by (simp add: lf_inv_def)

lemma lf_frame [simp]:
  "log_text (f\<lparr>lf_count := n\<rparr>) = log_text f" "log_text (f\<lparr>lf_ticks := t\<rparr>) = log_text f"
  "log_text (f\<lparr>lf_lastFlush := m\<rparr>) = log_text f"
  "lf_inv (f\<lparr>lf_ticks := t\<rparr>) = lf_inv f" "lf_inv (f\<lparr>lf_lastFlush := m\<rparr>) = lf_inv f"
  by (simp_all add: log_text_def lf_inv_def)

lemma flush_ok: "lf_inv f \<Longrightarrow> \<exists>f'. with_file fileApp_flush f = Inr f' \<and> lf_inv f' \<and> log_text f' = log_text f
    \<and> lf_rollSize f' = lf_rollSize f \<and> (\<exists>x. lf_file f = Some x \<and> lf_file f' = Some (fileApp_flush x))"
  by (auto simp: with_file_def lf_inv_def log_text_def)

lemma periodic_check_ok:
  assumes "good_disk e" "lf_inv f"
  shows "\<exists>f'. periodic_check e f = Inr f' \<and> lf_inv f' \<and> log_text f' = log_text f \<and> lf_rollSize f' = lf_rollSize f
    \<and> (fa_written (the (lf_file f')) = fa_written (the (lf_file f)) \<or> fa_written (the (lf_file f')) = 0)"
proof -
  let ?f = "f\<lparr>lf_count := 0, lf_ticks := Suc (lf_ticks f)\<rparr>"
  have i: "lf_inv ?f" "log_text ?f = log_text f" using assms(2) by (simp_all add: lf_inv_count) 
  from rollfile_ok [OF assms(1) i(1)] obtain b f' where r: "rollfile e ?f = Inr (b, f')" "lf_inv f'" "log_text f' = log_text f"
    "lf_rollSize f' = lf_rollSize f" "b \<longrightarrow> fa_written (the (lf_file f')) = 0" using i(2) by auto
  have nb: "\<not> b \<longrightarrow> lf_file f' = lf_file f"
    using r(1) by (auto simp: rollfile_def log_time_def Let_def split: if_splits)
  from i flush_ok [of "?f\<lparr>lf_lastFlush := le_clock e (lf_ticks f)\<rparr>"] obtain g where
    g: "with_file fileApp_flush (?f\<lparr>lf_lastFlush := le_clock e (lf_ticks f)\<rparr>) = Inr g" "lf_inv g" "log_text g = log_text f"
    "lf_rollSize g = lf_rollSize f" "\<exists>x. lf_file f = Some x \<and> lf_file g = Some (fileApp_flush x)" by auto
  then have "fa_written (the (lf_file g)) = fa_written (the (lf_file f))" by (auto simp: fileApp_flush_def)
  with i r nb g show ?thesis
    by (cases b) (auto simp: periodic_check_def log_time_def Let_def)
qed

lemma append_unlocked_ok:
  assumes "good_disk e" "lf_inv f" "int (length line) \<le> INT_MAX"
  shows "\<exists>f'. append_unlocked e line f = Inr f' \<and> lf_inv f' \<and> log_text f' = log_text f @ line
    \<and> lf_rollSize f' = lf_rollSize f
    \<and> (0 \<le> lf_rollSize f \<longrightarrow> fa_written (the (lf_file f')) \<le> lf_rollSize f \<or> le_clock e (lf_ticks f) \<le> lf_lastRoll f)"
proof -
  from file_append_ok [OF assms] obtain f1 x where f1: "file_append e line f = Inr f1" "lf_inv f1" "lf_file f1 = Some x"
    "log_text f1 = log_text f @ line" "lf_rollSize f1 = lf_rollSize f" "lf_lastRoll f1 = lf_lastRoll f" "lf_ticks f1 = lf_ticks f"
    by (auto simp: lf_inv_def)
  show ?thesis
  proof (cases "fa_written x > lf_rollSize f1")
    case True
    from rollfile_ok [OF assms(1) f1(2)] obtain b f' where r: "rollfile e f1 = Inr (b, f')" "lf_inv f'"
      "log_text f' = log_text f1" "lf_rollSize f' = lf_rollSize f1" "b \<longleftrightarrow> lf_lastRoll f1 < le_clock e (lf_ticks f1)"
      "b \<longrightarrow> fa_written (the (lf_file f')) = 0" by blast
    with True f1 show ?thesis by (auto simp: append_unlocked_def)
  next
    case False
    let ?f2 = "f1\<lparr>lf_count := lf_count f1 + 1\<rparr>"
    have c: "0 \<le> lf_count f1" "lf_count f1 < max 1 (lf_checkEveryN f1)" "lf_checkEveryN f1 \<le> INT_MAX"
      using f1(2) by (simp_all add: lf_inv_def)
    then have fit: "fits_int (lf_count f1 + 1)" by (auto simp: fits_int_def INT_MIN_def INT_MAX_def max_def split: if_splits)
    show ?thesis
    proof (cases "lf_count f1 + 1 \<ge> lf_checkEveryN f1")
      case True
      have "lf_inv (f1\<lparr>lf_count := 0\<rparr>)" using f1(2) by (simp add: lf_inv_count)
      from periodic_check_ok [OF assms(1) this] obtain f' where r: "periodic_check e (f1\<lparr>lf_count := 0\<rparr>) = Inr f'" "lf_inv f'"
        "log_text f' = log_text f1" "lf_rollSize f' = lf_rollSize f1"
        "fa_written (the (lf_file f')) = fa_written (the (lf_file f1)) \<or> fa_written (the (lf_file f')) = 0" by auto
      have "periodic_check e ?f2 = periodic_check e (f1\<lparr>lf_count := 0\<rparr>)" by (simp add: periodic_check_def)
      with r False True f1 fit show ?thesis by (auto simp: append_unlocked_def)
    next
      case False
      have "lf_inv ?f2" using f1(2) c False by (intro lf_inv_count) auto
      with False \<open>\<not> fa_written x > lf_rollSize f1\<close> f1 fit show ?thesis by (auto simp: append_unlocked_def)
    qed
  qed
qed

section \<open>The interface of a log\<close>

text \<open>What a writer of log lines relies on: a line of at most \<open>limit\<close> bytes is appended, whole and at the
  end.\<close>

locale log_sink =
  fixes put :: "char list \<Rightarrow> 's \<Rightarrow> 's result" and out :: "'s \<Rightarrow> char list" and inv :: "'s \<Rightarrow> bool" and limit :: int
  assumes put_ok: "inv s \<Longrightarrow> int (length line) \<le> limit \<Longrightarrow> \<exists>s'. put line s = Inr s' \<and> inv s' \<and> out s' = out s @ line"
begin

lemma put_all:
  "inv s \<Longrightarrow> \<forall>l\<in>set ls. int (length l) \<le> limit
    \<Longrightarrow> \<exists>s'. fold (\<lambda>l m. bind_res m (put l)) ls (Inr s) = Inr s' \<and> inv s' \<and> out s' = out s @ concat ls"
proof (induction ls arbitrary: s)
  case (Cons l ls)
  then obtain s1 where "put l s = Inr s1" "inv s1" "out s1 = out s @ l" using put_ok [of s l] by auto
  with Cons.IH [of s1] Cons.prems(2) show ?case by auto
qed simp

end

interpretation lf: log_sink "logFile_append e" log_text "\<lambda>f. good_disk e \<and> lf_inv f" INT_MAX for e
  by unfold_locales (use append_unlocked_ok in \<open>fastforce simp: logFile_append_def\<close>)

lemma new_logFile_ok:
  assumes "good_disk e" "0 < le_clock e 0" "n \<le> INT_MAX"
  shows "\<exists>f. new_logFile e base roll flush n disk = Inr f \<and> lf_inv f \<and> log_text f = [] \<and> lf_rollSize f = roll"
  using assms
  by (auto simp: new_logFile_def rollfile_def log_time_def switch_file_def lf_inv_def log_text_def good_disk_def Let_def)

section \<open>Properties\<close>

text \<open>C26: log lines are kept.  With a clock that starts after 1970 and a disk that takes what it is
  given, opening a log and appending any lines succeeds; the bytes of all the files written, in
  the order of their creation, are exactly the lines in order, however often the log was rolled;
  every file but the current one has been written out to the disk; and no two rolls happen at the same second.\<close>

theorem log_lines_kept:
  assumes "good_disk e" "0 < le_clock e 0" "n \<le> INT_MAX" "\<forall>l\<in>set ls. int (length l) \<le> INT_MAX"
  shows "\<exists>f. bind_res (new_logFile e base roll flush n disk)
        (\<lambda>f. fold (\<lambda>l m. bind_res m (logFile_append e l)) ls (Inr f)) = Inr f
    \<and> log_text f = concat ls \<and> sorted_wrt (<) (lf_rolls f) \<and> length (lf_rolls f) = Suc (length (lf_closed f))
    \<and> (\<forall>x\<in>set (lf_closed f). all_flushed x)"
proof -
  obtain f where f: "new_logFile e base roll flush n disk = Inr f" "lf_inv f" "log_text f = []"
    using new_logFile_ok [OF assms(1-3)] by blast
  from lf.put_all [of e f ls] f assms(1,4) obtain f' where
    "fold (\<lambda>l m. bind_res m (logFile_append e l)) ls (Inr f) = Inr f'" "lf_inv f'" "log_text f' = concat ls" by auto
  with f show ?thesis by (auto simp: lf_inv_def)
qed

definition demo_log :: log_env where
  "demo_log = \<lparr>le_clock = (\<lambda>i. int i + 1), le_format = (\<lambda>t. [char_of (nat t)]), le_fopen = (\<lambda>_. True), le_fwrite = (\<lambda>f cs. length cs)\<rparr>"

lemma demo_log_ok: "good_disk demo_log" "0 < le_clock demo_log 0"
  by (simp_all add: demo_log_def good_disk_def)

theorem log_lines_kept_witness:
  "\<exists>f. bind_res (new_logFile demo_log ''a'' 2 3 1024 (\<lambda>_. []))
        (\<lambda>f. fold (\<lambda>l m. bind_res m (logFile_append demo_log l)) [''abc'', ''d''] (Inr f)) = Inr f
    \<and> log_text f = ''abcd''"
  using log_lines_kept [OF demo_log_ok, of 1024 "[''abc'', ''d'']" "''a''" 2 3 "\<lambda>_. []"] by (auto simp: INT_MAX_def)

text \<open>Log files stay small.  After an append either the current file holds at most \<open>rollSize_\<close> bytes of
  this session, or the clock has not moved past the last roll.\<close>

theorem log_file_size:
  assumes "good_disk e" "lf_inv f" "int (length line) \<le> INT_MAX" "0 \<le> lf_rollSize f"
  shows "\<exists>f'. logFile_append e line f = Inr f'
    \<and> (fa_written (the (lf_file f')) \<le> lf_rollSize f \<or> le_clock e (lf_ticks f) \<le> lf_lastRoll f)"
  using append_unlocked_ok [OF assms(1-3)] assms(4) by (auto simp: logFile_append_def)

theorem log_file_size_witness:
  "\<exists>f f'. new_logFile demo_log ''a'' 2 3 1024 (\<lambda>_. []) = Inr f \<and> logFile_append demo_log ''abc'' f = Inr f'
    \<and> (fa_written (the (lf_file f')) \<le> 2 \<or> le_clock demo_log (lf_ticks f) \<le> lf_lastRoll f)"
  using new_logFile_ok [OF demo_log_ok, of 1024 "''a''" 2 3 "\<lambda>_. []"] log_file_size [OF demo_log_ok(1), of _ "''abc''"]
  by (fastforce simp: INT_MAX_def)

end
