(* ===== verification/Async_Logging.thy ===== *)
theory Async_Logging
  imports Log_Stream Log_File "HOL-Library.Sublist"
begin

text \<open>
  \<open>src/src/log/asyncLogging.{h,cpp}\<close>: the double-buffered logger.  Any thread appends lines to the
  current buffer under the mutex; the back-end thread collects the filled buffers under the same
  mutex, writes them to its log file outside it and recycles two of them.  A \<open>unique_ptr\<close> is an
  option, and dereferencing \<open>None\<close> is a fault.  The step relation interleaves the back-end with any
  number of appending threads and with the destructor, and records beside the state the lines of all
  calls of \<open>append\<close> that have returned; \<open>al_overload\<close> only serves the statements.  The state is the one
  after \<open>start()\<close>.
\<close>

section \<open>State\<close>

datatype al_pc = Waiting | Writing | Testing | Exited

record async =
  al_running :: bool
  al_cur :: "adlBuffer option"
  al_prv :: "adlBuffer option"
  al_trans :: "adlBuffer option list"
  al_new1 :: "adlBuffer option"
  al_new2 :: "adlBuffer option"
  al_write :: "adlBuffer option list"
  al_file :: logFile
  al_pc :: al_pc
  al_overload :: bool

definition new_Buffer :: adlBuffer where
  "new_Buffer = new_adlBuffer kLargeBuffer"

text \<open>The constructor, \<open>start()\<close> and the beginning of \<open>threadFunc\<close> up to its loop.\<close>

definition started_async :: "logFile \<Rightarrow> async" where
  "started_async file =
     \<lparr>al_running = True, al_cur = Some new_Buffer, al_prv = Some new_Buffer, al_trans = [],
      al_new1 = Some new_Buffer, al_new2 = Some new_Buffer, al_write = [], al_file = file, al_pc = Testing,
      al_overload = False\<rparr>"

definition deref :: "'a option \<Rightarrow> 'a result" where
  "deref p = (case p of None \<Rightarrow> Inl Out_of_bounds | Some x \<Rightarrow> Inr x)"

lemma deref_simps [simp]: "deref (Some x) = Inr x" "deref None = Inl Out_of_bounds"
  by (simp_all add: deref_def)

section \<open>The front end\<close>

text \<open>\<open>if (cur_->avail() >= len + 1) cur_->append(str, len)\<close>; the flag says whether it was appended.\<close>

definition try_append :: "char list \<Rightarrow> async \<Rightarrow> (bool \<times> async) result" where
  "try_append str s =
     bind_res (deref (al_cur s)) (\<lambda>b. bind_res (ab_avail b) (\<lambda>a.
       if a \<ge> length str + 1
       then bind_res (ab_append str b) (\<lambda>b'. Inr (True, s\<lparr>al_cur := Some b'\<rparr>))
       else Inr (False, s)))"

definition async_append :: "char list \<Rightarrow> async \<Rightarrow> async result" where
  "async_append str s =
     (if \<not> al_running s then Inl Abort
      else if length str \<ge> kLargeBuffer then Inl Abort
      else bind_res (try_append str s) (\<lambda>(done, s1).
        if done then Inr s1
        else let s2 = s1\<lparr>al_trans := al_trans s1 @ [al_cur s1], al_cur := None\<rparr>;
                 s3 = (case al_prv s2 of
                         Some b \<Rightarrow> s2\<lparr>al_cur := Some b, al_prv := None\<rparr>
                       | None \<Rightarrow> s2\<lparr>al_cur := Some new_Buffer\<rparr>)
             in bind_res (try_append str s3) (\<lambda>(_, s4). Inr s4)))"

definition async_stop :: "async \<Rightarrow> async" where
  "async_stop s = s\<lparr>al_running := False\<rparr>"

section \<open>The back end\<close>

text \<open>What happens under the mutex once \<open>wait_for\<close> returns.\<close>

definition collect :: "async \<Rightarrow> async" where
  "collect s =
     (let s1 = s\<lparr>al_trans := al_trans s @ [al_cur s], al_cur := al_new1 s, al_new1 := None\<rparr>;
          s2 = (if al_prv s1 = None then s1\<lparr>al_prv := al_new2 s1, al_new2 := None\<rparr> else s1)
      in s2\<lparr>al_write := al_trans s2, al_trans := al_write s2, al_pc := Writing\<rparr>)"

text \<open>Too many buffers: all but the first two are thrown away.\<close>

definition drop_overload :: "async \<Rightarrow> async" where
  "drop_overload s =
     (if length (al_write s) \<ge> 25 then s\<lparr>al_write := take 2 (al_write s), al_overload := True\<rparr> else s)"

definition write_one :: "log_env \<Rightarrow> adlBuffer option \<Rightarrow> logFile \<Rightarrow> logFile result" where
  "write_one e p f = bind_res (deref p) (\<lambda>b. bind_res (ab_toString b) (\<lambda>cs. logFile_append e cs f))"

fun write_buffers :: "log_env \<Rightarrow> adlBuffer option list \<Rightarrow> logFile \<Rightarrow> logFile result" where
  "write_buffers e [] f = Inr f"
| "write_buffers e (p # ps) f = bind_res (write_one e p f) (write_buffers e ps)"

text \<open>\<open>newBuf = std::move(needToWriteBufVec_.back()); pop_back(); newBuf->reset();\<close>\<close>

definition recycle :: "adlBuffer option \<Rightarrow> adlBuffer option list \<Rightarrow> (adlBuffer option \<times> adlBuffer option list) result" where
  "recycle new vec =
     (if new \<noteq> None then Inr (new, vec)
      else if vec = [] then Inl Out_of_bounds
      else bind_res (deref (last vec)) (\<lambda>b. bind_res (ab_reset False b) (\<lambda>b'. Inr (Some b', butlast vec))))"

definition write_out :: "log_env \<Rightarrow> async \<Rightarrow> async result" where
  "write_out e s0 =
     (let s = drop_overload s0 in
      bind_res (write_buffers e (al_write s) (al_file s)) (\<lambda>f.
      let vec = (if length (al_write s) > 2 then take 2 (al_write s) else al_write s) in
      bind_res (recycle (al_new1 s) vec) (\<lambda>(n1, vec1).
      bind_res (recycle (al_new2 s) vec1) (\<lambda>(n2, vec2).
      bind_res (logFile_flush f) (\<lambda>f'.
        Inr (s\<lparr>al_file := f', al_new1 := n1, al_new2 := n2, al_write := vec2, al_pc := Testing\<rparr>))))))"

definition test_running :: "async \<Rightarrow> async" where
  "test_running s = s\<lparr>al_pc := if al_running s then Waiting else Exited\<rparr>"

text \<open>The second component: the lines of the calls of \<open>append\<close> that have returned, in the order in which they held the mutex, whatever
  became of them.\<close>

inductive async_step :: "log_env \<Rightarrow> async \<times> char list list \<Rightarrow> async \<times> char list list \<Rightarrow> bool" for e where
  front_append: "async_append str s = Inr s' \<Longrightarrow> async_step e (s, lines) (s', lines @ [str])"
| stop: "async_step e (s, lines) (async_stop s, lines)"
| back_test: "al_pc s = Testing \<Longrightarrow> async_step e (s, lines) (test_running s, lines)"
| back_collect: "al_pc s = Waiting \<Longrightarrow> async_step e (s, lines) (collect s, lines)"
| back_write: "al_pc s = Writing \<Longrightarrow> write_out e s = Inr s' \<Longrightarrow> async_step e (s, lines) (s', lines)"

inductive_cases async_stepE: "async_step e (s, lines) t"

definition async_init :: "async \<times> char list list \<Rightarrow> bool" where
  "async_init t \<longleftrightarrow> (\<exists>f. t = (started_async f, []) \<and> lf_inv f \<and> log_text f = [])"

text \<open>What should be logged: all lines that fit into a buffer with one byte to spare, one after the other.\<close>

definition to_log :: "char list list \<Rightarrow> char list" where
  "to_log lines = concat (filter (\<lambda>l. length l + 1 < kLargeBuffer) lines)"

lemma to_log_simps [simp]: "to_log [] = []"
  "to_log (lines @ [l]) = to_log lines @ (if length l + 1 < kLargeBuffer then l else [])"
  by (simp_all add: to_log_def)

section \<open>The invariant\<close>

definition buf_ok :: "adlBuffer option \<Rightarrow> bool" where
  "buf_ok p \<longleftrightarrow> (\<exists>b. p = Some b \<and> ab_inv kLargeBuffer b)"

definition buf_text :: "adlBuffer option \<Rightarrow> char list" where
  "buf_text p = (case p of None \<Rightarrow> [] | Some b \<Rightarrow> ab_text b)"

definition fresh :: "adlBuffer option \<Rightarrow> bool" where
  "fresh p \<longleftrightarrow> buf_ok p \<and> buf_text p = []"

definition texts :: "adlBuffer option list \<Rightarrow> char list" where
  "texts ps = concat (map buf_text ps)"

text \<open>Everything on its way, in the order it was appended.\<close>

definition in_flight :: "async \<Rightarrow> char list" where
  "in_flight s = log_text (al_file s) @ texts (al_write s) @ texts (al_trans s) @ buf_text (al_cur s)"

definition spare_ok :: "async \<Rightarrow> bool" where
  "spare_ok s \<longleftrightarrow>
     (if al_pc s = Writing
      then al_new1 s = None \<and> (if al_new2 s = None then length (al_write s) \<ge> 2 else fresh (al_new2 s) \<and> length (al_write s) = 1)
      else fresh (al_new1 s) \<and> fresh (al_new2 s) \<and> al_write s = [])"

definition async_inv :: "log_env \<Rightarrow> char list \<Rightarrow> async \<Rightarrow> bool" where
  "async_inv e acc s \<longleftrightarrow> good_disk e \<and> lf_inv (al_file s) \<and> buf_ok (al_cur s)
     \<and> (\<forall>p\<in>set (al_trans s). buf_ok p) \<and> (\<forall>p\<in>set (al_write s). buf_ok p)
     \<and> (if al_trans s = [] then fresh (al_prv s) else al_prv s = None) \<and> spare_ok s
     \<and> subseq (in_flight s) acc \<and> (\<not> al_overload s \<longrightarrow> in_flight s = acc)"

lemma fresh_new [simp]: "fresh (Some new_Buffer)"
  using ab_inv_new [of kLargeBuffer] by (simp add: fresh_def buf_ok_def buf_text_def new_Buffer_def kLargeBuffer_def)

lemma fresh_ok: "fresh p \<Longrightarrow> buf_ok p" "fresh p \<Longrightarrow> buf_text p = []" "fresh p \<Longrightarrow> p \<noteq> None"
  by (auto simp: fresh_def buf_ok_def)

lemma texts_simps [simp]: "texts [] = []" "texts (p # ps) = buf_text p @ texts ps" "texts (ps @ qs) = texts ps @ texts qs"
  by (simp_all add: texts_def)

definition run_inv :: "log_env \<Rightarrow> async \<times> char list list \<Rightarrow> bool" where
  "run_inv e = (\<lambda>(s, lines). async_inv e (to_log lines) s)"

lemma async_init_inv: "good_disk e \<Longrightarrow> async_init t \<Longrightarrow> run_inv e t"
  by (auto simp: async_init_def run_inv_def async_inv_def started_async_def spare_ok_def in_flight_def fresh_ok)

subsection \<open>Appending\<close>

lemma try_append_cases:
  assumes "al_cur s = Some b" "ab_inv kLargeBuffer b"
  shows "(\<exists>b'. try_append str s = Inr (True, s\<lparr>al_cur := Some b'\<rparr>)
      \<and> ab_inv kLargeBuffer b' \<and> ab_text b' = ab_text b @ str \<and> length str + 1 < kLargeBuffer)
    \<or> try_append str s = Inr (False, s) \<and> kLargeBuffer \<le> length (ab_text b) + length str + 1"
proof (cases "kLargeBuffer \<le> length (ab_text b) + length str + 1")
  case True
  have "ab_len b < kLargeBuffer" using assms(2) by (simp add: ab_inv_def)
  with True assms ab_avail_ok [OF assms(2)] length_ab_text [OF assms(2)] show ?thesis by (auto simp: try_append_def)
next
  case False
  then have "length (ab_text b) + length str < kLargeBuffer" by simp
  from ab_append_ok [OF assms(2) this] False assms ab_avail_ok [OF assms(2)] show ?thesis
    by (auto simp: try_append_def)
qed

lemma accepted_more:
  assumes "async_inv e acc s" "in_flight s' = in_flight s @ str" "al_overload s' = al_overload s"
  shows "subseq (in_flight s') (acc @ str) \<and> (\<not> al_overload s' \<longrightarrow> in_flight s' = acc @ str)"
  using assms by (auto simp: async_inv_def intro: list_emb_append_mono)

lemma async_append_inv:
  assumes "async_inv e acc s" "al_running s" "length str < kLargeBuffer"
  shows "\<exists>s'. async_append str s = Inr s' \<and> async_inv e (acc @ (if length str + 1 < kLargeBuffer then str else [])) s'
    \<and> al_running s' \<and> al_pc s' = al_pc s \<and> al_overload s' = al_overload s
    \<and> in_flight s' = in_flight s @ (if length str + 1 < kLargeBuffer then str else [])"
proof -
  obtain b where b: "al_cur s = Some b" "ab_inv kLargeBuffer b" using assms(1) by (auto simp: async_inv_def buf_ok_def)
  from try_append_cases [OF b, of str] show ?thesis
  proof (elim disjE exE conjE)
    fix b' let ?s = "s\<lparr>al_cur := Some b'\<rparr>"
    assume t: "try_append str s = Inr (True, ?s)" "ab_inv kLargeBuffer b'" "ab_text b' = ab_text b @ str" "length str + 1 < kLargeBuffer"
    have "in_flight ?s = in_flight s @ str" using t b by (simp add: in_flight_def buf_text_def)
    with accepted_more [OF assms(1), of ?s str] assms(1) t(2) have "async_inv e (acc @ str) ?s" "in_flight ?s = in_flight s @ str"
      by (auto simp: async_inv_def spare_ok_def buf_ok_def)
    with t assms show ?thesis by (auto simp: async_append_def)
  next
    assume t: "try_append str s = Inr (False, s)" "kLargeBuffer \<le> length (ab_text b) + length str + 1"
    obtain b0 where b0: "(case al_prv s of Some b \<Rightarrow> s\<lparr>al_trans := al_trans s @ [al_cur s], al_cur := Some b, al_prv := None\<rparr>
        | None \<Rightarrow> s\<lparr>al_trans := al_trans s @ [al_cur s], al_cur := Some new_Buffer\<rparr>)
      = s\<lparr>al_trans := al_trans s @ [al_cur s], al_cur := Some b0, al_prv := None\<rparr>" "fresh (Some b0)"
    proof (cases "al_prv s")
      case None
      then show thesis by (intro that [of new_Buffer]) (cases s, simp, simp)
    next
      case (Some b1)
      then have "fresh (Some b1)" using assms(1) by (auto simp: async_inv_def split: if_splits)
      with Some that [of b1] show thesis by simp
    qed
    let ?s3 = "s\<lparr>al_trans := al_trans s @ [al_cur s], al_cur := Some b0, al_prv := None\<rparr>"
    have f3: "in_flight ?s3 = in_flight s" using b0(2) by (simp add: in_flight_def fresh_ok)
    have inv3: "async_inv e acc ?s3" using assms(1) b0(2) f3 by (auto simp: async_inv_def spare_ok_def fresh_ok)
    have b3: "al_cur ?s3 = Some b0" "ab_inv kLargeBuffer b0" "ab_text b0 = []"
      using b0(2) by (auto simp: fresh_def buf_ok_def buf_text_def)
    have "async_append str s = bind_res (try_append str ?s3) (\<lambda>(_, s4). Inr s4)"
      using t(1) assms(2,3) b0(1) by (auto simp: async_append_def Let_def split: option.splits)
    with try_append_cases [OF b3(1,2), of str] show ?thesis
    proof (elim disjE exE conjE)
      fix b' let ?s = "?s3\<lparr>al_cur := Some b'\<rparr>"
      assume u: "try_append str ?s3 = Inr (True, ?s)" "ab_inv kLargeBuffer b'" "ab_text b' = ab_text b0 @ str" "length str + 1 < kLargeBuffer"
        "async_append str s = bind_res (try_append str ?s3) (\<lambda>(_, s4). Inr s4)"
      have "in_flight ?s = in_flight ?s3 @ str" using u b3 by (simp add: in_flight_def buf_text_def)
      with accepted_more [OF inv3, of ?s str] inv3 u(2) f3 have "async_inv e (acc @ str) ?s" "in_flight ?s = in_flight s @ str"
        by (auto simp: async_inv_def spare_ok_def buf_ok_def)
      with u assms(2) show ?thesis by auto
    next
      assume "try_append str ?s3 = Inr (False, ?s3)" "kLargeBuffer \<le> length (ab_text b0) + length str + 1"
        "async_append str s = bind_res (try_append str ?s3) (\<lambda>(_, s4). Inr s4)"
      with inv3 b3 assms(2) f3 show ?thesis by auto
    qed
  qed
qed

subsection \<open>The back end\<close>

lemma async_stop_inv: "async_inv e acc s \<Longrightarrow> async_inv e acc (async_stop s)"
  by (simp add: async_inv_def async_stop_def spare_ok_def in_flight_def)

lemma test_running_inv: "async_inv e acc s \<Longrightarrow> al_pc s = Testing \<Longrightarrow> async_inv e acc (test_running s)"
  by (auto simp: async_inv_def test_running_def spare_ok_def in_flight_def)

lemma collect_inv:
  assumes "async_inv e acc s" "al_pc s = Waiting"
  shows "async_inv e acc (collect s) \<and> al_pc (collect s) = Writing"
proof (cases "al_trans s = []")
  case True
  with assms have p: "fresh (al_prv s)" "fresh (al_new1 s)" "fresh (al_new2 s)" "al_write s = []" "al_prv s \<noteq> None" "al_new2 s \<noteq> None"
    by (auto simp: async_inv_def spare_ok_def fresh_ok)
  then have "in_flight (collect s) = in_flight s" using True by (simp add: collect_def in_flight_def fresh_ok)
  with assms p True show ?thesis by (auto simp: async_inv_def spare_ok_def collect_def fresh_ok)
next
  case False
  with assms have p: "al_prv s = None" "fresh (al_new1 s)" "fresh (al_new2 s)" "al_write s = []"
    by (auto simp: async_inv_def spare_ok_def)
  then have "in_flight (collect s) = in_flight s" using False by (simp add: collect_def in_flight_def fresh_ok)
  with assms p False show ?thesis
    by (cases "al_trans s") (auto simp: async_inv_def spare_ok_def collect_def fresh_ok)
qed

lemma write_buffers_ok:
  assumes "good_disk e" "lf_inv f" "\<forall>p\<in>set ps. buf_ok p"
  shows "\<exists>f'. write_buffers e ps f = Inr f' \<and> lf_inv f' \<and> log_text f' = log_text f @ texts ps"
  using assms(2,3)
proof (induction ps arbitrary: f)
  case (Cons p ps)
  then obtain b where b: "p = Some b" "ab_inv kLargeBuffer b" by (auto simp: buf_ok_def)
  have "length (ab_text b) < kLargeBuffer" using b(2) length_ab_text [OF b(2)] by (simp add: ab_inv_def)
  then have "int (length (ab_text b)) \<le> INT_MAX" by (simp add: kLargeBuffer_def INT_MAX_def)
  with lf.put_ok [of e f "ab_text b"] assms(1) Cons.prems(1) obtain f1 where
    f1: "logFile_append e (ab_text b) f = Inr f1" "lf_inv f1" "log_text f1 = log_text f @ ab_text b" by auto
  then have "write_one e p f = Inr f1" using b ab_toString_ok [OF b(2)] by (simp add: write_one_def)
  with Cons.IH [OF f1(2)] Cons.prems(2) f1(3) b(1) show ?case by (auto simp: buf_text_def)
qed simp

lemma recycle_ok:
  assumes "vec \<noteq> []" "buf_ok (last vec)"
  shows "\<exists>p. recycle None vec = Inr (p, butlast vec) \<and> fresh p"
proof -
  obtain b where b: "last vec = Some b" "ab_inv kLargeBuffer b" using assms(2) by (auto simp: buf_ok_def)
  from ab_reset_ok [OF b(2), of False] b(1) assms(1) show ?thesis
    by (auto simp: recycle_def fresh_def buf_ok_def buf_text_def)
qed

lemma drop_overload_ok:
  assumes "async_inv e acc s" "al_pc s = Writing"
  shows "async_inv e acc (drop_overload s) \<and> al_pc (drop_overload s) = Writing"
proof (cases "length (al_write s) \<ge> 25")
  case True
  let ?s = "drop_overload s"
  have n: "al_new1 s = None" "al_new2 s = None" using assms True by (auto simp: async_inv_def spare_ok_def split: if_splits)
  have "subseq (texts (take 2 (al_write s))) (texts (al_write s))"
    by (metis append_take_drop_id list_emb_append2 subseq_append' subseq_order.refl texts_simps(3) append.right_neutral list_emb_Nil list_emb_append_mono)
  then have "subseq (in_flight ?s) (in_flight s)"
    using True by (auto simp: in_flight_def drop_overload_def intro!: list_emb_append_mono)
  then have "subseq (in_flight ?s) acc" using assms(1) by (auto simp: async_inv_def intro: subseq_order.order_trans)
  with assms True n show ?thesis
    by (auto simp: async_inv_def drop_overload_def spare_ok_def dest: in_set_takeD)
qed (use assms in \<open>simp add: drop_overload_def\<close>)

lemma write_out_ok:
  assumes "async_inv e acc s" "al_pc s = Writing"
  shows "\<exists>s'. write_out e s = Inr s' \<and> async_inv e acc s' \<and> al_pc s' = Testing"
proof -
  let ?s = "drop_overload s"
  have inv: "async_inv e acc ?s" "al_pc ?s = Writing" using drop_overload_ok [OF assms] by auto
  then have ok: "good_disk e" "lf_inv (al_file ?s)" "\<forall>p\<in>set (al_write ?s). buf_ok p" "al_new1 ?s = None"
    "if al_new2 ?s = None then length (al_write ?s) \<ge> 2 else fresh (al_new2 ?s) \<and> length (al_write ?s) = 1"
    by (auto simp: async_inv_def spare_ok_def)
  from write_buffers_ok [OF ok(1-3)] obtain f where f: "write_buffers e (al_write ?s) (al_file ?s) = Inr f" "lf_inv f"
    "log_text f = log_text (al_file ?s) @ texts (al_write ?s)" by blast
  from flush_ok [OF f(2)] obtain f' where f': "logFile_flush f = Inr f'" "lf_inv f'" "log_text f' = log_text f"
    by (auto simp: logFile_flush_def)
  let ?vec = "if length (al_write ?s) > 2 then take 2 (al_write ?s) else al_write ?s"
  obtain n1 vec1 n2 where r: "recycle None ?vec = Inr (n1, vec1)" "recycle (al_new2 ?s) vec1 = Inr (n2, [])" "fresh n1" "fresh n2"
  proof (cases "al_new2 ?s")
    case None
    then have "length ?vec = 2" using ok(5) by auto
    then obtain p q where v: "?vec = [p, q]" by (auto simp: numeral_2_eq_2 length_Suc_conv)
    moreover have "set ?vec \<subseteq> set (al_write ?s)" by (auto dest: in_set_takeD)
    ultimately have pq: "buf_ok p" "buf_ok q" using ok(3) by auto
    show thesis using recycle_ok [of "[p, q]"] recycle_ok [of "[p]"] pq v None that by auto
  next
    case (Some b)
    then obtain p where v: "al_write ?s = [p]" using ok(5) by (auto simp: length_Suc_conv)
    then have "buf_ok p" using ok(3) by auto
    with recycle_ok [of "[p]"] v Some ok(5) that show thesis by (auto simp: recycle_def)
  qed
  let ?s' = "?s\<lparr>al_file := f', al_new1 := n1, al_new2 := n2, al_write := [], al_pc := Testing\<rparr>"
  have "write_out e s = Inr ?s'" using f(1) f'(1) r ok(4) by (simp add: write_out_def Let_def)
  moreover have "in_flight ?s' = in_flight ?s" using f f' by (simp add: in_flight_def)
  then have "async_inv e acc ?s'" using inv r f' by (auto simp: async_inv_def spare_ok_def)
  ultimately show ?thesis by auto
qed

lemma async_step_inv: "run_inv e t \<Longrightarrow> async_step e t u \<Longrightarrow> run_inv e u"
proof (cases t, hypsubst, erule async_stepE)
  fix s lines str s' assume a: "run_inv e (s, lines)" "u = (s', lines @ [str])" "async_append str s = Inr s'"
  then have "al_running s" "length str < kLargeBuffer" by (auto simp: async_append_def split: if_splits)
  with async_append_inv [of e "to_log lines" s str] a show "run_inv e u" by (auto simp: run_inv_def)
next
  fix s lines s' assume "run_inv e (s, lines)" "u = (s', lines)" "al_pc s = Writing" "write_out e s = Inr s'"
  with write_out_ok [of e "to_log lines" s] show "run_inv e u" by (auto simp: run_inv_def)
qed (auto simp: run_inv_def async_stop_inv test_running_inv collect_inv)

interpretation al: invariant_system "\<lambda>t. good_disk e \<and> async_init t" "async_step e" "run_inv e" for e
  using async_init_inv async_step_inv by unfold_locales blast+

lemma al_reachable:
  assumes "good_disk e" "reachable async_init (async_step e) (s, lines)"
  shows "async_inv e (to_log lines) s"
proof -
  have "run_inv e (s, lines)"
    by (rule al.inv_reachable [of e]) (use assms(2) in \<open>simp only: assms(1) simp_thms\<close>)
  then show ?thesis by (simp add: run_inv_def)
qed

section \<open>Properties\<close>

text \<open>C19: the log keeps the order of the lines.  The disk takes every write and opens every file.  In every state that any interleaving of
  appending threads, the back-end and the destructor can reach after \<open>start()\<close>, what is in the log file, then in the buffers being
  written, then in those waiting, then in the current one, is exactly the lines of all calls of \<open>append\<close> that have returned, in
  order, without those of exactly \<open>kLargeBuffer - 1\<close> bytes (these are silently dropped); after an overload (25 buffers or more at
  once) it is still a subsequence of it.  While the logger is running, appending a line shorter than \<open>kLargeBuffer\<close> succeeds;
  after the destructor has cleared \<open>running_\<close>, or with a longer line, \<open>append\<close> ends the process.  Whenever the back-end has
  buffers to write it writes and recycles them: no null buffer is dereferenced and no vector underflows.\<close>

theorem async_log_in_order:
  assumes "good_disk e" "reachable async_init (async_step e) (s, lines)"
  shows "subseq (in_flight s) (to_log lines) \<and> (\<not> al_overload s \<longrightarrow> in_flight s = to_log lines)
    \<and> (if al_running s \<and> length str < kLargeBuffer
       then \<exists>s'. async_append str s = Inr s' \<and> in_flight s' = in_flight s @ (if length str + 1 < kLargeBuffer then str else [])
       else async_append str s = Inl Abort)
    \<and> (al_pc s = Writing \<longrightarrow> (\<exists>s'. write_out e s = Inr s' \<and> al_write s' = []))"
proof -
  have inv: "async_inv e (to_log lines) s" using assms by (rule al_reachable)
  have "\<exists>s'. write_out e s = Inr s' \<and> al_write s' = []" if "al_pc s = Writing"
    using write_out_ok [OF inv that] by (auto simp: async_inv_def spare_ok_def)
  moreover have "\<exists>s'. async_append str s = Inr s' \<and> in_flight s' = in_flight s @ (if length str + 1 < kLargeBuffer then str else [])"
    if "al_running s" "length str < kLargeBuffer" using async_append_inv [OF inv that] by blast
  moreover have "async_append str s = Inl Abort" if "\<not> (al_running s \<and> length str < kLargeBuffer)"
    using that by (auto simp: async_append_def)
  ultimately show ?thesis using inv by (auto simp: async_inv_def)
qed

lemma demo_async: "\<exists>f. reachable async_init (async_step demo_log) (started_async f, []) \<and> lf_inv f \<and> log_text f = []"
proof -
  obtain f where f: "lf_inv f" "log_text f = []"
    using new_logFile_ok [OF demo_log_ok, of 1024 "''a''" 2 3 "\<lambda>_. []"] by (auto simp: INT_MAX_def)
  then have "async_init (started_async f, [])" by (auto simp: async_init_def)
  then have "reachable async_init (async_step demo_log) (started_async f, [])" by (rule reachable_init)
  with f show ?thesis by blast
qed

text \<open>For the witness: a line is appended, the back-end tests \<open>running_\<close> and collects the buffer.\<close>

lemma demo_collected:
  "\<exists>s. reachable async_init (async_step demo_log) (s, [''line'']) \<and> al_pc s = Writing \<and> al_running s \<and> \<not> al_overload s"
proof -
  obtain f where f: "reachable async_init (async_step demo_log) (started_async f, [])" using demo_async by blast
  have "al_running (started_async f)" "length ''line'' < kLargeBuffer" by (simp_all add: started_async_def kLargeBuffer_def)
  from async_append_inv [OF al_reachable [OF demo_log_ok(1) f] this] obtain s1 where
    s1: "async_append ''line'' (started_async f) = Inr s1" "al_running s1" "al_pc s1 = Testing" "\<not> al_overload s1"
    by (auto simp: started_async_def)
  have "async_step demo_log (started_async f, []) (s1, [] @ [''line''])" using front_append [OF s1(1)] .
  with f have "reachable async_init (async_step demo_log) (s1, [''line''])" by (metis append_Nil reachable_step)
  then have "reachable async_init (async_step demo_log) (test_running s1, [''line''])"
    using back_test [OF s1(3)] by (rule reachable_step)
  moreover have "al_pc (test_running s1) = Waiting" using s1(2) by (simp add: test_running_def)
  ultimately have "reachable async_init (async_step demo_log) (collect (test_running s1), [''line''])"
    using back_collect by (blast intro: reachable_step)
  with s1 show ?thesis by (intro exI [of _ "collect (test_running s1)"]) (simp add: collect_def test_running_def Let_def)
qed

theorem async_log_in_order_witness:
  "\<exists>s s' s''. reachable async_init (async_step demo_log) (s, [''line'']) \<and> in_flight s = ''line''
    \<and> async_append ''more'' s = Inr s' \<and> in_flight s' = ''linemore'' \<and> write_out demo_log s = Inr s'' \<and> al_write s'' = []"
proof -
  obtain s where s: "reachable async_init (async_step demo_log) (s, [''line''])" "al_pc s = Writing" "al_running s" "\<not> al_overload s"
    using demo_collected by blast
  have l: "length ''more'' + 1 < kLargeBuffer" "length ''line'' + 1 < kLargeBuffer" by (simp_all add: kLargeBuffer_def)
  have t: "to_log [''line''] = ''line''" using l(2) by (simp add: to_log_def)
  from async_log_in_order [OF demo_log_ok(1) s(1), of "''more''"] s(2-4) l t
  have "in_flight s = ''line'' \<and> (\<exists>s'. async_append ''more'' s = Inr s' \<and> in_flight s' = ''linemore'')
    \<and> (\<exists>s''. write_out demo_log s = Inr s'' \<and> al_write s'' = [])" by auto
  with s(1) show ?thesis by blast
qed

text \<open>What \<open>append\<close> accepts.  In every reachable state of a running logger a line shorter than
  \<open>kLargeBuffer - 1\<close> is accepted whole; a line of exactly \<open>kLargeBuffer - 1\<close> bytes passes the size check
  and is silently dropped.\<close>

theorem async_append_accepts:
  assumes "good_disk e" "reachable async_init (async_step e) (s, lines)" "al_running s" "length str < kLargeBuffer"
  shows "\<exists>s'. async_append str s = Inr s'
    \<and> in_flight s' = in_flight s @ (if length str + 1 < kLargeBuffer then str else [])"
  using async_append_inv [OF al_reachable [OF assms(1,2)] assms(3,4)] by blast

theorem async_append_accepts_witness:
  "\<exists>f s'. async_append (replicate (kLargeBuffer - 1) (CHR ''x'')) (started_async f) = Inr s' \<and> in_flight s' = in_flight (started_async f)"
proof -
  obtain f where f: "reachable async_init (async_step demo_log) (started_async f, [])" using demo_async by blast
  have "al_running (started_async f)"
    "length (replicate (kLargeBuffer - 1) (CHR ''x'')) < kLargeBuffer" "\<not> length (replicate (kLargeBuffer - 1) (CHR ''x'')) + 1 < kLargeBuffer"
    unfolding length_replicate by (simp_all add: started_async_def kLargeBuffer_def)
  with async_append_accepts [OF demo_log_ok(1) f, of "replicate (kLargeBuffer - 1) (CHR ''x'')"] show ?thesis by auto
qed

text \<open>Stopping can lose lines.  For every line that fits there is a run in which the line is accepted,
  the destructor then clears \<open>running_\<close> while the back-end is about to test it, and the back-end exits
  with the line in no file.\<close>

theorem async_stop_loses_lines:
  assumes "good_disk e" "lf_inv f" "log_text f = []" "length str + 1 < kLargeBuffer"
  shows "\<exists>s. reachable async_init (async_step e) (s, [str]) \<and> al_pc s = Exited \<and> log_text (al_file s) = []"
proof -
  let ?s0 = "started_async f" and ?R = "reachable async_init (async_step e)"
  have i: "async_init (?s0, [])" using assms by (auto simp: async_init_def)
  then have r0: "?R (?s0, [])" by (rule reachable_init)
  have "al_running ?s0" "length str < kLargeBuffer" using assms(4) by (simp_all add: started_async_def)
  from async_append_inv [OF al_reachable [OF assms(1) r0] this] assms(4)
  obtain s1 where s1: "async_append str ?s0 = Inr s1" "al_pc s1 = Testing" by (auto simp: started_async_def)
  have same: "al_file s1 = f"
    using s1(1) by (auto simp: async_append_def try_append_def Let_def started_async_def split: if_splits option.splits)
  let ?s2 = "async_stop s1" let ?s3 = "test_running ?s2"
  have "?R (s1, [] @ [str])" using r0 front_append [OF s1(1)] by (rule reachable_step)
  then have "?R (?s2, [] @ [str])" using stop by (rule reachable_step)
  moreover have "al_pc ?s2 = Testing" using s1(2) by (simp add: async_stop_def)
  ultimately have "?R (?s3, [] @ [str])" using back_test by (blast intro: reachable_step)
  moreover have "al_pc ?s3 = Exited" "log_text (al_file ?s3) = []"
    using s1 same assms(3) by (simp_all add: async_stop_def test_running_def)
  ultimately show ?thesis by auto
qed

theorem async_stop_loses_lines_witness:
  "\<exists>s. reachable async_init (async_step demo_log) (s, [''bye'']) \<and> al_pc s = Exited \<and> log_text (al_file s) = []"
proof -
  obtain f where "lf_inv f" "log_text f = []" using demo_async by blast
  with async_stop_loses_lines [OF demo_log_ok(1), of f "''bye''"] show ?thesis by (simp add: kLargeBuffer_def)
qed

end
