(* ===== verification/Double.thy ===== *)
theory Double
  imports Adl_Prelude "HOL-Library.Log_Nat"
begin

text \<open>
  What the code uses of \<open>double\<close>: the nearest number with a significand of 53 bits, ties to the even one (IEEE 754 binary64,
  the default rounding).  Values are rationals and exponents do not run out: a product too small or too large for a normal
  \<open>double\<close> is cast to an integer next, which gives 0 or is undefined whatever the rounding.
\<close>

definition half_even :: "rat \<Rightarrow> int" where
  "half_even y = (let f = \<lfloor>y\<rfloor>; r = y - of_int f in
     if r < 1 / 2 then f else if 1 / 2 < r then f + 1 else if even f then f else f + 1)"

text \<open>The exponent of the leading bit of a positive fraction.\<close>

definition lead_exp :: "rat \<Rightarrow> int" where
  "lead_exp q = (let (a, b) = quotient_of q; e = bitlen a - bitlen b in if 2 powi e \<le> q then e else e - 1)"

definition to_double :: "rat \<Rightarrow> rat" where
  "to_double x = (if x = 0 then 0 else let ulp = 2 powi (lead_exp \<bar>x\<bar> - 52) in of_int (half_even (x / ulp)) * ulp)"

text \<open>The cast of a \<open>double\<close> to an integer drops the fraction.\<close>

definition truncate_rat :: "rat \<Rightarrow> int" where
  "truncate_rat x = (if 0 \<le> x then \<lfloor>x\<rfloor> else \<lceil>x\<rceil>)"

lemma half_even_near: "\<bar>of_int (half_even y) - y\<bar> \<le> 1 / 2"
proof -
  have "of_int \<lfloor>y\<rfloor> \<le> y" "y < of_int \<lfloor>y\<rfloor> + 1" by linarith+
  then show ?thesis unfolding half_even_def Let_def by (auto simp: abs_le_iff field_simps)
qed

lemma lead_exp_le:
  assumes "0 < q"
  shows "2 powi (lead_exp q) \<le> q"
proof -
  obtain a b where ab: "quotient_of q = (a, b)" by (cases "quotient_of q")
  then have q: "q = of_int a / of_int b" "0 < b" by (auto dest: quotient_of_div quotient_of_denom_pos)
  then have a: "0 < a" using assms by (simp add: zero_less_divide_iff)
  have la: "0 < bitlen a" "0 < bitlen b" using a q(2) bitlen_nonneg [of a] bitlen_nonneg [of b] bitlen_eq_zero_iff [of a] bitlen_eq_zero_iff [of b] by linarith+
  have pow: "2 powi i = (of_int (2 ^ nat i) :: rat)" if "0 \<le> i" for i using that by (simp add: power_int_def)
  have "2 powi (bitlen a - 1) \<le> (of_int a :: rat)" using bitlen_bounds [OF a] la by (simp only: pow of_int_le_iff)
  moreover have "(of_int b :: rat) \<le> 2 powi bitlen b" using bitlen_bounds [OF q(2)] la by (simp add: pow less_imp_le del: of_int_power)
  ultimately have "2 powi (bitlen a - 1) / 2 powi (bitlen b) \<le> q"
    unfolding q(1) using q(2) a by (intro frac_le) auto
  moreover have "2 powi (bitlen a - 1) / 2 powi (bitlen b) = (2 powi (bitlen a - bitlen b - 1) :: rat)"
    by (simp flip: power_int_diff add: algebra_simps)
  ultimately have "2 powi (bitlen a - bitlen b - 1) \<le> q" by simp
  then show ?thesis by (simp add: lead_exp_def ab Let_def)
qed

lemma to_double_near: "\<bar>to_double x - x\<bar> \<le> \<bar>x\<bar> / 2 ^ 53"
proof (cases "x = 0")
  case False
  let ?e = "lead_exp \<bar>x\<bar>" let ?u = "2 powi (?e - 52) :: rat"
  have u: "0 < ?u" by simp
  have "\<bar>to_double x - x\<bar> = \<bar>of_int (half_even (x / ?u)) - x / ?u\<bar> * ?u"
    using False by (simp add: to_double_def Let_def abs_mult_pos left_diff_distrib)
  also have "\<dots> \<le> 1 / 2 * ?u" using half_even_near [of "x / ?u"] u by (intro mult_right_mono) auto
  also have "\<dots> = 2 powi ?e / 2 ^ 53" by (simp add: power_int_diff)
  also have "\<dots> \<le> \<bar>x\<bar> / 2 ^ 53" using lead_exp_le [of "\<bar>x\<bar>"] False by (intro divide_right_mono) auto
  finally show ?thesis .
qed (simp add: to_double_def)


text \<open>A scaling down and back up again.\<close>

lemma abs_scale_near:
  fixes x y e :: rat
  assumes "\<bar>y - x\<bar> \<le> \<bar>x\<bar> * e"
  shows "\<bar>y\<bar> \<le> \<bar>x\<bar> * (1 + e)"
  using assms by (auto simp: abs_if algebra_simps split: if_splits)

lemma scale_error:
  fixes n :: int
  assumes "\<bar>n\<bar> \<le> 2 ^ 51" "0 < c"
  shows "\<bar>to_double (to_double (to_double (of_int n) / c) * c) - of_int n\<bar> < 1"
proof -
  define x a b d where "x = (of_int n :: rat)" and "a = to_double x" and "b = to_double (a / c)" and "d = to_double (b * c)"
  let ?e = "1 / 2 ^ 53 :: rat"
  have ax: "\<bar>a - x\<bar> \<le> \<bar>x\<bar> * ?e" using to_double_near [of x] by (simp add: a_def)
  have "\<bar>b - a / c\<bar> \<le> \<bar>a / c\<bar> * ?e" using to_double_near [of "a / c"] by (simp add: b_def)
  then have "\<bar>b - a / c\<bar> * c \<le> \<bar>a / c\<bar> * ?e * c" using assms(2) by (intro mult_right_mono) auto
  moreover have "b * c - a = (b - a / c) * c" "\<bar>a / c\<bar> * ?e * c = \<bar>a\<bar> * ?e"
    using assms(2) by (simp_all add: left_diff_distrib abs_divide)
  ultimately have ba: "\<bar>b * c - a\<bar> \<le> \<bar>a\<bar> * ?e" using assms(2) by (simp add: abs_mult)
  have db: "\<bar>d - b * c\<bar> \<le> \<bar>b * c\<bar> * ?e" using to_double_near [of "b * c"] by (simp add: d_def)
  have "(of_int \<bar>n\<bar> :: rat) \<le> of_int (2 ^ 51)" using assms(1) by (simp only: of_int_le_iff)
  then have x: "\<bar>x\<bar> \<le> 2 ^ 51" by (simp add: x_def)
  have a: "\<bar>a\<bar> \<le> \<bar>x\<bar> * (1 + ?e)" by (rule abs_scale_near [OF ax])
  have "\<bar>a\<bar> \<le> 2 ^ 51 + 1" using a x by simp
  moreover have "\<bar>b * c\<bar> \<le> \<bar>a\<bar> * (1 + ?e)" by (rule abs_scale_near [OF ba])
  ultimately have "\<bar>b * c\<bar> \<le> 2 ^ 51 + 2" by simp
  then have "\<bar>a - x\<bar> < 1 / 3" "\<bar>b * c - a\<bar> < 1 / 3" "\<bar>d - b * c\<bar> < 1 / 3"
    using ax ba db x \<open>\<bar>a\<bar> \<le> 2 ^ 51 + 1\<close> by (simp_all add: field_simps)
  then have "\<bar>d - x\<bar> < 1" by linarith
  then show ?thesis by (simp add: d_def b_def a_def x_def)
qed

text \<open>Dropping the fraction of a number that is nearly whole.\<close>

lemma truncate_near:
  assumes "\<bar>y - of_int n\<bar> < 1"
  shows "if 0 \<le> n then 0 \<le> truncate_rat y \<and> n - 1 \<le> truncate_rat y \<and> truncate_rat y \<le> n
    else truncate_rat y \<le> 0 \<and> n \<le> truncate_rat y \<and> truncate_rat y \<le> n + 1"
proof -
  have b: "of_int n - 1 < y" "y < of_int n + 1" using assms by linarith+
  show ?thesis unfolding truncate_rat_def using b by (auto; linarith)
qed

end
