(* ===== verification/Time_Stamp.thy ===== *)
theory Time_Stamp
  imports C_String Double "HOL-Library.Signed_Division"
begin

text \<open>
  \<open>src/src/base/timeStamp.{h,cpp}\<close>: microseconds since 1970 in an \<open>int64_t\<close>.  C++ division rounds
  towards zero.  The calendar functions of the C library are represented by the broken-down time
  they return, a \<open>tm\<close>.  \<open>addTime\<close> and \<open>timeDifference\<close> compute with \<open>double\<close> as \<open>Double\<close> has it.
\<close>

datatype timeStamp = TimeStamp (ms: int)

definition s2ms :: int where
  "s2ms = 1000 * 1000"

text \<open>\<open>operator<\<close> and \<open>operator==\<close>; \<open>boost::less_than_comparable\<close> makes the other comparisons of the first.\<close>

definition ts_before :: "timeStamp \<Rightarrow> timeStamp \<Rightarrow> bool" where
  "ts_before a b \<longleftrightarrow> ms a < ms b"

definition ts_same :: "timeStamp \<Rightarrow> timeStamp \<Rightarrow> bool" where
  "ts_same a b \<longleftrightarrow> ms a = ms b"

instantiation timeStamp :: linorder
begin

definition less_timeStamp :: "timeStamp \<Rightarrow> timeStamp \<Rightarrow> bool" where
  "less_timeStamp a b \<longleftrightarrow> ts_before a b"

definition less_eq_timeStamp :: "timeStamp \<Rightarrow> timeStamp \<Rightarrow> bool" where
  "less_eq_timeStamp a b \<longleftrightarrow> \<not> ts_before b a"

instance
  by standard (auto simp: less_timeStamp_def less_eq_timeStamp_def ts_before_def timeStamp.expand)

end

definition fits_int64 :: "int \<Rightarrow> bool" where
  "fits_int64 x \<longleftrightarrow> - (2 ^ 63) \<le> x \<and> x < 2 ^ 63"

definition ts_invalid :: timeStamp where
  "ts_invalid = TimeStamp 0"

definition ts_valid :: "timeStamp \<Rightarrow> bool" where
  "ts_valid t \<longleftrightarrow> ms t > 0"

definition ts_seconds :: "timeStamp \<Rightarrow> int" where
  "ts_seconds t = ms t sdiv s2ms"

definition ts_micros :: "timeStamp \<Rightarrow> int" where
  "ts_micros t = ms t smod s2ms"

definition fromUnixTime :: "int \<Rightarrow> int \<Rightarrow> timeStamp result" where
  "fromUnixTime s us =
     (if fits_int64 (s * s2ms) \<and> fits_int64 (s * s2ms + us) then Inr (TimeStamp (s * s2ms + us)) else Inl Int_overflow)"

text \<open>\<open>now\<close>, from what \<open>gettimeofday\<close> stores.\<close>

definition ts_now :: "int \<times> int \<Rightarrow> timeStamp result" where
  "ts_now tv = fromUnixTime (fst tv) (snd tv)"

text \<open>\<open>%0nd\<close> of a non-negative number.\<close>

definition pad0 :: "nat \<Rightarrow> int \<Rightarrow> string" where
  "pad0 n x = replicate (n - length (to_string x)) (CHR ''0'') @ to_string x"

definition pad_space :: "nat \<Rightarrow> int \<Rightarrow> string" where
  "pad_space n x = replicate (n - length (to_string x)) SP @ to_string x"

text \<open>\<open>toString\<close>; \<open>snprintf\<close> keeps at most 31 characters.\<close>

definition ts_toString :: "timeStamp \<Rightarrow> string" where
  "ts_toString t = take 31 (to_string (ts_seconds t) @ ''.'' @ pad0 6 (ts_micros t))"

record tm =
  tm_year :: int
  tm_mon :: int
  tm_mday :: int
  tm_hour :: int
  tm_min :: int
  tm_sec :: int

definition toFormattedString :: "(int \<Rightarrow> tm) \<Rightarrow> bool \<Rightarrow> timeStamp \<Rightarrow> string" where
  "toFormattedString gmtime showMicroseconds t =
     (let m = gmtime (ts_seconds t);
          text = pad_space 4 (tm_year m + 1900) @ pad0 2 (tm_mon m + 1) @ pad0 2 (tm_mday m) @ [SP]
            @ pad0 2 (tm_hour m) @ '':'' @ pad0 2 (tm_min m) @ '':'' @ pad0 2 (tm_sec m)
      in take 63 (if showMicroseconds then text @ ''.'' @ pad0 6 (ts_micros t) else text))"

definition getYearToSecondFormatTime :: "(int \<Rightarrow> tm) \<Rightarrow> int option \<Rightarrow> string" where
  "getYearToSecondFormatTime localtime t =
     (case t of
        None \<Rightarrow> []
      | Some x \<Rightarrow> let m = localtime x in
          pad0 4 (1900 + tm_year m) @ ''-'' @ pad0 2 (1 + tm_mon m) @ ''-'' @ pad0 2 (tm_mday m) @ ''-''
            @ pad0 2 (tm_hour m) @ ''-'' @ pad0 2 (tm_min m) @ ''-'' @ pad0 2 (tm_sec m))"

text \<open>\<open>timeDifference\<close>, in seconds, and \<open>addTime\<close> for a finite number of seconds; a conversion to \<open>int64_t\<close> that does not fit
  is undefined, as is a sum.\<close>

definition timeDifference :: "timeStamp \<Rightarrow> timeStamp \<Rightarrow> rat result" where
  "timeDifference high low =
     (let diff = ms high - ms low in
      if \<not> fits_int64 diff then Inl Int_overflow else Inr (to_double (to_double (of_int diff) / of_int s2ms)))"

definition addTime :: "timeStamp \<Rightarrow> rat \<Rightarrow> timeStamp result" where
  "addTime t seconds =
     (let delta = truncate_rat (to_double (seconds * of_int s2ms)) in
      if \<not> fits_int64 delta \<or> \<not> fits_int64 (ms t + delta) then Inl Int_overflow else Inr (TimeStamp (ms t + delta)))"

section \<open>Properties\<close>

lemma sdiv_smod_parts:
  fixes s us :: int assumes "0 \<le> s" "0 \<le> us" "us < s2ms"
  shows "(s * s2ms + us) sdiv s2ms = s" "(s * s2ms + us) smod s2ms = us"
proof -
  have p: "0 < s2ms" "0 \<le> s * s2ms + us" using assms by (simp_all add: s2ms_def)
  have "(s * s2ms + us) div s2ms = s" "(s * s2ms + us) mod s2ms = us" using assms p by simp_all
  then show "(s * s2ms + us) sdiv s2ms = s" "(s * s2ms + us) smod s2ms = us"
    using p assms by (auto simp: signed_divide_int_def signed_modulo_int_def sgn_if s2ms_def)
qed

text \<open>Time stamps.  A stamp built from seconds and microseconds within the range of \<open>int64_t\<close> gives both
  parts back, and comparing two stamps is comparing seconds first and microseconds second.\<close>

theorem timeStamp_roundtrip:
  assumes "0 \<le> s" "0 \<le> us" "us < s2ms" "fits_int64 (s * s2ms + us)"
    "0 \<le> s'" "0 \<le> us'" "us' < s2ms" "fits_int64 (s' * s2ms + us')"
  shows "\<exists>t t'. fromUnixTime s us = Inr t \<and> fromUnixTime s' us' = Inr t' \<and> ts_seconds t = s \<and> ts_micros t = us
    \<and> (t < t' \<longleftrightarrow> s < s' \<or> s = s' \<and> us < us') \<and> (t = t' \<longleftrightarrow> s = s' \<and> us = us')"
proof -
  have ok: "fits_int64 (s * s2ms)" "fits_int64 (s' * s2ms)" using assms by (auto simp: fits_int64_def s2ms_def)
  have lt: "s * s2ms + us < s' * s2ms + us' \<longleftrightarrow> s < s' \<or> s = s' \<and> us < us'" using assms by (auto simp: s2ms_def)
  have eq: "s * s2ms + us = s' * s2ms + us' \<longleftrightarrow> s = s' \<and> us = us'"
    using sdiv_smod_parts [OF assms(1-3)] sdiv_smod_parts [OF assms(5-7)] by metis
  show ?thesis using assms ok lt eq sdiv_smod_parts [of s us]
    by (simp add: fromUnixTime_def less_timeStamp_def ts_before_def ts_seconds_def ts_micros_def)
qed

theorem timeStamp_roundtrip_witness:
  "\<exists>t t'. fromUnixTime 3 999999 = Inr t \<and> fromUnixTime 4 0 = Inr t' \<and> ts_seconds t = 3 \<and> t < t'"
  using timeStamp_roundtrip [of 3 999999 4 0] by (auto simp: s2ms_def fits_int64_def)

text \<open>C37: adding a difference.  For stamps less than \<open>2^51\<close> microseconds apart (71 years), adding \<open>timeDifference(high, low)\<close> to
  \<open>low\<close> never overflows and gives \<open>high\<close> or the microsecond next to it on the side of \<open>low\<close>: the two roundings and the division
  lose less than one microsecond, but the cast drops the fraction instead of rounding it.\<close>

theorem addTime_timeDifference:
  assumes "fits_int64 (ms high)" "fits_int64 (ms low)" "\<bar>ms high - ms low\<bar> \<le> 2 ^ 51"
  shows "\<exists>d t. timeDifference high low = Inr d \<and> addTime low d = Inr t \<and> \<bar>ms t - ms high\<bar> \<le> 1
    \<and> (if low \<le> high then low \<le> t \<and> t \<le> high else high \<le> t \<and> t \<le> low)"
proof -
  define n where "n = ms high - ms low"
  define y where "y = to_double (to_double (to_double (of_int n) / of_int s2ms) * of_int s2ms)"
  have near: "\<bar>y - of_int n\<bar> < 1" unfolding y_def using assms(3) by (intro scale_error) (simp_all add: n_def s2ms_def)
  have t: "if 0 \<le> n then 0 \<le> truncate_rat y \<and> n - 1 \<le> truncate_rat y \<and> truncate_rat y \<le> n
      else truncate_rat y \<le> 0 \<and> n \<le> truncate_rat y \<and> truncate_rat y \<le> n + 1"
    by (rule truncate_near [OF near])
  have n: "ms high = ms low + n" by (simp add: n_def)
  have fits: "fits_int64 n" "fits_int64 (truncate_rat y)" "fits_int64 (ms low + truncate_rat y)"
    using assms t by (auto simp: fits_int64_def n split: if_splits)
  then have "timeDifference high low = Inr (to_double (to_double (of_int n) / of_int s2ms))"
    "addTime low (to_double (to_double (of_int n) / of_int s2ms)) = Inr (TimeStamp (ms low + truncate_rat y))"
    by (simp_all add: timeDifference_def addTime_def n y_def Let_def)
  with t show ?thesis
    by (auto simp: n less_eq_timeStamp_def less_timeStamp_def ts_before_def timeStamp.expand split: if_splits)
qed

theorem addTime_timeDifference_witness:
  "\<exists>d t. timeDifference (TimeStamp 2001) (TimeStamp 1000) = Inr d \<and> addTime (TimeStamp 1000) d = Inr t \<and> \<bar>ms t - 2001\<bar> \<le> 1"
  using addTime_timeDifference [of "TimeStamp 2001" "TimeStamp 1000"] by (fastforce simp: fits_int64_def)

text \<open>1001 microseconds are added as 1000.\<close>

theorem addTime_loses_a_microsecond:
  "bind_res (timeDifference (TimeStamp 2001) (TimeStamp 1000)) (addTime (TimeStamp 1000)) = Inr (TimeStamp 2000)"
  by code_simp

end
