(* ===== verification/Logging.thy ===== *)
theory Logging
  imports Log_Stream Time_Stamp
begin

text \<open>
  \<open>src/src/log/Logging.{h,cpp}\<close>: a \<open>LOG(level)\<close> statement.  A \<open>Logger\<close> object formats the prefix of the
  line in its constructor, the statement inserts into its stream, the destructor hands the line to
  the output function and, for FATAL, flushes and aborts.  The thread-local variables are a record;
  clock, thread id and \<open>strerror_r\<close> are parameters.  \<open>'o\<close> is the state behind the global output and
  flush functions.
\<close>

section \<open>Levels\<close>

datatype logLevel = TRACE | DEBUG | INFO | WARN | ERROR | FATAL

fun level_num :: "logLevel \<Rightarrow> nat" where
  "level_num TRACE = 0"
| "level_num DEBUG = 1"
| "level_num INFO = 2"
| "level_num WARN = 3"
| "level_num ERROR = 4"
| "level_num FATAL = 5"

lemma level_num_inj: "level_num a = level_num b \<Longrightarrow> a = b"
  by (cases a; cases b) simp_all

instantiation logLevel :: linorder
begin

definition less_logLevel :: "logLevel \<Rightarrow> logLevel \<Rightarrow> bool" where
  "less_logLevel a b \<longleftrightarrow> level_num a < level_num b"

definition less_eq_logLevel :: "logLevel \<Rightarrow> logLevel \<Rightarrow> bool" where
  "less_eq_logLevel a b \<longleftrightarrow> level_num a \<le> level_num b"

instance
  by standard (auto simp: less_logLevel_def less_eq_logLevel_def level_num_inj)

end

fun LogLevelStr :: "logLevel \<Rightarrow> string" where
  "LogLevelStr TRACE = ''TRACE''"
| "LogLevelStr DEBUG = ''DEBUG''"
| "LogLevelStr INFO = ''INFO''"
| "LogLevelStr WARN = ''WARN''"
| "LogLevelStr ERROR = ''ERROR''"
| "LogLevelStr FATAL = ''FATAL''"

section \<open>The Logger object\<close>

record log_tls =
  t_time :: string
  t_lastSecond :: int
  t_tid :: int

record logger_env =
  lg_format :: "timeStamp \<Rightarrow> string"
  lg_gettid :: int
  lg_strerror :: "int \<Rightarrow> string"

record 'o log_out =
  lo_out :: "char list \<Rightarrow> 'o \<Rightarrow> 'o"
  lo_flush :: "'o \<Rightarrow> 'o"

definition formatTime :: "logger_env \<Rightarrow> timeStamp \<Rightarrow> log_tls \<Rightarrow> log_item list \<times> log_tls" where
  "formatTime e ts tls =
     (let s = ts_seconds ts;
          tls1 = (if s \<noteq> t_lastSecond tls then tls\<lparr>t_lastSecond := s, t_time := lg_format e ts\<rparr> else tls)
      in ([L_string (t_time tls1), L_cstring (Some '' '')], tls1))"

text \<open>What the constructor inserts.\<close>

definition logger_prefix :: "logger_env \<Rightarrow> timeStamp \<Rightarrow> int \<Rightarrow> logLevel \<Rightarrow> log_tls \<Rightarrow> log_item list \<times> log_tls" where
  "logger_prefix e ts savedErrno level tls =
     (let (time_items, tls1) = formatTime e ts tls;
          tls2 = (if t_tid tls1 \<noteq> 0 then tls1 else tls1\<lparr>t_tid := lg_gettid e\<rparr>)
      in (time_items @ [L_integer (t_tid tls2), L_cstring (Some '' '')]
            @ [L_cstring (Some (LogLevelStr level)), L_cstring (Some '' '')]
            @ (if savedErrno \<noteq> 0
               then [L_cstring (Some (lg_strerror e savedErrno)), L_cstring (Some '' (errno=''), L_integer savedErrno, L_cstring (Some '') '')]
               else []),
          tls2))"

definition new_Logger :: "logger_env \<Rightarrow> timeStamp \<Rightarrow> int \<Rightarrow> logLevel \<Rightarrow> log_tls \<Rightarrow> (adlBuffer \<times> log_tls) result" where
  "new_Logger e ts savedErrno level tls =
     (let (items, tls1) = logger_prefix e ts savedErrno level tls
      in bind_res (insert_all ls_insert items (new_adlBuffer kSmallBuffer)) (\<lambda>b. Inr (b, tls1)))"

text \<open>The destructor: the output state afterwards and whether the process aborts.\<close>

definition destroy_Logger :: "'o log_out \<Rightarrow> logLevel \<Rightarrow> adlBuffer \<Rightarrow> 'o \<Rightarrow> ('o \<times> bool) result" where
  "destroy_Logger lo level b st =
     bind_res (ab_toString b) (\<lambda>line.
       let st1 = lo_out lo line st in
       if level = FATAL then Inr (lo_flush lo st1, True) else Inr (st1, False))"

text \<open>\<open>LOG(level) << items\<close>; \<open>errno\<close> goes into the line for ERROR and FATAL only.\<close>

definition LOG :: "logger_env \<Rightarrow> 'o log_out \<Rightarrow> logLevel \<Rightarrow> logLevel \<Rightarrow> timeStamp \<Rightarrow> int \<Rightarrow> log_item list \<Rightarrow>
    log_tls \<Rightarrow> 'o \<Rightarrow> ('o \<times> bool \<times> log_tls) result" where
  "LOG e lo globalLogLevel level ts err items tls st =
     (if level \<ge> globalLogLevel
      then bind_res (new_Logger e ts (if level = ERROR \<or> level = FATAL then err else 0) level tls) (\<lambda>(b, tls1).
           bind_res (insert_all ls_insert items b) (\<lambda>b1.
           bind_res (destroy_Logger lo level b1 st) (\<lambda>(st1, aborts). Inr (st1, aborts, tls1))))
      else Inr (st, False, tls))"

section \<open>Properties\<close>

lemma insert_all_append: "insert_all ins (xs @ ys) b = bind_res (insert_all ins xs b) (insert_all ins ys)"
proof (induction xs arbitrary: b)
  case (Cons x xs)
  then show ?case by (cases "ins x b") simp_all
qed simp

lemma prefix_ok: "\<forall>x\<in>set (fst (logger_prefix e ts err level tls)). item_ok x"
  by (auto simp: logger_prefix_def formatTime_def Let_def split: prod.splits)

lemma LOG_line:
  assumes "\<forall>x\<in>set items. item_ok x"
  shows "LOG e lo g level ts err items tls st =
    (if level < g then Inr (st, False, tls)
     else let (pre, tls1) = logger_prefix e ts (if level = ERROR \<or> level = FATAL then err else 0) level tls;
              st1 = lo_out lo (sink_spec 3999 (pre @ items) []) st
          in Inr (if level = FATAL then (lo_flush lo st1, True, tls1) else (st1, False, tls1)))"
proof -
  obtain pre tls1 where p: "logger_prefix e ts (if level = ERROR \<or> level = FATAL then err else 0) level tls = (pre, tls1)" by fastforce
  then have pre: "\<forall>x\<in>set pre. item_ok x" using prefix_ok [of e ts "if level = ERROR \<or> level = FATAL then err else 0" level tls] by simp
  have new: "ab_inv kSmallBuffer (new_adlBuffer kSmallBuffer)" "ab_text (new_adlBuffer kSmallBuffer) = []"
    using ab_inv_new [of kSmallBuffer] by (simp_all add: kSmallBuffer_def)
  have "\<forall>x\<in>set (pre @ items). item_ok x" using assms pre by auto
  from ls.run_ok [OF new(1) this] obtain b where b: "insert_all ls_insert (pre @ items) (new_adlBuffer kSmallBuffer) = Inr b"
    "ab_inv kSmallBuffer b" "ab_text b = sink_spec 3999 (pre @ items) []" unfolding new(2) by (auto simp: kSmallBuffer_def)
  from b(1) obtain b0 where b0: "insert_all ls_insert pre (new_adlBuffer kSmallBuffer) = Inr b0" "insert_all ls_insert items b0 = Inr b"
    by (auto simp: insert_all_append)
  show ?thesis using p b0 b ab_toString_ok [OF b(2)]
    by (auto simp: LOG_def new_Logger_def destroy_Logger_def Let_def not_less)
qed

text \<open>C27: one line per enabled statement.  Whatever is logged, the statement completes; a level below the
  global one outputs nothing and touches nothing; otherwise exactly one call of the output function
  gets the prefix (time, thread id, level and, for ERROR and FATAL with \<open>errno\<close> set, its text) followed
  by the items, each whole or, once 3999 characters are reached, dropped; and exactly FATAL flushes
  and aborts.\<close>

theorem log_statement_line:
  assumes "\<forall>x\<in>set items. item_ok x"
  shows "\<exists>st' aborts tls'. LOG e lo g level ts err items tls st = Inr (st', aborts, tls')
    \<and> (level < g \<longrightarrow> st' = st \<and> \<not> aborts)
    \<and> (\<not> level < g \<longrightarrow> (aborts \<longleftrightarrow> level = FATAL)
        \<and> (let line = sink_spec 3999 (fst (logger_prefix e ts (if level = ERROR \<or> level = FATAL then err else 0) level tls) @ items) []
           in length line \<le> 3999 \<and> st' = (if level = FATAL then lo_flush lo (lo_out lo line st) else lo_out lo line st)))"
proof -
  let ?pre = "fst (logger_prefix e ts (if level = ERROR \<or> level = FATAL then err else 0) level tls)"
  have "\<forall>x\<in>set (?pre @ items). item_ok x" using prefix_ok assms by auto
  then have "length (sink_spec 3999 (?pre @ items) []) \<le> 3999" by (rule sink_spec_length) simp
  then show ?thesis
    using LOG_line [OF assms, of e lo g level ts err tls st]
    by (cases "logger_prefix e ts (if level = ERROR \<or> level = FATAL then err else 0) level tls") (auto simp: Let_def)
qed

definition demo_logger :: logger_env where
  "demo_logger = \<lparr>lg_format = (\<lambda>t. to_string (ms t)), lg_gettid = 7, lg_strerror = (\<lambda>_. ''err'')\<rparr>"

definition demo_lines :: "string list log_out" where
  "demo_lines = \<lparr>lo_out = (\<lambda>l ls. ls @ [l]), lo_flush = (\<lambda>ls. ls)\<rparr>"

definition demo_tls :: log_tls where
  "demo_tls = \<lparr>t_time = [], t_lastSecond = 0, t_tid = 0\<rparr>"

theorem log_statement_line_witness:
  "\<exists>st' tls'. LOG demo_logger demo_lines INFO FATAL (TimeStamp 5000000) 2 [L_cstring (Some ''x'')] demo_tls [] = Inr (st', True, tls')
    \<and> length st' = 1"
proof -
  let ?items = "[L_cstring (Some ''x'')]"
  have ok: "\<forall>x\<in>set ?items. item_ok x" by simp
  have lvl: "\<not> FATAL < INFO" by (simp add: less_logLevel_def)
  from log_statement_line [OF ok, of demo_logger demo_lines INFO FATAL "TimeStamp 5000000" 2 demo_tls "[]"] lvl
  show ?thesis by (auto simp: demo_lines_def Let_def simp del: sink_spec.simps)
qed

lemma prefix_time:
  "hd (fst (logger_prefix e ts err l tls)) = L_string (t_time (snd (logger_prefix e ts err l tls)))"
  "t_lastSecond (snd (logger_prefix e ts err l tls)) = ts_seconds ts"
  "t_time (snd (logger_prefix e ts err l tls)) = (if ts_seconds ts = t_lastSecond tls then t_time tls else lg_format e ts)"
  by (simp_all add: logger_prefix_def formatTime_def Let_def)

text \<open>The time in a line can be stale.  The formatted time is cached per thread and second, with its
  microseconds: every further line of the same thread in the same second repeats the microseconds of
  the first one.\<close>

theorem log_time_stale:
  assumes "logger_prefix e ts err level tls = (pre, tls1)" "ts_seconds ts' = ts_seconds ts"
  shows "hd (fst (logger_prefix e ts' err' level' tls1)) = hd pre
    \<and> (ts_seconds ts \<noteq> t_lastSecond tls \<longrightarrow> hd pre = L_string (lg_format e ts))"
  using assms prefix_time [of e ts err level tls] prefix_time(1,3) [of e ts' err' level' tls1] by simp

theorem log_time_stale_witness:
  "hd (fst (logger_prefix demo_logger (TimeStamp 5999999) 0 INFO (snd (logger_prefix demo_logger (TimeStamp 5000001) 0 INFO demo_tls))))
    = L_string (to_string 5000001)"
proof -
  have "ts_seconds (TimeStamp 5999999) = ts_seconds (TimeStamp 5000001)" "ts_seconds (TimeStamp 5000001) \<noteq> t_lastSecond demo_tls"
    using sdiv_smod_parts(1) [of 5 999999] sdiv_smod_parts(1) [of 5 1] by (simp_all add: ts_seconds_def s2ms_def demo_tls_def)
  with log_time_stale [of demo_logger "TimeStamp 5000001" 0 INFO demo_tls "fst (logger_prefix demo_logger (TimeStamp 5000001) 0 INFO demo_tls)"
      "snd (logger_prefix demo_logger (TimeStamp 5000001) 0 INFO demo_tls)" "TimeStamp 5999999" 0 INFO]
  show ?thesis by (simp add: demo_logger_def)
qed

end
