(* ===== verification/Inet_Address.thy ===== *)
theory Inet_Address
  imports C_String "HOL-Library.Word"
begin

unbundle bit_operations_syntax

text \<open>
  \<open>src/src/net/InetAddress.{h,cpp}\<close> and the address functions of \<open>Socket.cpp\<close>.  A \<open>sockaddr_in\<close> keeps the
  port and the address in network byte order; the machine is little endian, so \<open>htons\<close> and \<open>ntohs\<close>
  swap the two bytes.  \<open>inet_ntop\<close> prints the four bytes in memory order; \<open>inet_pton\<close> is a parameter.  The
  printing functions work on C strings in arrays of a given size.
\<close>

section \<open>Byte order\<close>

definition htons :: "16 word \<Rightarrow> 16 word" where
  "htons x = push_bit 8 x OR drop_bit 8 x"

definition ntohs :: "16 word \<Rightarrow> 16 word" where
  "ntohs x = htons x"

lemma ntohs_htons [simp]: "ntohs (htons x) = x"
  unfolding ntohs_def htons_def
  by (rule bit_word_eqI) (auto simp: bit_simps)

section \<open>Addresses\<close>

datatype family = AF_INET | AF_UNSPEC

record sockaddr_in =
  sin_family :: family
  sin_port :: "16 word"
  sin_addr :: "nat list"

definition INADDR_ANY :: "nat list" where
  "INADDR_ANY = [0, 0, 0, 0]"

definition zero_addr :: sockaddr_in where
  "zero_addr = \<lparr>sin_family = AF_UNSPEC, sin_port = 0, sin_addr = [0, 0, 0, 0]\<rparr>"

definition new_InetAddress :: sockaddr_in where
  "new_InetAddress = zero_addr\<lparr>sin_family := AF_INET, sin_addr := INADDR_ANY, sin_port := htons 0\<rparr>"

text \<open>\<open>inet_pton\<close> either stores four bytes or leaves the address alone.\<close>

definition fromIpPort :: "(string \<Rightarrow> nat list option) \<Rightarrow> string \<Rightarrow> 16 word \<Rightarrow> sockaddr_in \<Rightarrow> sockaddr_in" where
  "fromIpPort pton ip port a =
     (let a1 = a\<lparr>sin_family := AF_INET, sin_port := htons port\<rparr>
      in case pton ip of Some bs \<Rightarrow> a1\<lparr>sin_addr := bs\<rparr> | None \<Rightarrow> a1)"

definition InetAddress_ip :: "(string \<Rightarrow> nat list option) \<Rightarrow> string \<Rightarrow> 16 word \<Rightarrow> sockaddr_in" where
  "InetAddress_ip pton ip port = fromIpPort pton ip port zero_addr"

definition toPort :: "sockaddr_in \<Rightarrow> 16 word" where
  "toPort a = ntohs (sin_port a)"

section \<open>Printing\<close>

definition INET_ADDRSTRLEN :: nat where
  "INET_ADDRSTRLEN = 16"

text \<open>Dotted decimal.\<close>

fun dotted :: "nat list \<Rightarrow> string" where
  "dotted [] = []"
| "dotted [b] = to_string (int b)"
| "dotted (b # bs) = to_string (int b) @ ''.'' @ dotted bs"

text \<open>\<open>snprintf(buf + end, sz - end, ...)\<close>: what fits with its terminator.\<close>

definition snprintf_at :: "string \<Rightarrow> nat \<Rightarrow> string \<Rightarrow> string" where
  "snprintf_at buf sz t = buf @ take (sz - length buf - 1) t"

definition sock_toIp :: "string \<Rightarrow> nat \<Rightarrow> sockaddr_in \<Rightarrow> string result" where
  "sock_toIp buf sz a =
     (if sin_family a = AF_INET
      then bind_res (cassert (sz \<ge> INET_ADDRSTRLEN)) (\<lambda>_. Inr (dotted (sin_addr a)))
      else Inr buf)"

definition sock_toIpPort :: "string \<Rightarrow> nat \<Rightarrow> sockaddr_in \<Rightarrow> string result" where
  "sock_toIpPort buf sz a =
     bind_res (sock_toIp buf sz a) (\<lambda>b.
       bind_res (cassert (sz > length b)) (\<lambda>_. Inr (snprintf_at b sz ('':'' @ to_string (uint (toPort a))))))"

definition sock_toPortString :: "string \<Rightarrow> nat \<Rightarrow> sockaddr_in \<Rightarrow> string result" where
  "sock_toPortString buf sz a =
     bind_res (cassert (sz > length buf)) (\<lambda>_. Inr (snprintf_at buf sz (to_string (uint (toPort a)))))"

definition toIp :: "sockaddr_in \<Rightarrow> string result" where
  "toIp a = sock_toIp [] 64 a"

definition toIpPort :: "sockaddr_in \<Rightarrow> string result" where
  "toIpPort a = sock_toIpPort [] 64 a"

definition toPortString :: "sockaddr_in \<Rightarrow> string result" where
  "toPortString a = sock_toPortString [] 6 a"

section \<open>Properties\<close>

lemma length_nat_digits: "n < 10 ^ k \<Longrightarrow> 0 < k \<Longrightarrow> length (nat_digits n) \<le> k"
proof (induction n arbitrary: k rule: nat_digits.induct)
  case (1 n)
  show ?case
  proof (cases "n < 10")
    case False
    with 1(2,3) have "1 < k" by (cases "k = 1") auto
    then obtain j where "k = Suc j" "0 < j" by (cases k) auto
    with 1(1) [of j] 1(2) False show ?thesis by (subst nat_digits.simps) auto
  qed (use 1(3) in \<open>subst nat_digits.simps, simp\<close>)
qed

lemma length_byte: "b < 256 \<Longrightarrow> length (to_string (int b)) \<le> 3"
  using length_nat_digits [of b 3] by (simp add: to_string_def)

lemma length_port: "length (to_string (uint (p :: 16 word))) \<le> 5"
proof -
  have "unat p < 65536" using unsigned_less [where w = p and ?'a = nat] by simp
  then have "nat (uint p) < 10 ^ 5" by simp
  then have "length (nat_digits (nat (uint p))) \<le> 5" by (rule length_nat_digits) simp
  then show ?thesis by (simp add: to_string_def)
qed

lemma length_dotted:
  assumes "length bs = 4" "\<forall>b\<in>set bs. b < 256"
  shows "length (dotted bs) \<le> 15"
proof -
  obtain a b c d where "bs = [a, b, c, d]" using assms(1) by (auto simp: numeral_eq_Suc length_Suc_conv)
  with assms(2) length_byte [of a] length_byte [of b] length_byte [of c] length_byte [of d] show ?thesis by simp
qed

text \<open>Addresses print back as they were given.  For a dotted address that \<open>inet_pton\<close> parses to its four
  bytes and any port, the three printing functions succeed in their 64- and 6-byte arrays without
  truncation and give the address, the port and both; the port survives the byte-order swaps.\<close>

theorem InetAddress_prints:
  assumes "length bs = 4" "\<forall>b\<in>set bs. b < 256" "pton (dotted bs) = Some bs"
  shows "toIp (InetAddress_ip pton (dotted bs) port) = Inr (dotted bs)
    \<and> toPort (InetAddress_ip pton (dotted bs) port) = port
    \<and> toPortString (InetAddress_ip pton (dotted bs) port) = Inr (to_string (uint port))
    \<and> toIpPort (InetAddress_ip pton (dotted bs) port) = Inr (dotted bs @ '':'' @ to_string (uint port))"
  using assms(3) length_dotted [OF assms(1,2)] length_port [of port]
  by (simp add: toIp_def toPort_def toPortString_def toIpPort_def InetAddress_ip_def fromIpPort_def sock_toIp_def
      sock_toPortString_def sock_toIpPort_def snprintf_at_def INET_ADDRSTRLEN_def)

theorem InetAddress_prints_witness:
  "toIpPort (InetAddress_ip (\<lambda>s. Some [127, 0, 0, 1]) (dotted [127, 0, 0, 1]) 9017)
    = Inr (dotted [127, 0, 0, 1] @ '':'' @ to_string 9017)"
  using InetAddress_prints [of "[127, 0, 0, 1]" "\<lambda>s. Some [127, 0, 0, 1]" 9017] by simp

end
