(* ===== verification/Tcp_Server.thy ===== *)
theory Tcp_Server
  imports Event_Loop Inet_Address
begin

text \<open>
  \<open>src/src/net/Acceptor.{h,cpp}\<close>, \<open>EventLoopThreadPool.{h,cpp}\<close>, \<open>tcpServer.{h,cpp}\<close> and \<open>sock::accept\<close>: new
  connections are accepted in the main loop until there are none left and each is given to the
  sub-loop with the fewest connections.  \<open>std::atomic<bool> started_\<close> has no initialiser (the project is
  built as C++14), so the constructors take the value that happens to be in memory.
\<close>

section \<open>Accepting\<close>

datatype acc_ret = Accepted int sockaddr_in | Acc_failed errno

record 'k acc_sys =
  as_accept :: "'k \<Rightarrow> acc_ret \<times> 'k"
  as_close :: "'k \<Rightarrow> int \<Rightarrow> 'k"
  as_open_null :: "'k \<Rightarrow> int \<times> 'k"

text \<open>The errors \<open>sock::accept\<close> expects; any other is logged as FATAL, which aborts.\<close>

definition expected_errno :: "errno \<Rightarrow> bool" where
  "expected_errno e \<longleftrightarrow> e \<in> {EAGAIN, ECONNABORTED, EINTR, EPROTO, EPERM, EMFILE}"

definition sock_accept :: "'k acc_sys \<Rightarrow> 'k \<Rightarrow> (acc_ret \<times> 'k) result" where
  "sock_accept sys k =
     (case as_accept sys k of
        (Accepted fd a, k') \<Rightarrow> Inr (Accepted fd a, k')
      | (Acc_failed e, k') \<Rightarrow> if expected_errno e then Inr (Acc_failed e, k') else Inl Abort)"

text \<open>The acceptor, with the state \<open>'s\<close> its callback works on and the descriptors closed so far.\<close>

record ('k, 's) acceptor =
  ac_listening :: bool
  ac_idleFd :: int
  ac_state :: 's
  ac_closed :: "int list"
  ac_kernel :: 'k

definition new_Acceptor :: "int \<Rightarrow> bool \<Rightarrow> 's \<Rightarrow> 'k \<Rightarrow> ('k, 's) acceptor result" where
  "new_Acceptor idleFd bind_ok s k =
     bind_res (cassert (idleFd \<ge> 0)) (\<lambda>_.
       if \<not> bind_ok then Inl Abort
       else Inr \<lparr>ac_listening = False, ac_idleFd = idleFd, ac_state = s, ac_closed = [], ac_kernel = k\<rparr>)"

definition acceptor_listen :: "bool \<Rightarrow> bool \<Rightarrow> ('k, 's) acceptor \<Rightarrow> ('k, 's) acceptor result" where
  "acceptor_listen inLoop listen_ok a =
     bind_res (assertInLoopThread inLoop) (\<lambda>_. if listen_ok then Inr (a\<lparr>ac_listening := True\<rparr>) else Inl Abort)"

definition close_conn :: "'k acc_sys \<Rightarrow> int \<Rightarrow> ('k, 's) acceptor \<Rightarrow> ('k, 's) acceptor" where
  "close_conn sys fd a = a\<lparr>ac_kernel := as_close sys (ac_kernel a) fd, ac_closed := ac_closed a @ [fd]\<rparr>"

text \<open>Out of descriptors: give up the idle one, accept with it, close the connection, reopen it.\<close>

definition refuse_one :: "'k acc_sys \<Rightarrow> ('k, 's) acceptor \<Rightarrow> ('k, 's) acceptor" where
  "refuse_one sys a =
     (let a1 = close_conn sys (ac_idleFd a) a;
          (r, k1) = as_accept sys (ac_kernel a1);
          fd = (case r of Accepted fd _ \<Rightarrow> fd | Acc_failed _ \<Rightarrow> - 1);
          a2 = close_conn sys fd (a1\<lparr>ac_idleFd := fd, ac_kernel := k1\<rparr>);
          (idle, k2) = as_open_null sys (ac_kernel a2)
      in a2\<lparr>ac_idleFd := idle, ac_kernel := k2\<rparr>)"

definition accept_iteration ::
    "'k acc_sys \<Rightarrow> (int \<Rightarrow> sockaddr_in \<Rightarrow> 's \<Rightarrow> 's result) option \<Rightarrow> ('k, 's) acceptor
      \<Rightarrow> (('k, 's) acceptor, ('k, 's) acceptor) flow result" where
  "accept_iteration sys cb a =
     bind_res (sock_accept sys (ac_kernel a)) (\<lambda>(r, k).
       let a1 = a\<lparr>ac_kernel := k\<rparr> in
       case r of
         Accepted fd addr \<Rightarrow>
           (case cb of
              Some f \<Rightarrow> bind_res (f fd addr (ac_state a1)) (\<lambda>s. Inr (Continue (a1\<lparr>ac_state := s\<rparr>)))
            | None \<Rightarrow> Inr (Continue (close_conn sys fd a1)))
       | Acc_failed e \<Rightarrow>
           if e = EMFILE then Inr (Continue (refuse_one sys a1))
           else if e = EINTR then Inr (Continue a1)
           else if e = EAGAIN then Inr (Return a1)
           else Inr (Continue a1))"

definition acceptor_handleRead ::
    "'k acc_sys \<Rightarrow> (int \<Rightarrow> sockaddr_in \<Rightarrow> 's \<Rightarrow> 's result) option \<Rightarrow> bool \<Rightarrow> ('k, 's) acceptor \<Rightarrow> ('k, 's) acceptor outcome" where
  "acceptor_handleRead sys cb inLoop a =
     bind_out (Some (assertInLoopThread inLoop)) (\<lambda>_. run_loop (\<lambda>a. Some (accept_iteration sys cb a)) a)"

section \<open>The pool of loops\<close>

datatype srv_task = Add_connect nat | Established nat

record loop_pool =
  lp_numThreads :: int
  lp_started :: bool
  lp_loops :: "srv_task eloop list"

definition new_EventLoopThreadPool :: "bool \<Rightarrow> int \<Rightarrow> loop_pool" where
  "new_EventLoopThreadPool started0 numThreads0 = \<lparr>lp_numThreads = numThreads0, lp_started = started0, lp_loops = []\<rparr>"

definition pool_setThreadNum :: "int \<Rightarrow> loop_pool \<Rightarrow> loop_pool" where
  "pool_setThreadNum n p = p\<lparr>lp_numThreads := n\<rparr>"

definition pool_start :: "bool \<Rightarrow> loop_pool \<Rightarrow> loop_pool result" where
  "pool_start inBaseLoop p =
     bind_res (cassert (\<not> lp_started p)) (\<lambda>_. bind_res (assertInLoopThread inBaseLoop) (\<lambda>_.
       Inr (p\<lparr>lp_started := True,
              lp_loops := lp_loops p @ map (\<lambda>_. new_EventLoop False) [0 ..< nat (lp_numThreads p)]\<rparr>)))"

text \<open>\<open>std::min_element\<close>: the first of the smallest.\<close>

fun min_element :: "(nat \<Rightarrow> nat) \<Rightarrow> nat list \<Rightarrow> nat \<Rightarrow> nat" where
  "min_element key [] best = best"
| "min_element key (i # is) best = min_element key is (if key i < key best then i else best)"

definition getNextLoop :: "bool \<Rightarrow> loop_pool \<Rightarrow> nat result" where
  "getNextLoop inBaseLoop p =
     bind_res (assertInLoopThread inBaseLoop) (\<lambda>_. bind_res (cassert (lp_started p)) (\<lambda>_.
       if lp_loops p = [] then Inl Out_of_bounds
       else Inr (min_element (\<lambda>i. connectSize (lp_loops p ! i)) [1 ..< length (lp_loops p)] 0)))"

section \<open>The server\<close>

record server =
  sv_started :: bool
  sv_pool :: loop_pool
  sv_conns :: "(int \<times> sockaddr_in \<times> nat) list"

definition new_TcpServer :: "bool \<Rightarrow> bool \<Rightarrow> int \<Rightarrow> int \<Rightarrow> server" where
  "new_TcpServer started0 pool_started0 numThreads0 numThreads =
     \<lparr>sv_started = started0, sv_pool = pool_setThreadNum numThreads (new_EventLoopThreadPool pool_started0 numThreads0), sv_conns = []\<rparr>"

definition server_setThreadNum :: "int \<Rightarrow> server \<Rightarrow> server result" where
  "server_setThreadNum n s =
     bind_res (cassert (0 < n)) (\<lambda>_. Inr (s\<lparr>sv_pool := pool_setThreadNum n (sv_pool s)\<rparr>))"

text \<open>\<open>start\<close> up to the acceptor's \<open>listen\<close>; the acceptor must not listen yet.\<close>

definition server_start :: "bool \<Rightarrow> bool \<Rightarrow> server \<Rightarrow> server result" where
  "server_start inBaseLoop isListening s =
     (let s1 = (if \<not> sv_started s then s\<lparr>sv_started := True\<rparr> else s) in
      bind_res (cassert (\<not> lp_started (sv_pool s1))) (\<lambda>_.
      bind_res (pool_start inBaseLoop (sv_pool s1)) (\<lambda>p.
      bind_res (cassert (\<not> isListening)) (\<lambda>_. Inr (s1\<lparr>sv_pool := p\<rparr>)))))"

text \<open>\<open>newConnection\<close>: the connection is numbered by its position; its loop gets the two tasks from the
  main thread, so both are queued.\<close>

definition newConnection :: "bool \<Rightarrow> int \<Rightarrow> sockaddr_in \<Rightarrow> server \<Rightarrow> server result" where
  "newConnection inBaseLoop sockfd peer s =
     bind_res (assertInLoopThread inBaseLoop) (\<lambda>_.
     bind_res (getNextLoop inBaseLoop (sv_pool s)) (\<lambda>i.
       let c = length (sv_conns s);
           l1 = runInLoop (\<lambda>_. []) False (Add_connect c) (lp_loops (sv_pool s) ! i);
           l2 = runInLoop (\<lambda>_. []) False (Established c) l1
       in Inr (s\<lparr>sv_pool := (sv_pool s)\<lparr>lp_loops := (lp_loops (sv_pool s))[i := l2]\<rparr>,
                 sv_conns := sv_conns s @ [(sockfd, peer, i)]\<rparr>)))"

text \<open>A sub-loop runs its pending tasks: the connections are added to its set.\<close>

fun add_connects :: "srv_task list \<Rightarrow> srv_task eloop \<Rightarrow> srv_task eloop result" where
  "add_connects [] l = Inr l"
| "add_connects (Add_connect c # ts) l = bind_res (addConnectInLoop True c l) (add_connects ts)"
| "add_connects (Established c # ts) l = add_connects ts l"

definition subLoop_run :: "nat \<Rightarrow> server \<Rightarrow> server result" where
  "subLoop_run i s =
     (let l = lp_loops (sv_pool s) ! i in
      bind_res (add_connects (el_pending l) (doPendingFunctors (\<lambda>_. []) l)) (\<lambda>l'.
        Inr (s\<lparr>sv_pool := (sv_pool s)\<lparr>lp_loops := (lp_loops (sv_pool s))[i := l']\<rparr>\<rparr>)))"

definition loads :: "server \<Rightarrow> nat list" where
  "loads s = map connectSize (lp_loops (sv_pool s))"

section \<open>The least loaded loop\<close>

definition least :: "nat list \<Rightarrow> nat" where
  "least ls = min_element (\<lambda>i. ls ! i) [1 ..< length ls] 0"

lemma min_element_append: "min_element key (xs @ ys) b = min_element key ys (min_element key xs b)"
  by (induction xs arbitrary: b) simp_all

lemma min_element_first:
  assumes "0 < n"
  shows "min_element key [1 ..< n] 0 < n \<and> (\<forall>j < n. key (min_element key [1 ..< n] 0) \<le> key j)
    \<and> (\<forall>j < min_element key [1 ..< n] 0. key (min_element key [1 ..< n] 0) < key j)"
  using assms
proof (induction n)
  case (Suc n)
  show ?case
  proof (cases "n = 0")
    case False
    then have "[1 ..< Suc n] = [1 ..< n] @ [n]" by simp
    with Suc False show ?thesis by (auto simp: min_element_append less_Suc_eq intro: less_le_trans order.trans [OF less_imp_le])
  qed (simp)
qed simp

lemma min_element_cong: "(\<And>i. i \<in> insert b (set xs) \<Longrightarrow> key i = key' i) \<Longrightarrow> min_element key xs b = min_element key' xs b"
  by (induction xs arbitrary: b) auto

lemma getNextLoop_least:
  assumes "lp_started p" "lp_loops p \<noteq> []"
  shows "getNextLoop True p = Inr (least (map connectSize (lp_loops p)))"
proof -
  have "min_element (\<lambda>i. connectSize (lp_loops p ! i)) [1 ..< length (lp_loops p)] 0
      = min_element (\<lambda>i. map connectSize (lp_loops p) ! i) [1 ..< length (lp_loops p)] 0"
    using assms(2) by (intro min_element_cong) auto
  with assms show ?thesis by (simp add: getNextLoop_def assertInLoopThread_def least_def)
qed

lemma least_lt: "ls \<noteq> [] \<Longrightarrow> least ls < length ls"
  using min_element_first [of "length ls"] by (auto simp: least_def)

lemma least_unique:
  assumes "r < length ls" "\<And>j. j < length ls \<Longrightarrow> ls ! r \<le> ls ! j" "\<And>j. j < r \<Longrightarrow> ls ! r < ls ! j"
  shows "least ls = r"
proof -
  have "0 < length ls" using assms(1) by linarith
  from min_element_first [OF this, of "\<lambda>i. ls ! i"] have l: "least ls < length ls" "\<forall>j < length ls. ls ! least ls \<le> ls ! j"
    "\<forall>j < least ls. ls ! least ls < ls ! j" by (simp_all add: least_def)
  show ?thesis
  proof (rule linorder_cases [of "least ls" r])
    assume "least ls < r"
    with assms(3) [of "least ls"] l(2) assms(1) show ?thesis by fastforce
  next
    assume "r < least ls"
    with l(3) assms(2) [OF l(1)] show ?thesis by fastforce
  qed simp
qed

definition serving :: "server \<Rightarrow> bool" where
  "serving s \<longleftrightarrow> lp_started (sv_pool s) \<and> lp_loops (sv_pool s) \<noteq> []"

lemma runInLoop_queues:
  "el_conns (runInLoop b False f l) = el_conns l" "el_pending (runInLoop b False f l) = el_pending l @ [f]"
  by (simp_all add: runInLoop_def queueInLoop_def queue_wake_def push_pending_def wakeup_def Let_def)

lemma newConnection_ok:
  assumes "serving s"
  shows "\<exists>s'. newConnection True fd a s = Inr s' \<and> serving s' \<and> loads s' = loads s
    \<and> sv_conns s' = sv_conns s @ [(fd, a, least (loads s))]
    \<and> (\<forall>i < length (lp_loops (sv_pool s)). el_conns (lp_loops (sv_pool s') ! i) = el_conns (lp_loops (sv_pool s) ! i)
        \<and> el_pending (lp_loops (sv_pool s') ! i) = el_pending (lp_loops (sv_pool s) ! i)
            @ (if i = least (loads s) then [Add_connect (length (sv_conns s)), Established (length (sv_conns s))] else []))
    \<and> length (lp_loops (sv_pool s')) = length (lp_loops (sv_pool s))"
proof -
  have g: "getNextLoop True (sv_pool s) = Inr (least (loads s))"
    using assms getNextLoop_least by (simp add: serving_def loads_def)
  let ?i = "least (loads s)"
  have i: "?i < length (lp_loops (sv_pool s))" using assms least_lt [of "loads s"] by (simp add: serving_def loads_def)
  let ?l = "runInLoop (\<lambda>_. []) False (Established (length (sv_conns s)))
    (runInLoop (\<lambda>_. []) False (Add_connect (length (sv_conns s))) (lp_loops (sv_pool s) ! ?i))"
  have "map connectSize ((lp_loops (sv_pool s))[?i := ?l]) = loads s"
    using i by (simp add: map_update loads_def runInLoop_queues connectSize_def list_update_same_conv)
  then show ?thesis using g assms i
    by (auto simp: newConnection_def assertInLoopThread_def serving_def loads_def Let_def nth_list_update runInLoop_queues)
qed

section \<open>Accepting all\<close>

text \<open>What the kernel gives the acceptor until there is nothing more to accept: connections, errors that are
  skipped, and a connection refused for lack of descriptors (its descriptor, the new idle one).\<close>

datatype acc_event = Ev_conn int sockaddr_in | Ev_skip errno | Ev_refuse int int

fun serves :: "'k acc_sys \<Rightarrow> int \<Rightarrow> 'k \<Rightarrow> acc_event list \<Rightarrow> bool" where
  "serves sys idle k [] \<longleftrightarrow> fst (as_accept sys k) = Acc_failed EAGAIN"
| "serves sys idle k (Ev_conn fd a # es) \<longleftrightarrow>
     fst (as_accept sys k) = Accepted fd a \<and> serves sys idle (snd (as_accept sys k)) es"
| "serves sys idle k (Ev_skip e # es) \<longleftrightarrow>
     e \<in> {EINTR, ECONNABORTED, EPROTO, EPERM} \<and> fst (as_accept sys k) = Acc_failed e \<and> serves sys idle (snd (as_accept sys k)) es"
| "serves sys idle k (Ev_refuse fd idle' # es) \<longleftrightarrow>
     fst (as_accept sys k) = Acc_failed EMFILE
     \<and> (let k1 = as_close sys (snd (as_accept sys k)) idle; k2 = as_close sys (snd (as_accept sys k1)) fd
        in (\<exists>a. fst (as_accept sys k1) = Accepted fd a) \<and> fst (as_open_null sys k2) = idle'
           \<and> serves sys idle' (snd (as_open_null sys k2)) es)"

fun conns_of :: "acc_event list \<Rightarrow> (int \<times> sockaddr_in) list" where
  "conns_of [] = []"
| "conns_of (Ev_conn fd a # es) = (fd, a) # conns_of es"
| "conns_of (e # es) = conns_of es"

fun closed_of :: "int \<Rightarrow> acc_event list \<Rightarrow> int list" where
  "closed_of idle [] = []"
| "closed_of idle (Ev_refuse fd idle' # es) = idle # fd # closed_of idle' es"
| "closed_of idle (e # es) = closed_of idle es"

text \<open>The interface to the acceptor's callback: it never fails on the states it keeps.\<close>

locale accept_callback =
  fixes cb :: "int \<Rightarrow> sockaddr_in \<Rightarrow> 's \<Rightarrow> 's result" and inv :: "'s \<Rightarrow> bool" and effect :: "'s \<Rightarrow> (int \<times> sockaddr_in) list \<Rightarrow> 's \<Rightarrow> bool"
  assumes cb_ok: "inv s \<Longrightarrow> \<exists>s'. cb fd a s = Inr s' \<and> inv s' \<and> (\<forall>cs t. effect s' cs t \<longrightarrow> effect s ((fd, a) # cs) t)"
    and effect_nil: "inv s \<Longrightarrow> effect s [] s"
begin

lemma handleRead_accepts:
  assumes "serves sys (ac_idleFd a) (ac_kernel a) es" "inv (ac_state a)"
  shows "\<exists>a'. acceptor_handleRead sys (Some cb) True a = ok a' \<and> inv (ac_state a')
    \<and> effect (ac_state a) (conns_of es) (ac_state a') \<and> ac_closed a' = ac_closed a @ closed_of (ac_idleFd a) es \<and> ac_listening a' = ac_listening a"
proof -
  have "\<exists>a'. run_loop (\<lambda>a. Some (accept_iteration sys (Some cb) a)) a = ok a' \<and> inv (ac_state a')
      \<and> effect (ac_state a) (conns_of es) (ac_state a') \<and> ac_closed a' = ac_closed a @ closed_of (ac_idleFd a) es \<and> ac_listening a' = ac_listening a"
    using assms
  proof (induction es arbitrary: a)
    case Nil
    obtain k' where "as_accept sys (ac_kernel a) = (Acc_failed EAGAIN, k')" using Nil(1) by (cases "as_accept sys (ac_kernel a)") auto
    then have "accept_iteration sys (Some cb) a = Inr (Return (a\<lparr>ac_kernel := k'\<rparr>))"
      by (simp add: accept_iteration_def sock_accept_def expected_errno_def)
    then show ?case using Nil(2) effect_nil by (auto simp: run_loop_step(2))
  next
    case (Cons x es)
    show ?case
    proof (cases x)
      case (Ev_conn fd d)
      obtain k' where k: "as_accept sys (ac_kernel a) = (Accepted fd d, k')" "serves sys (ac_idleFd a) k' es"
        using Cons.prems(1) Ev_conn by (cases "as_accept sys (ac_kernel a)") auto
      obtain s' where s: "cb fd d (ac_state a) = Inr s'" "inv s'" "\<forall>cs t. effect s' cs t \<longrightarrow> effect (ac_state a) ((fd, d) # cs) t"
        using cb_ok [OF Cons.prems(2)] by blast
      let ?a = "a\<lparr>ac_kernel := k', ac_state := s'\<rparr>"
      have "accept_iteration sys (Some cb) a = Inr (Continue ?a)" using k s by (simp add: accept_iteration_def sock_accept_def)
      then have "run_loop (\<lambda>a. Some (accept_iteration sys (Some cb) a)) a = run_loop (\<lambda>a. Some (accept_iteration sys (Some cb) a)) ?a"
        by (simp add: run_loop_step(1))
      with Cons.IH [of ?a] k s Ev_conn show ?thesis by auto
    next
      case (Ev_skip e)
      obtain k' where k: "as_accept sys (ac_kernel a) = (Acc_failed e, k')" "serves sys (ac_idleFd a) k' es"
        "e \<in> {EINTR, ECONNABORTED, EPROTO, EPERM}" using Cons.prems(1) Ev_skip by (cases "as_accept sys (ac_kernel a)") auto
      then have "accept_iteration sys (Some cb) a = Inr (Continue (a\<lparr>ac_kernel := k'\<rparr>))"
        by (auto simp: accept_iteration_def sock_accept_def expected_errno_def)
      then have "run_loop (\<lambda>a. Some (accept_iteration sys (Some cb) a)) a
          = run_loop (\<lambda>a. Some (accept_iteration sys (Some cb) a)) (a\<lparr>ac_kernel := k'\<rparr>)"
        by (simp add: run_loop_step(1))
      with Cons.IH [of "a\<lparr>ac_kernel := k'\<rparr>"] k Cons.prems(2) Ev_skip show ?thesis by auto
    next
      case (Ev_refuse fd idle')
      obtain k0 where k0: "as_accept sys (ac_kernel a) = (Acc_failed EMFILE, k0)"
        using Cons.prems(1) Ev_refuse by (cases "as_accept sys (ac_kernel a)") auto
      obtain d k1 where k1: "as_accept sys (as_close sys k0 (ac_idleFd a)) = (Accepted fd d, k1)"
        using Cons.prems(1) Ev_refuse k0 by (cases "as_accept sys (as_close sys k0 (ac_idleFd a))") (auto simp: Let_def)
      obtain k2 where k2: "as_open_null sys (as_close sys k1 fd) = (idle', k2)" "serves sys idle' k2 es"
        using Cons.prems(1) Ev_refuse k0 k1 by (cases "as_open_null sys (as_close sys k1 fd)") (auto simp: Let_def)
      let ?a = "a\<lparr>ac_kernel := k2, ac_idleFd := idle', ac_closed := ac_closed a @ [ac_idleFd a, fd]\<rparr>"
      have "accept_iteration sys (Some cb) a = Inr (Continue ?a)"
        using k0 k1 k2 by (simp add: accept_iteration_def sock_accept_def expected_errno_def refuse_one_def close_conn_def Let_def)
      then have "run_loop (\<lambda>a. Some (accept_iteration sys (Some cb) a)) a = run_loop (\<lambda>a. Some (accept_iteration sys (Some cb) a)) ?a"
        by (simp add: run_loop_step(1))
      with Cons.IH [of ?a] k2 Cons.prems(2) Ev_refuse show ?thesis by auto
    qed
  qed
  then show ?thesis by (simp add: acceptor_handleRead_def assertInLoopThread_def)
qed

end

text \<open>The effect of accepting connections on a server whose sub-loops do not run meanwhile.\<close>

definition burst :: "server \<Rightarrow> (int \<times> sockaddr_in) list \<Rightarrow> server \<Rightarrow> bool" where
  "burst s cs t \<longleftrightarrow> serving t \<and> loads t = loads s
     \<and> sv_conns t = sv_conns s @ map (\<lambda>(fd, a). (fd, a, least (loads s))) cs"

interpretation srv: accept_callback "newConnection True" serving burst
proof
  fix s fd a assume "serving s"
  from newConnection_ok [OF this, of fd a]
  show "\<exists>s'. newConnection True fd a s = Inr s' \<and> serving s' \<and> (\<forall>cs t. burst s' cs t \<longrightarrow> burst s ((fd, a) # cs) t)"
    by (auto simp: burst_def)
qed (simp add: burst_def)

section \<open>Properties\<close>

text \<open>C22: the acceptor takes every connection, and a burst goes to one loop.  When the kernel serves any
  finite sequence of connections, skippable errors and descriptor shortages and then has no more,
  \<open>handleRead\<close> returns; every connection is handed to the server once and in order, each refused one is
  closed together with the idle descriptor that made room for it; and all connections of the burst
  get the same sub-loop, the first least loaded one, because the sub-loops count a connection only
  when they run.\<close>

theorem acceptor_burst:
  assumes "serves sys (ac_idleFd a) (ac_kernel a) es" "serving (ac_state a)"
  shows "\<exists>a'. acceptor_handleRead sys (Some (newConnection True)) True a = ok a'
    \<and> sv_conns (ac_state a') = sv_conns (ac_state a) @ map (\<lambda>(fd, addr). (fd, addr, least (loads (ac_state a)))) (conns_of es)
    \<and> loads (ac_state a') = loads (ac_state a)
    \<and> ac_closed a' = ac_closed a @ closed_of (ac_idleFd a) es"
  using srv.handleRead_accepts [OF assms] by (auto simp: burst_def)

text \<open>For the witnesses: a kernel that has a list of results to give.\<close>

definition demo_acc :: "acc_ret list acc_sys" where
  "demo_acc = \<lparr>as_accept = (\<lambda>k. case k of [] \<Rightarrow> (Acc_failed EAGAIN, []) | r # rs \<Rightarrow> (r, rs)),
     as_close = (\<lambda>k fd. k), as_open_null = (\<lambda>k. (3, k))\<rparr>"

definition demo_server :: "nat \<Rightarrow> server" where
  "demo_server n = \<lparr>sv_started = True, sv_pool = \<lparr>lp_numThreads = int n, lp_started = True,
     lp_loops = replicate n (new_EventLoop False)\<rparr>, sv_conns = []\<rparr>"

lemma demo_server_ok: "0 < n \<Longrightarrow> serving (demo_server n)" "loads (demo_server n) = replicate n 0"
  by (simp_all add: demo_server_def serving_def loads_def connectSize_def new_EventLoop_def)

theorem acceptor_burst_witness:
  "\<exists>a'. acceptor_handleRead demo_acc (Some (newConnection True)) True
      \<lparr>ac_listening = True, ac_idleFd = 3, ac_state = demo_server 2, ac_closed = [],
       ac_kernel = [Accepted 5 new_InetAddress, Acc_failed EINTR, Accepted 6 new_InetAddress, Acc_failed EMFILE, Accepted 7 new_InetAddress]\<rparr> = ok a'
    \<and> sv_conns (ac_state a') = [(5, new_InetAddress, 0), (6, new_InetAddress, 0)] \<and> ac_closed a' = [3, 7]"
proof -
  let ?a = "\<lparr>ac_listening = True, ac_idleFd = 3, ac_state = demo_server 2, ac_closed = [],
       ac_kernel = [Accepted 5 new_InetAddress, Acc_failed EINTR, Accepted 6 new_InetAddress, Acc_failed EMFILE, Accepted 7 new_InetAddress]\<rparr>"
  have s: "serves demo_acc (ac_idleFd ?a) (ac_kernel ?a)
      [Ev_conn 5 new_InetAddress, Ev_skip EINTR, Ev_conn 6 new_InetAddress, Ev_refuse 7 3]"
    by (simp add: demo_acc_def)
  have "serving (ac_state ?a)" "sv_conns (demo_server 2) = []" "least (loads (demo_server 2)) = 0"
    using demo_server_ok [of 2] by (simp_all add: least_def demo_server_def numeral_2_eq_2)
  with acceptor_burst [OF s] show ?thesis by auto
qed

text \<open>One connection at a time: the sub-loop runs its tasks before the next one is accepted.\<close>

definition accept_and_run :: "int \<times> sockaddr_in \<Rightarrow> server \<Rightarrow> server result" where
  "accept_and_run c s = bind_res (newConnection True (fst c) (snd c) s) (subLoop_run (least (loads s)))"

definition settled :: "server \<Rightarrow> bool" where
  "settled s \<longleftrightarrow> serving s \<and> (\<forall>l\<in>set (lp_loops (sv_pool s)). el_pending l = [] \<and> finite (el_conns l)
     \<and> (\<forall>c\<in>el_conns l. c < length (sv_conns s)))"

lemma doPending_frame:
  fixes l :: "'f eloop"
  shows "el_conns (doPendingFunctors (\<lambda>_. []) l) = el_conns l" "el_pending (doPendingFunctors (\<lambda>_. []) l) = []"
proof -
  have "el_conns (fold (run_functor (\<lambda>_. [])) fs m) = el_conns m \<and> el_pending (fold (run_functor (\<lambda>_. [])) fs m) = el_pending m" for fs and m :: "'f eloop"
    by (induction fs arbitrary: m) (simp_all add: run_functor_def)
  then show "el_conns (doPendingFunctors (\<lambda>_. []) l) = el_conns l" "el_pending (doPendingFunctors (\<lambda>_. []) l) = []"
    by (simp_all add: doPendingFunctors_def Let_def)
qed

lemma accept_and_run_ok:
  assumes "settled s"
  shows "\<exists>s'. accept_and_run c s = Inr s' \<and> settled s' \<and> loads s' = (loads s)[least (loads s) := Suc (loads s ! least (loads s))]"
proof -
  let ?i = "least (loads s)" let ?n = "length (sv_conns s)"
  have sv: "serving s" using assms by (simp add: settled_def)
  from newConnection_ok [OF sv, of "fst c" "snd c"] obtain s1 where s1: "newConnection True (fst c) (snd c) s = Inr s1" "serving s1"
    "loads s1 = loads s" "length (sv_conns s1) = Suc ?n" "length (lp_loops (sv_pool s1)) = length (lp_loops (sv_pool s))"
    "\<And>i. i < length (lp_loops (sv_pool s)) \<Longrightarrow> el_conns (lp_loops (sv_pool s1) ! i) = el_conns (lp_loops (sv_pool s) ! i)
      \<and> el_pending (lp_loops (sv_pool s1) ! i) = el_pending (lp_loops (sv_pool s) ! i)
          @ (if i = ?i then [Add_connect ?n, Established ?n] else [])" by auto
  have i: "?i < length (lp_loops (sv_pool s))" using sv least_lt [of "loads s"] by (simp add: serving_def loads_def)
  have old: "el_pending (lp_loops (sv_pool s) ! j) = []" "finite (el_conns (lp_loops (sv_pool s) ! j))"
    "\<forall>c\<in>el_conns (lp_loops (sv_pool s) ! j). c < ?n" if "j < length (lp_loops (sv_pool s))" for j
    using assms that by (auto simp: settled_def)
  let ?l = "(doPendingFunctors (\<lambda>_. []) (lp_loops (sv_pool s1) ! ?i))\<lparr>el_conns := insert ?n (el_conns (lp_loops (sv_pool s) ! ?i))\<rparr>"
  let ?s' = "s1\<lparr>sv_pool := (sv_pool s1)\<lparr>lp_loops := (lp_loops (sv_pool s1))[?i := ?l]\<rparr>\<rparr>"
  have "accept_and_run c s = Inr ?s'"
    using s1(1) s1(6) [OF i] old(1) [OF i]
    by (simp add: accept_and_run_def subLoop_run_def Let_def addConnectInLoop_def assertInLoopThread_def doPending_frame)
  moreover have "?n \<notin> el_conns (lp_loops (sv_pool s) ! ?i)" using old(3) [OF i] by auto
  then have "connectSize ?l = Suc (loads s ! ?i)" using old(2) [OF i] i by (simp add: connectSize_def loads_def)
  then have "loads ?s' = (loads s)[?i := Suc (loads s ! ?i)]" using s1(3) by (simp add: loads_def map_update)
  moreover have "settled ?s'"
    unfolding settled_def
  proof (intro conjI ballI)
    show "serving ?s'" using s1(2) by (simp add: serving_def)
    fix l assume "l \<in> set (lp_loops (sv_pool ?s'))"
    then obtain j where j: "j < length (lp_loops (sv_pool s))" "l = (lp_loops (sv_pool s1))[?i := ?l] ! j"
      using s1(5) by (auto simp: in_set_conv_nth)
    show "el_pending l = []" "finite (el_conns l)"
      using j old [OF j(1)] s1(6) [OF j(1)] s1(5) old(2) [OF i] by (auto simp: nth_list_update doPending_frame split: if_splits)
    show "c < length (sv_conns ?s')" if "c \<in> el_conns l" for c
      using j that old(3) [OF j(1)] s1(4,5) s1(6) [OF j(1)] old(3) [OF i] by (auto simp: nth_list_update less_SucI split: if_splits)
  qed
  ultimately show ?thesis by blast
qed

text \<open>Loads after \<open>n\<close> connections over \<open>k\<close> loops.\<close>

definition round_robin :: "nat \<Rightarrow> nat \<Rightarrow> nat list" where
  "round_robin k n = map (\<lambda>i. n div k + (if i < n mod k then 1 else 0)) [0 ..< k]"

lemma round_robin_step:
  assumes "0 < k"
  shows "(round_robin k n)[least (round_robin k n) := Suc (round_robin k n ! least (round_robin k n))] = round_robin k (Suc n)"
proof -
  have m: "n mod k < k" using assms by simp
  have l: "least (round_robin k n) = n mod k"
    using m by (intro least_unique) (auto simp: round_robin_def)
  show ?thesis unfolding l
  proof (rule nth_equalityI)
    fix i assume "i < length ((round_robin k n)[n mod k := Suc (round_robin k n ! (n mod k))])"
    then have i: "i < k" by (simp add: round_robin_def)
    show "(round_robin k n)[n mod k := Suc (round_robin k n ! (n mod k))] ! i = round_robin k (Suc n) ! i"
      using i m by (auto simp: round_robin_def nth_list_update mod_Suc div_Suc)
  qed (simp add: round_robin_def)
qed

text \<open>C23: load balancing.  When every sub-loop has run its tasks before the next connection is accepted, any
  number of connections is spread evenly: after \<open>n\<close> connections over \<open>k\<close> loops every loop has \<open>n div k\<close>
  of them and the first \<open>n mod k\<close> loops one more.\<close>

theorem connections_balanced:
  assumes "settled s" "0 < k" "loads s = replicate k 0"
  shows "\<exists>s'. fold (\<lambda>c m. bind_res m (accept_and_run c)) cs (Inr s) = Inr s' \<and> loads s' = round_robin k (length cs)"
proof -
  have "\<exists>s'. fold (\<lambda>c m. bind_res m (accept_and_run c)) cs (Inr s) = Inr s' \<and> loads s' = round_robin k (n + length cs)"
    if "settled s" "loads s = round_robin k n" for s n
    using that
  proof (induction cs arbitrary: s n)
    case (Cons c cs)
    from accept_and_run_ok [OF Cons.prems(1), of c] obtain s1 where s1: "accept_and_run c s = Inr s1" "settled s1"
      "loads s1 = round_robin k (Suc n)" using Cons.prems(2) round_robin_step [OF assms(2), of n] by auto
    from Cons.IH [OF s1(2,3)] s1(1) show ?case by simp
  qed simp
  from this [OF assms(1), of 0] assms(2,3) show ?thesis by (simp add: round_robin_def map_replicate_const)
qed

theorem connections_balanced_witness:
  "\<exists>s'. fold (\<lambda>c m. bind_res m (accept_and_run c)) (replicate 3 (5, new_InetAddress)) (Inr (demo_server 2)) = Inr s'
    \<and> loads s' = [2, 1]"
proof -
  have "settled (demo_server 2)" using demo_server_ok [of 2] by (simp add: settled_def demo_server_def new_EventLoop_def)
  moreover have "round_robin 2 3 = [2, 1]" by (simp add: round_robin_def upt_rec)
  ultimately show ?thesis
    using connections_balanced [OF _ _ demo_server_ok(2), of 2 "replicate 3 (5, new_InetAddress)"] by simp
qed

text \<open>Starting the server.  With a positive number of threads \<open>start\<close> creates exactly that many idle loops
  and the server can take connections; but only if the uninitialised \<open>started_\<close> of the pool happens to be
  false: otherwise the assertion fails.\<close>

theorem server_start_result:
  assumes "0 < n"
  shows "server_start True False (new_TcpServer g pool_g n0 n) =
      (if pool_g then Inl Assert_failed
       else Inr \<lparr>sv_started = True, sv_pool = \<lparr>lp_numThreads = n, lp_started = True, lp_loops = replicate (nat n) (new_EventLoop False)\<rparr>, sv_conns = []\<rparr>)
    \<and> (\<not> pool_g \<longrightarrow> (\<exists>s. server_start True False (new_TcpServer g pool_g n0 n) = Inr s \<and> settled s \<and> loads s = replicate (nat n) 0))"
  using assms
  by (auto simp: server_start_def new_TcpServer_def new_EventLoopThreadPool_def pool_setThreadNum_def pool_start_def
      assertInLoopThread_def map_replicate_const settled_def serving_def loads_def connectSize_def new_EventLoop_def Let_def)

theorem server_start_result_witness:
  "\<exists>s. server_start True False (new_TcpServer False False 0 4) = Inr s \<and> settled s \<and> loads s = [0, 0, 0, 0]"
  using server_start_result [of 4 False False 0] by (auto simp: numeral_eq_Suc)

end
