(* ===== verification/Blocking_Queue.thy ===== *)
theory Blocking_Queue
  imports Adl_Prelude
begin

text \<open>
  \<open>src/src/base/BlockingQueue.h\<close> and \<open>BoundedBlockingQueue.h\<close>.  The mutex makes the code between two
  waits atomic.  A thread that waits on a condition variable is counted in \<open>sleeping\<close>; a notification
  (or a spurious wake-up) moves one thread to \<open>awake\<close>, from where it takes the mutex and tests its
  condition again.  The histories of what was put and taken serve the statements only.
\<close>

section \<open>Condition variables\<close>

record condvar =
  cv_sleeping :: nat
  cv_awake :: nat

definition new_cv :: condvar where
  "new_cv = \<lparr>cv_sleeping = 0, cv_awake = 0\<rparr>"

definition cv_wait :: "condvar \<Rightarrow> condvar" where
  "cv_wait v = v\<lparr>cv_sleeping := Suc (cv_sleeping v)\<rparr>"

definition notify_one :: "condvar \<Rightarrow> condvar" where
  "notify_one v = (if cv_sleeping v > 0 then v\<lparr>cv_sleeping := cv_sleeping v - 1, cv_awake := Suc (cv_awake v)\<rparr> else v)"

text \<open>A woken thread runs.\<close>

definition cv_resume :: "condvar \<Rightarrow> condvar" where
  "cv_resume v = v\<lparr>cv_awake := cv_awake v - 1\<rparr>"

text \<open>No thread sleeps while there is more to do than threads awake to do it.\<close>

definition served :: "nat \<Rightarrow> condvar \<Rightarrow> bool" where
  "served n v \<longleftrightarrow> (cv_sleeping v > 0 \<longrightarrow> n \<le> cv_awake v)"

lemma served_notify: "served n v \<Longrightarrow> served (Suc n) (notify_one v)" "served n v \<Longrightarrow> served n (notify_one v)"
  by (auto simp: served_def notify_one_def)

lemma served_less: "served n v \<Longrightarrow> m \<le> n \<Longrightarrow> served m v"
  by (auto simp: served_def)

lemma served_resume: "served (Suc n) v \<Longrightarrow> served n (cv_resume v)"
  by (auto simp: served_def cv_resume_def)

lemma served_wait: "served 0 (cv_wait v)"
  by (simp add: served_def)

section \<open>BlockingQueue\<close>

record 'a bqueue =
  bq_queue :: "'a list"
  bq_notEmpty :: condvar
  bq_puts :: "'a list"
  bq_takes :: "'a list"

definition new_BlockingQueue :: "'a bqueue" where
  "new_BlockingQueue = \<lparr>bq_queue = [], bq_notEmpty = new_cv, bq_puts = [], bq_takes = []\<rparr>"

definition bq_put :: "'a \<Rightarrow> 'a bqueue \<Rightarrow> 'a bqueue" where
  "bq_put x q = q\<lparr>bq_queue := bq_queue q @ [x], bq_notEmpty := notify_one (bq_notEmpty q), bq_puts := bq_puts q @ [x]\<rparr>"

text \<open>\<open>take\<close> from the loop test on: it takes an item or goes to sleep.\<close>

definition bq_take :: "'a bqueue \<Rightarrow> 'a bqueue result" where
  "bq_take q =
     (if bq_queue q = [] then Inr (q\<lparr>bq_notEmpty := cv_wait (bq_notEmpty q)\<rparr>)
      else bind_res (cassert (bq_queue q \<noteq> [])) (\<lambda>_.
        Inr (q\<lparr>bq_queue := tl (bq_queue q), bq_takes := bq_takes q @ [hd (bq_queue q)]\<rparr>)))"

definition bq_size :: "'a bqueue \<Rightarrow> nat" where
  "bq_size q = length (bq_queue q)"

inductive bq_step :: "'a bqueue \<Rightarrow> 'a bqueue \<Rightarrow> bool" where
  put: "bq_step q (bq_put x q)"
| take: "bq_take q = Inr q' \<Longrightarrow> bq_step q q'"
| retake: "cv_awake (bq_notEmpty q) > 0 \<Longrightarrow> bq_take (q\<lparr>bq_notEmpty := cv_resume (bq_notEmpty q)\<rparr>) = Inr q' \<Longrightarrow> bq_step q q'"
| spurious: "bq_step q (q\<lparr>bq_notEmpty := notify_one (bq_notEmpty q)\<rparr>)"

inductive_cases bq_stepE: "bq_step q q'"

definition bq_inv :: "'a bqueue \<Rightarrow> bool" where
  "bq_inv q \<longleftrightarrow> bq_puts q = bq_takes q @ bq_queue q \<and> served (length (bq_queue q)) (bq_notEmpty q)"

lemma served_tl: "served (length xs) v \<Longrightarrow> served (length xs - Suc 0) v"
  by (erule served_less) simp

lemma served_tl_resume: "xs \<noteq> [] \<Longrightarrow> served (length xs) v \<Longrightarrow> served (length xs - Suc 0) (cv_resume v)"
  by (cases xs) (auto intro: served_resume)

lemma bq_step_inv: "bq_inv q \<Longrightarrow> bq_step q q' \<Longrightarrow> bq_inv q'"
  by (erule bq_stepE)
    (auto simp: bq_inv_def bq_put_def bq_take_def served_notify served_wait served_tl served_tl_resume split: if_splits)

lemma bq_inv_init: "bq_inv new_BlockingQueue"
  by (simp add: bq_inv_def new_BlockingQueue_def new_cv_def served_def)

interpretation bq: invariant_system "\<lambda>q. q = new_BlockingQueue" bq_step bq_inv
  by unfold_locales (auto simp: bq_inv_init intro: bq_step_inv)

section \<open>BoundedBlockingQueue\<close>

record 'a bbqueue =
  bb_queue :: "'a list"
  bb_capacity :: nat
  bb_notEmpty :: condvar
  bb_notFull :: condvar
  bb_puts :: "'a list"
  bb_takes :: "'a list"

definition new_BoundedBlockingQueue :: "nat \<Rightarrow> 'a bbqueue" where
  "new_BoundedBlockingQueue maxSize =
     \<lparr>bb_queue = [], bb_capacity = maxSize, bb_notEmpty = new_cv, bb_notFull = new_cv, bb_puts = [], bb_takes = []\<rparr>"

definition bb_full :: "'a bbqueue \<Rightarrow> bool" where
  "bb_full q \<longleftrightarrow> length (bb_queue q) = bb_capacity q"

definition bb_empty :: "'a bbqueue \<Rightarrow> bool" where
  "bb_empty q \<longleftrightarrow> bb_queue q = []"

definition bb_put :: "'a \<Rightarrow> 'a bbqueue \<Rightarrow> 'a bbqueue result" where
  "bb_put x q =
     (if bb_full q then Inr (q\<lparr>bb_notFull := cv_wait (bb_notFull q)\<rparr>)
      else bind_res (cassert (\<not> bb_full q)) (\<lambda>_.
        Inr (q\<lparr>bb_queue := bb_queue q @ [x], bb_notEmpty := notify_one (bb_notEmpty q), bb_puts := bb_puts q @ [x]\<rparr>)))"

definition bb_take :: "'a bbqueue \<Rightarrow> 'a bbqueue result" where
  "bb_take q =
     (if bb_empty q then Inr (q\<lparr>bb_notEmpty := cv_wait (bb_notEmpty q)\<rparr>)
      else bind_res (cassert (\<not> bb_empty q)) (\<lambda>_.
        Inr (q\<lparr>bb_queue := tl (bb_queue q), bb_notFull := notify_one (bb_notFull q), bb_takes := bb_takes q @ [hd (bb_queue q)]\<rparr>)))"

text \<open>\<open>size()\<close> and \<open>capacity()\<close> are declared to return \<open>bool\<close>.\<close>

definition bb_size :: "'a bbqueue \<Rightarrow> bool" where
  "bb_size q \<longleftrightarrow> length (bb_queue q) \<noteq> 0"

definition bb_cap :: "'a bbqueue \<Rightarrow> bool" where
  "bb_cap q \<longleftrightarrow> bb_capacity q \<noteq> 0"

inductive bb_step :: "'a bbqueue \<Rightarrow> 'a bbqueue \<Rightarrow> bool" where
  put: "bb_put x q = Inr q' \<Longrightarrow> bb_step q q'"
| reput: "cv_awake (bb_notFull q) > 0 \<Longrightarrow> bb_put x (q\<lparr>bb_notFull := cv_resume (bb_notFull q)\<rparr>) = Inr q' \<Longrightarrow> bb_step q q'"
| take: "bb_take q = Inr q' \<Longrightarrow> bb_step q q'"
| retake: "cv_awake (bb_notEmpty q) > 0 \<Longrightarrow> bb_take (q\<lparr>bb_notEmpty := cv_resume (bb_notEmpty q)\<rparr>) = Inr q' \<Longrightarrow> bb_step q q'"
| spurious_take: "bb_step q (q\<lparr>bb_notEmpty := notify_one (bb_notEmpty q)\<rparr>)"
| spurious_put: "bb_step q (q\<lparr>bb_notFull := notify_one (bb_notFull q)\<rparr>)"

inductive_cases bb_stepE: "bb_step q q'"

definition bb_inv :: "nat \<Rightarrow> 'a bbqueue \<Rightarrow> bool" where
  "bb_inv cap q \<longleftrightarrow> bb_capacity q = cap \<and> length (bb_queue q) \<le> cap \<and> bb_puts q = bb_takes q @ bb_queue q
     \<and> served (length (bb_queue q)) (bb_notEmpty q) \<and> served (cap - length (bb_queue q)) (bb_notFull q)"

lemma served_free: "n < cap \<Longrightarrow> served (cap - n) v \<Longrightarrow> served (cap - Suc n) (cv_resume v)"
  using served_resume [of "cap - Suc n" v] by (simp add: Suc_diff_Suc)

lemma served_freed: "xs \<noteq> [] \<Longrightarrow> length xs \<le> cap \<Longrightarrow> served (cap - length xs) v \<Longrightarrow> served (cap - (length xs - Suc 0)) (notify_one v)"
  using served_notify(1) [of "cap - length xs" v] by (cases xs) (auto simp: Suc_diff_Suc)

lemma bb_put_inv:
  assumes "bb_inv cap q" "bb_put x q = Inr q'"
  shows "bb_inv cap q'"
  using assms by (auto simp: bb_inv_def bb_put_def bb_full_def served_notify served_wait intro: served_less split: if_splits)

lemma bb_step_inv: "bb_inv cap q \<Longrightarrow> bb_step q q' \<Longrightarrow> bb_inv cap q'"
proof (erule bb_stepE)
  fix x assume "bb_inv cap q" "cv_awake (bb_notFull q) > 0" "bb_put x (q\<lparr>bb_notFull := cv_resume (bb_notFull q)\<rparr>) = Inr q'"
  then show "bb_inv cap q'"
    using served_free [of "length (bb_queue q)" cap "bb_notFull q"]
    by (auto simp: bb_inv_def bb_put_def bb_full_def served_notify served_wait split: if_splits)
next
  fix x assume "bb_inv cap q" "bb_put x q = Inr q'"
  then show "bb_inv cap q'" by (rule bb_put_inv)
next
  assume "bb_inv cap q" "bb_take q = Inr q'"
  then show "bb_inv cap q'"
    by (auto simp: bb_inv_def bb_take_def bb_empty_def served_wait served_tl served_freed split: if_splits)
next
  assume "bb_inv cap q" "cv_awake (bb_notEmpty q) > 0" "bb_take (q\<lparr>bb_notEmpty := cv_resume (bb_notEmpty q)\<rparr>) = Inr q'"
  then show "bb_inv cap q'"
    by (auto simp: bb_inv_def bb_take_def bb_empty_def served_wait served_tl_resume served_freed split: if_splits)
qed (auto simp: bb_inv_def served_notify)

lemma bb_inv_init: "bb_inv cap (new_BoundedBlockingQueue cap)"
  by (simp add: bb_inv_def new_BoundedBlockingQueue_def new_cv_def served_def)

interpretation bb: invariant_system "\<lambda>q. q = new_BoundedBlockingQueue cap" bb_step "bb_inv cap" for cap
  by unfold_locales (auto simp: bb_inv_init intro: bb_step_inv)

section \<open>Properties\<close>

text \<open>The unbounded queue.  In every interleaving of putting and taking threads, what was taken followed
  by what is in the queue is what was put, in order; and a thread never sleeps in \<open>take\<close> while there
  are more items than woken threads on their way to them.\<close>

theorem blocking_queue_fifo:
  assumes "reachable (\<lambda>q. q = new_BlockingQueue) bq_step q"
  shows "bq_puts q = bq_takes q @ bq_queue q
    \<and> (cv_sleeping (bq_notEmpty q) > 0 \<longrightarrow> bq_size q \<le> cv_awake (bq_notEmpty q))"
  using bq.inv_reachable [OF assms] by (simp add: bq_inv_def served_def bq_size_def)

theorem blocking_queue_fifo_witness:
  "bq_puts (bq_put (3 :: nat) new_BlockingQueue) = [] @ [3]"
proof -
  have "reachable (\<lambda>q. q = new_BlockingQueue) bq_step (bq_put (3 :: nat) new_BlockingQueue)"
    by (rule reachable_step, rule reachable_init, rule refl) (rule bq_step.put)
  from blocking_queue_fifo [OF this] show ?thesis by (simp add: bq_put_def new_BlockingQueue_def)
qed

text \<open>C33: the bounded queue.  In every interleaving the queue never holds more than its capacity, items come
  out in the order they went in, no thread sleeps in \<open>take\<close> while there are more items than woken
  takers, and none sleeps in \<open>put\<close> while there are more free places than woken putters.\<close>

theorem bounded_queue_safe:
  assumes "reachable (\<lambda>q. q = new_BoundedBlockingQueue cap) bb_step q"
  shows "length (bb_queue q) \<le> cap \<and> bb_puts q = bb_takes q @ bb_queue q
    \<and> (cv_sleeping (bb_notEmpty q) > 0 \<longrightarrow> length (bb_queue q) \<le> cv_awake (bb_notEmpty q))
    \<and> (cv_sleeping (bb_notFull q) > 0 \<longrightarrow> cap - length (bb_queue q) \<le> cv_awake (bb_notFull q))"
  using bb.inv_reachable [OF assms] by (auto simp: bb_inv_def served_def)

theorem bounded_queue_safe_witness:
  "\<exists>q. bb_put (3 :: nat) (new_BoundedBlockingQueue 1) = Inr q \<and> length (bb_queue q) \<le> 1 \<and> bb_full q"
proof -
  obtain q where q: "bb_put (3 :: nat) (new_BoundedBlockingQueue 1) = Inr q" "bb_full q"
    by (simp add: bb_put_def bb_full_def new_BoundedBlockingQueue_def)
  then have "reachable (\<lambda>q. q = new_BoundedBlockingQueue 1) bb_step q"
    by (intro reachable_step [OF reachable_init [of "\<lambda>q. q = new_BoundedBlockingQueue 1"]]) (auto intro: bb_step.put)
  from bounded_queue_safe [OF this] q show ?thesis by auto
qed

end
