(* ===== verification/Thread_Pool.thy ===== *)
theory Thread_Pool
  imports Adl_Prelude "HOL-Library.Multiset"
begin

text \<open>
  \<open>src/src/base/threadPool.h\<close>: workers that take tasks from a queue under a mutex, \<open>addTask\<close>, and the
  destructor.  One step is what a thread does between two points where another thread can run.  A
  worker that has evaluated the condition of \<open>wait\<close> and is about to sleep (\<open>W_going_to_sleep\<close>) still
  holds the mutex; the destructor changes \<open>running_state\<close> without it.  \<open>tp_done\<close> are the tasks that have returned, which
  is when the future \<open>addTask\<close> gave to the caller becomes ready; \<open>tp_notify\<close> counts the calls of \<open>addTask\<close> that have
  pushed their task and not called \<open>notify_one\<close> yet.
\<close>

section \<open>State and steps\<close>

text \<open>A worker with a task goes through three points without the mutex: before \<open>idlThrNum--\<close> (\<open>W_taken\<close>), before \<open>task()\<close>
  (\<open>W_busy\<close>) and before \<open>idlThrNum++\<close> (\<open>W_ran\<close>).\<close>

datatype 't wpc = W_test | W_wait | W_going_to_sleep | W_asleep | W_taken 't | W_busy 't | W_ran | W_exited

datatype dtor_pc = D_not_called | D_cleared | D_joining

record 't tpool =
  tp_size :: nat
  tp_tasks :: "'t list"
  tp_running :: bool
  tp_idle :: int
  tp_pc :: "nat \<Rightarrow> 't wpc"
  tp_dtor :: dtor_pc
  tp_calls :: "'t list"
  tp_added :: "'t list"
  tp_taken :: "'t list"
  tp_done :: "'t list"
  tp_notify :: nat

definition new_threadPool :: "nat \<Rightarrow> 't tpool" where
  "new_threadPool n =
     (let m = (if n < 1 then 1 else n)
      in \<lparr>tp_size = m, tp_tasks = [], tp_running = True, tp_idle = int m, tp_pc = (\<lambda>_. W_test),
          tp_dtor = D_not_called, tp_calls = [], tp_added = [], tp_taken = [], tp_done = [], tp_notify = 0\<rparr>)"

definition set_pc :: "nat \<Rightarrow> 't wpc \<Rightarrow> 't tpool \<Rightarrow> 't tpool" where
  "set_pc i p s = s\<lparr>tp_pc := (tp_pc s)(i := p)\<rparr>"

text \<open>The mutex is held by a worker that is about to sleep.\<close>

definition mutex_free :: "'t tpool \<Rightarrow> bool" where
  "mutex_free s \<longleftrightarrow> (\<forall>i < tp_size s. tp_pc s i \<noteq> W_going_to_sleep)"

text \<open>\<open>while (this->running_state)\<close>\<close>

definition worker_test :: "nat \<Rightarrow> 't tpool \<Rightarrow> 't tpool" where
  "worker_test i s = set_pc i (if tp_running s then W_wait else W_exited) s"

text \<open>With the mutex: the condition of \<open>wait\<close>, the test for the end, or taking a task.\<close>

definition worker_take :: "nat \<Rightarrow> 't tpool \<Rightarrow> 't tpool" where
  "worker_take i s =
     (if \<not> tp_running s \<or> tp_tasks s \<noteq> []
      then if \<not> tp_running s \<and> tp_tasks s = [] then set_pc i W_exited s
           else set_pc i (W_taken (hd (tp_tasks s)))
                  (s\<lparr>tp_tasks := tl (tp_tasks s), tp_taken := tp_taken s @ [hd (tp_tasks s)]\<rparr>)
      else set_pc i W_going_to_sleep s)"

definition worker_busy :: "nat \<Rightarrow> 't \<Rightarrow> 't tpool \<Rightarrow> 't tpool" where
  "worker_busy i t s = set_pc i (W_busy t) (s\<lparr>tp_idle := tp_idle s - 1\<rparr>)"

text \<open>\<open>task()\<close> returns: the \<open>packaged_task\<close> has stored its result, or the exception.\<close>

definition worker_run :: "nat \<Rightarrow> 't \<Rightarrow> 't tpool \<Rightarrow> 't tpool" where
  "worker_run i t s = set_pc i W_ran (s\<lparr>tp_done := tp_done s @ [t]\<rparr>)"

definition worker_done :: "nat \<Rightarrow> 't tpool \<Rightarrow> 't tpool" where
  "worker_done i s = set_pc i W_test (s\<lparr>tp_idle := tp_idle s + 1\<rparr>)"

text \<open>\<open>addTask\<close>: first the test for a stopped pool, without the mutex, then the push under it; \<open>tp_calls\<close>
  are the calls in between.\<close>

definition addTask :: "'t \<Rightarrow> 't tpool \<Rightarrow> 't tpool result" where
  "addTask t s =
     (if \<not> tp_running s then Inl Invalid_argument else Inr (s\<lparr>tp_calls := tp_calls s @ [t]\<rparr>))"

definition addTask_push :: "'t \<Rightarrow> 't tpool \<Rightarrow> 't tpool" where
  "addTask_push t s = s\<lparr>tp_calls := remove1 t (tp_calls s), tp_tasks := tp_tasks s @ [t], tp_added := tp_added s @ [t],
     tp_notify := Suc (tp_notify s)\<rparr>"

text \<open>\<open>notify_one\<close>: one of the sleeping workers, if there is one.\<close>

definition pool_notify_one :: "nat option \<Rightarrow> 't tpool \<Rightarrow> 't tpool" where
  "pool_notify_one w s = (let s1 = s\<lparr>tp_notify := tp_notify s - 1\<rparr> in case w of None \<Rightarrow> s1 | Some i \<Rightarrow> set_pc i W_wait s1)"

definition may_wake :: "nat option \<Rightarrow> 't tpool \<Rightarrow> bool" where
  "may_wake w s = (case w of None \<Rightarrow> (\<forall>i < tp_size s. tp_pc s i \<noteq> W_asleep) | Some i \<Rightarrow> i < tp_size s \<and> tp_pc s i = W_asleep)"

text \<open>A sleeping worker may also wake up by itself; nothing counts on it once the destructor joins.\<close>

inductive tp_step :: "'t tpool \<Rightarrow> 't tpool \<Rightarrow> bool" where
  test: "i < tp_size s \<Longrightarrow> tp_pc s i = W_test \<Longrightarrow> tp_step s (worker_test i s)"
| take: "i < tp_size s \<Longrightarrow> tp_pc s i = W_wait \<Longrightarrow> mutex_free s \<Longrightarrow> tp_step s (worker_take i s)"
| sleep: "i < tp_size s \<Longrightarrow> tp_pc s i = W_going_to_sleep \<Longrightarrow> tp_step s (set_pc i W_asleep s)"
| busy: "i < tp_size s \<Longrightarrow> tp_pc s i = W_taken t \<Longrightarrow> tp_step s (worker_busy i t s)"
| run: "i < tp_size s \<Longrightarrow> tp_pc s i = W_busy t \<Longrightarrow> tp_step s (worker_run i t s)"
| finish: "i < tp_size s \<Longrightarrow> tp_pc s i = W_ran \<Longrightarrow> tp_step s (worker_done i s)"
| add: "addTask t s = Inr s' \<Longrightarrow> tp_step s s'"
| push: "t \<in> set (tp_calls s) \<Longrightarrow> mutex_free s \<Longrightarrow> tp_step s (addTask_push t s)"
| notify: "0 < tp_notify s \<Longrightarrow> may_wake w s \<Longrightarrow> tp_step s (pool_notify_one w s)"
| spurious: "i < tp_size s \<Longrightarrow> tp_pc s i = W_asleep \<Longrightarrow> tp_dtor s \<noteq> D_joining \<Longrightarrow> tp_step s (set_pc i W_wait s)"
| dtor_clear: "tp_dtor s = D_not_called \<Longrightarrow> tp_step s (s\<lparr>tp_running := False, tp_dtor := D_cleared\<rparr>)"
| notify_all: "tp_dtor s = D_cleared \<Longrightarrow>
    tp_step s (s\<lparr>tp_pc := (\<lambda>i. if tp_pc s i = W_asleep then W_wait else tp_pc s i), tp_dtor := D_joining\<rparr>)"

inductive_cases tp_stepE: "tp_step s s'"

section \<open>Invariant\<close>

text \<open>The tasks that workers hold, and the workers between \<open>idlThrNum--\<close> and \<open>idlThrNum++\<close>.\<close>

fun held :: "'t wpc \<Rightarrow> 't multiset" where
  "held (W_taken t) = {#t#}"
| "held (W_busy t) = {#t#}"
| "held _ = {#}"

fun counted :: "'t wpc \<Rightarrow> nat" where
  "counted (W_busy t) = 1"
| "counted W_ran = 1"
| "counted _ = 0"

definition held_tasks :: "'t tpool \<Rightarrow> 't multiset" where
  "held_tasks s = (\<Sum>i < tp_size s. held (tp_pc s i))"

definition counted_workers :: "'t tpool \<Rightarrow> nat" where
  "counted_workers s = (\<Sum>i < tp_size s. counted (tp_pc s i))"

definition awake :: "'t wpc \<Rightarrow> bool" where
  "awake p \<longleftrightarrow> p \<notin> {W_going_to_sleep, W_asleep, W_exited}"

definition tp_inv :: "'t tpool \<Rightarrow> bool" where
  "tp_inv s \<longleftrightarrow> tp_added s = tp_taken s @ tp_tasks s \<and> (tp_running s \<longleftrightarrow> tp_dtor s = D_not_called)
     \<and> mset (tp_taken s) = mset (tp_done s) + held_tasks s
     \<and> tp_idle s + int (counted_workers s) = int (tp_size s) \<and> 0 < tp_size s"

text \<open>A worker about to sleep has seen the queue empty under the mutex; while the pool runs nobody has left, and a task in the
  queue has a worker that will look or a notification on its way.\<close>

definition tp_live :: "'t tpool \<Rightarrow> bool" where
  "tp_live s \<longleftrightarrow> (\<forall>i < tp_size s. tp_pc s i = W_going_to_sleep \<longrightarrow> tp_tasks s = [])
     \<and> (tp_running s \<longrightarrow> (\<forall>i < tp_size s. tp_pc s i \<noteq> W_exited)
         \<and> (tp_tasks s \<noteq> [] \<longrightarrow> 0 < tp_notify s \<or> (\<exists>i < tp_size s. awake (tp_pc s i)))) \<and> 0 < tp_size s"

lemma set_pc_simps [simp]:
  "tp_size (set_pc i p s) = tp_size s" "tp_tasks (set_pc i p s) = tp_tasks s" "tp_running (set_pc i p s) = tp_running s"
  "tp_dtor (set_pc i p s) = tp_dtor s" "tp_added (set_pc i p s) = tp_added s" "tp_taken (set_pc i p s) = tp_taken s"
  "tp_pc (set_pc i p s) = (tp_pc s)(i := p)" "tp_calls (set_pc i p s) = tp_calls s" "tp_done (set_pc i p s) = tp_done s"
  "tp_idle (set_pc i p s) = tp_idle s" "tp_notify (set_pc i p s) = tp_notify s"
  by (simp_all add: set_pc_def)

lemma sum_update:
  fixes f :: "'a \<Rightarrow> 'b :: comm_monoid_add"
  assumes "i < (n :: nat)"
  shows "(\<Sum>j < n. f ((pc(i := p)) j)) + f (pc i) = (\<Sum>j < n. f (pc j)) + f p"
proof -
  have "(\<Sum>j \<in> {..<n} - {i}. f ((pc(i := p)) j)) = (\<Sum>j \<in> {..<n} - {i}. f (pc j))" by (intro sum.cong) auto
  then show ?thesis using assms
    by (simp add: sum.remove [of "{..<n}" i "\<lambda>j. f ((pc(i := p)) j)"] sum.remove [of "{..<n}" i "\<lambda>j. f (pc j)"] ac_simps fun_upd_same del: fun_upd_apply)
qed

lemma set_pc_sums:
  assumes "i < tp_size s"
  shows "held_tasks (set_pc i p s) + held (tp_pc s i) = held_tasks s + held p"
    "counted_workers (set_pc i p s) + counted (tp_pc s i) = counted_workers s + counted p"
  using sum_update [OF assms, where pc = "tp_pc s" and p = p] by (simp_all only: held_tasks_def counted_workers_def set_pc_simps)

lemma sums_cong:
  "tp_size s = tp_size s' \<Longrightarrow> tp_pc s = tp_pc s' \<Longrightarrow> held_tasks s = held_tasks s' \<and> counted_workers s = counted_workers s'"
  by (simp add: held_tasks_def counted_workers_def)

lemma set_pc_inv:
  assumes "i < tp_size s" "held (tp_pc s i) = held p" "counted (tp_pc s i) = counted p"
  shows "tp_inv (set_pc i p s) = tp_inv s"
  using set_pc_sums [OF assms(1), of p] assms(2,3) by (simp add: tp_inv_def)

lemma tp_step_inv:
  assumes "tp_inv s" "tp_step s s'"
  shows "tp_inv s'"
  using assms(2)
proof cases
  case (take i)
  show ?thesis
  proof (cases "tp_tasks s = []")
    case True
    with take assms(1) show ?thesis by (simp add: worker_take_def set_pc_inv)
  next
    case False
    let ?s = "s\<lparr>tp_tasks := tl (tp_tasks s), tp_taken := tp_taken s @ [hd (tp_tasks s)]\<rparr>"
    have "held_tasks ?s = held_tasks s \<and> counted_workers ?s = counted_workers s" by (rule sums_cong) simp_all
    with set_pc_sums [of i ?s "W_taken (hd (tp_tasks s))"] take False assms(1) show ?thesis by (simp add: worker_take_def tp_inv_def)
  qed
next
  case (busy i t)
  let ?s = "s\<lparr>tp_idle := tp_idle s - 1\<rparr>"
  have "held_tasks ?s = held_tasks s \<and> counted_workers ?s = counted_workers s" by (rule sums_cong) simp_all
  with set_pc_sums [of i ?s "W_busy t"] busy assms(1) show ?thesis by (simp add: worker_busy_def tp_inv_def)
next
  case (run i t)
  let ?s = "s\<lparr>tp_done := tp_done s @ [t]\<rparr>"
  have "held_tasks ?s = held_tasks s \<and> counted_workers ?s = counted_workers s" by (rule sums_cong) simp_all
  with set_pc_sums [of i ?s W_ran] run assms(1) show ?thesis by (simp add: worker_run_def tp_inv_def)
next
  case (finish i)
  let ?s = "s\<lparr>tp_idle := tp_idle s + 1\<rparr>"
  have "held_tasks ?s = held_tasks s \<and> counted_workers ?s = counted_workers s" by (rule sums_cong) simp_all
  with set_pc_sums [of i ?s W_test] finish assms(1) show ?thesis by (simp add: worker_done_def tp_inv_def)
next
  case (notify w)
  have "held_tasks (s\<lparr>tp_notify := k\<rparr>) = held_tasks s \<and> counted_workers (s\<lparr>tp_notify := k\<rparr>) = counted_workers s" for k
    by (rule sums_cong) simp_all
  with assms(1) have "tp_inv (s\<lparr>tp_notify := tp_notify s - 1\<rparr>)" by (simp add: tp_inv_def)
  with notify show ?thesis by (auto simp: pool_notify_one_def may_wake_def set_pc_inv split: option.splits)
next
  case (push t)
  then have "held_tasks s' = held_tasks s \<and> counted_workers s' = counted_workers s" by (intro sums_cong) (simp_all add: addTask_push_def)
  with assms(1) push show ?thesis by (simp add: tp_inv_def addTask_push_def)
next
  case (add t)
  then have "held_tasks s' = held_tasks s \<and> counted_workers s' = counted_workers s"
    by (intro sums_cong) (auto simp: addTask_def split: if_splits)
  with assms(1) add show ?thesis by (auto simp: addTask_def tp_inv_def split: if_splits)
next
  case notify_all
  then have "held_tasks s' = held_tasks s" "counted_workers s' = counted_workers s"
    by (auto simp: held_tasks_def counted_workers_def intro!: sum.cong)
  with assms(1) notify_all show ?thesis by (simp add: tp_inv_def)
next
  case dtor_clear
  then have "held_tasks s' = held_tasks s \<and> counted_workers s' = counted_workers s" by (intro sums_cong) simp_all
  with assms(1) dtor_clear show ?thesis by (simp add: tp_inv_def)
qed (insert assms(1), simp_all add: worker_test_def set_pc_inv)

lemma tp_step_live:
  assumes "tp_live s" "tp_step s s'"
  shows "tp_live s'"
  using assms(2)
proof cases
  case (take i)
  with assms(1) show ?thesis
    by (auto simp: worker_take_def tp_live_def awake_def mutex_free_def)
next
  case (push t)
  with assms(1) show ?thesis by (auto simp: tp_live_def addTask_push_def mutex_free_def)
next
  case (notify w)
  with assms(1) show ?thesis
    by (auto simp: pool_notify_one_def may_wake_def tp_live_def awake_def Let_def split: option.splits)
qed (insert assms(1), auto simp: tp_live_def awake_def worker_test_def worker_busy_def worker_run_def worker_done_def addTask_def split: if_splits)

lemma tp_inv_init: "tp_inv (new_threadPool n) \<and> tp_live (new_threadPool n)"
  by (simp add: tp_inv_def tp_live_def held_tasks_def counted_workers_def new_threadPool_def Let_def)

interpretation tp: invariant_system "\<lambda>s. s = new_threadPool n" tp_step "\<lambda>s. tp_inv s \<and> tp_live s" for n
  by unfold_locales (auto simp: tp_inv_init intro: tp_step_inv tp_step_live)

section \<open>Properties\<close>

lemma new_threadPool_simps [simp]:
  "tp_running (new_threadPool n)" "tp_dtor (new_threadPool n) = D_not_called" "tp_tasks (new_threadPool n) = []"
  "tp_pc (new_threadPool n) = (\<lambda>_. W_test)" "0 < tp_size (new_threadPool n)" "tp_added (new_threadPool n) = []"
  "mutex_free (new_threadPool n)" "tp_size (new_threadPool (Suc 0)) = Suc 0" "tp_calls (new_threadPool n) = []" "tp_notify (new_threadPool n) = 0"
  by (simp_all add: new_threadPool_def Let_def mutex_free_def)

text \<open>C34: the pool keeps its tasks.  In every interleaving of workers, callers of \<open>addTask\<close> and the destructor: the tasks
  taken by workers followed by those still queued are exactly the tasks added, in order; the tasks taken are those whose
  futures are ready and those workers hold, each once; \<open>idlThrNum\<close> is the number of workers that are not between their
  \<open>idlThrNum--\<close> and their \<open>idlThrNum++\<close> (a worker that has just taken a task still counts as idle, one whose task has just returned
  does not yet); while the pool runs, a queued task has a worker that is awake or a notification on its way; and a call of
  \<open>addTask\<close> that starts after the destructor has is refused.\<close>

theorem pool_tasks_in_order:
  assumes "reachable (\<lambda>s. s = new_threadPool n) tp_step s"
  shows "tp_added s = tp_taken s @ tp_tasks s
    \<and> mset (tp_taken s) = mset (tp_done s) + held_tasks s
    \<and> tp_idle s = int (tp_size s) - int (counted_workers s)
    \<and> (tp_running s \<and> tp_tasks s \<noteq> [] \<longrightarrow> 0 < tp_notify s \<or> (\<exists>i < tp_size s. awake (tp_pc s i)))
    \<and> (tp_dtor s \<noteq> D_not_called \<longrightarrow> addTask t s = Inl Invalid_argument)"
  using tp.inv_reachable [OF assms] by (auto simp: tp_inv_def tp_live_def addTask_def)

text \<open>Two tasks are added and the first worker takes and begins one of them.\<close>

theorem pool_tasks_in_order_witness:
  "\<exists>s :: nat tpool. reachable (\<lambda>s. s = new_threadPool 2) tp_step s \<and> tp_pc s 0 = W_busy 7 \<and> tp_added s = [7, 8] \<and> tp_taken s = [7]
    \<and> tp_tasks s = [8] \<and> tp_idle s = 1 \<and> held_tasks s = {#7#}"
proof -
  let ?R = "reachable (\<lambda>s :: nat tpool. s = new_threadPool 2) tp_step"
  let ?s0 = "new_threadPool 2 :: nat tpool"
  let ?s1 = "worker_test 0 ?s0"
  let ?s2 = "?s1\<lparr>tp_calls := [7]\<rparr>"
  let ?s3 = "?s2\<lparr>tp_calls := [7, 8]\<rparr>"
  let ?s4 = "addTask_push 8 (addTask_push 7 ?s3)"
  let ?s5 = "worker_take 0 ?s4"
  let ?s6 = "worker_busy 0 7 ?s5"
  have ev: "tp_running ?s0" "tp_size ?s0 = 2" "tp_pc ?s0 = (\<lambda>_. W_test)" "mutex_free ?s1" by (simp_all add: new_threadPool_def mutex_free_def worker_test_def)
  have "?R ?s0" by (rule reachable_init) simp
  then have "?R ?s1" by (rule reachable_step) (auto intro!: tp_step.test simp: ev)
  then have "?R ?s2" by (rule reachable_step) (rule tp_step.add [of 7], simp add: addTask_def worker_test_def)
  then have "?R ?s3" by (rule reachable_step) (rule tp_step.add [of 8], simp add: addTask_def worker_test_def)
  then have "?R (addTask_push 7 ?s3)"
    by (rule reachable_step) (rule tp_step.push, simp_all add: mutex_free_def worker_test_def)
  then have "?R ?s4" by (rule reachable_step) (rule tp_step.push, simp_all add: mutex_free_def worker_test_def addTask_push_def)
  then have "?R ?s5" by (rule reachable_step) (rule tp_step.take, simp_all add: mutex_free_def worker_test_def addTask_push_def ev)
  then have r: "?R ?s6"
    by (rule reachable_step) (rule tp_step.busy, simp_all add: worker_take_def worker_test_def addTask_push_def ev)
  have "tp_pc ?s6 0 = W_busy 7" "tp_done ?s6 = []" "tp_taken ?s6 = [7]" "tp_tasks ?s6 = [8]" "tp_idle ?s6 = 1"
    by (simp_all add: worker_busy_def worker_take_def worker_test_def addTask_push_def new_threadPool_def)
  with r pool_tasks_in_order [OF r] show ?thesis by (intro exI [of _ ?s6]) simp
qed

text \<open>The destructor can throw tasks away.  A comment in the worker says that remaining tasks are executed
  before the pool ends; there is a run of a pool with one worker in which a task is accepted, the
  destructor runs, the worker exits and the task is still in the queue.\<close>

theorem pool_drops_tasks:
  "\<exists>s. reachable (\<lambda>s. s = new_threadPool 1) tp_step s \<and> tp_dtor s = D_joining \<and> (\<forall>i < tp_size s. tp_pc s i = W_exited)
    \<and> tp_added s = [t] \<and> tp_taken s = []"
proof -
  let ?R = "reachable (\<lambda>s. s = new_threadPool 1) tp_step"
  let ?s0 = "new_threadPool 1"
  let ?s1 = "addTask_push t (?s0\<lparr>tp_calls := [t]\<rparr>)"
  let ?s2 = "?s1\<lparr>tp_running := False, tp_dtor := D_cleared\<rparr>"
  let ?s3 = "?s2\<lparr>tp_pc := (\<lambda>i. if tp_pc ?s2 i = W_asleep then W_wait else tp_pc ?s2 i), tp_dtor := D_joining\<rparr>"
  have "?R ?s0" by (rule reachable_init) simp
  then have "?R (?s0\<lparr>tp_calls := [t]\<rparr>)" by (rule reachable_step) (rule tp_step.add [of t], simp add: addTask_def)
  then have "?R ?s1" by (rule reachable_step) (rule tp_step.push, simp_all add: mutex_free_def)
  then have "?R ?s2" by (rule reachable_step) (rule tp_step.dtor_clear, simp add: addTask_push_def)
  then have "?R ?s3" by (rule reachable_step) (rule tp_step.notify_all, simp)
  then have "?R (worker_test 0 ?s3)" by (rule reachable_step) (rule tp_step.test, simp_all add: addTask_push_def)
  then show ?thesis
    by (intro exI [of _ "worker_test 0 ?s3"]) (simp add: worker_test_def addTask_push_def new_threadPool_def)
qed

text \<open>The destructor can hang.  \<open>running_state\<close> is cleared without the mutex: there is a run in which the
  worker has just found the condition of \<open>wait\<close> false, the destructor clears the flag and notifies
  nobody, and the worker then sleeps; from there no step of the pool changes anything while the
  destructor joins that worker.\<close>

theorem pool_destructor_hangs:
  "\<exists>s :: 't tpool. reachable (\<lambda>s. s = new_threadPool 1) tp_step s \<and> tp_dtor s = D_joining \<and> tp_pc s 0 = W_asleep
    \<and> (\<forall>s'. \<not> tp_step s s')"
proof -
  let ?R = "reachable (\<lambda>s :: 't tpool. s = new_threadPool 1) tp_step"
  let ?s1 = "worker_test 0 (new_threadPool 1 :: 't tpool)"
  let ?s2 = "worker_take 0 ?s1"
  let ?s3 = "?s2\<lparr>tp_running := False, tp_dtor := D_cleared\<rparr>"
  let ?s4 = "?s3\<lparr>tp_pc := (\<lambda>i. if tp_pc ?s3 i = W_asleep then W_wait else tp_pc ?s3 i), tp_dtor := D_joining\<rparr>"
  let ?s5 = "set_pc 0 W_asleep ?s4"
  have "?R (new_threadPool 1)" by (rule reachable_init) simp
  then have "?R ?s1" by (rule reachable_step) (rule tp_step.test, simp_all)
  then have "?R ?s2" by (rule reachable_step) (rule tp_step.take, simp_all add: worker_test_def mutex_free_def)
  then have "?R ?s3" by (rule reachable_step) (rule tp_step.dtor_clear, simp add: worker_take_def worker_test_def)
  then have "?R ?s4" by (rule reachable_step) (rule tp_step.notify_all, simp)
  then have "?R ?s5" by (rule reachable_step) (rule tp_step.sleep, simp_all add: worker_take_def worker_test_def)
  moreover have "\<not> tp_step ?s5 s'" for s'
    by (auto elim!: tp_stepE simp: worker_take_def worker_test_def addTask_def split: if_splits)
  ultimately show ?thesis by (intro exI [of _ ?s5]) simp
qed

end
