(* ===== verification/Singleton.thy ===== *)
theory Singleton
  imports Adl_Prelude
begin

text \<open>
  \<open>src/src/base/Singleton.hpp\<close>: six ways to make an object on first use.  The double-checked ones run on
  a machine with release/acquire views: the stores to \<open>m_instance\<close> form a history, a load may return
  any store that is not older than what its thread has seen, and a store passes the writer's view on
  only through a release and an acquire (or the mutex).  A view is the newest store seen and the set
  of objects whose construction is visible.
\<close>

section \<open>Views\<close>

record view =
  vw_time :: nat
  vw_objs :: "nat set"

definition join :: "view \<Rightarrow> view \<Rightarrow> view" where
  "join v w = \<lparr>vw_time = max (vw_time v) (vw_time w), vw_objs = vw_objs v \<union> vw_objs w\<rparr>"

definition view_le :: "view \<Rightarrow> view \<Rightarrow> bool" where
  "view_le v w \<longleftrightarrow> vw_time v \<le> vw_time w \<and> vw_objs v \<subseteq> vw_objs w"

definition bottom_view :: view where
  "bottom_view = \<lparr>vw_time = 0, vw_objs = {}\<rparr>"

lemma join_sel [simp]:
  "vw_time (join v w) = max (vw_time v) (vw_time w)" "vw_objs (join v w) = vw_objs v \<union> vw_objs w"
  by (simp_all add: join_def)

section \<open>Shared state and memory operations\<close>

text \<open>Where a thread is inside \<open>getInstance\<close>; \<open>G_done p\<close> has returned the pointer \<open>p\<close>.\<close>

datatype gpc =
    G_load | G_fence "nat option" | G_lock | G_recheck | G_new | G_built nat | G_store nat | G_unlock nat | G_done nat

record singleton =
  sg_history :: "(nat option \<times> view) list"
  sg_mutex :: "nat option"
  sg_mutex_view :: view
  sg_view :: "nat \<Rightarrow> view"
  sg_acq :: "nat \<Rightarrow> view"
  sg_rel :: "nat \<Rightarrow> view"
  sg_created :: nat
  sg_pc :: "nat \<Rightarrow> gpc"

text \<open>\<open>m_instance\<close> is a static object and starts as a null pointer.\<close>

definition m_instance_init :: singleton where
  "m_instance_init =
     \<lparr>sg_history = [(None, bottom_view)], sg_mutex = None, sg_mutex_view = bottom_view,
      sg_view = (\<lambda>_. bottom_view), sg_acq = (\<lambda>_. bottom_view), sg_rel = (\<lambda>_. bottom_view),
      sg_created = 0, sg_pc = (\<lambda>_. G_load)\<rparr>"

definition can_read :: "singleton \<Rightarrow> nat \<Rightarrow> nat \<Rightarrow> bool" where
  "can_read s i n \<longleftrightarrow> vw_time (sg_view s i) \<le> n \<and> n < length (sg_history s)"

abbreviation goto :: "nat \<Rightarrow> gpc \<Rightarrow> singleton \<Rightarrow> singleton" where
  "goto i pc s \<equiv> s\<lparr>sg_pc := (sg_pc s)(i := pc)\<rparr>"

definition load_relaxed :: "nat \<Rightarrow> nat \<Rightarrow> singleton \<Rightarrow> nat option \<times> singleton" where
  "load_relaxed i n s =
     (let (x, m) = sg_history s ! n
      in (x, s\<lparr>sg_view := (sg_view s)(i := (sg_view s i)\<lparr>vw_time := n\<rparr>), sg_acq := (sg_acq s)(i := join (sg_acq s i) m)\<rparr>))"

definition fence_acquire :: "nat \<Rightarrow> singleton \<Rightarrow> singleton" where
  "fence_acquire i s = s\<lparr>sg_view := (sg_view s)(i := join (sg_view s i) (sg_acq s i))\<rparr>"

definition load_acquire :: "nat \<Rightarrow> nat \<Rightarrow> singleton \<Rightarrow> nat option \<times> singleton" where
  "load_acquire i n s =
     (let (x, m) = sg_history s ! n
      in (x, s\<lparr>sg_view := (sg_view s)(i := join ((sg_view s i)\<lparr>vw_time := n\<rparr>) m)\<rparr>))"

definition fence_release :: "nat \<Rightarrow> singleton \<Rightarrow> singleton" where
  "fence_release i s = s\<lparr>sg_rel := (sg_rel s)(i := sg_view s i)\<rparr>"

definition store_with :: "(nat \<Rightarrow> view) \<Rightarrow> nat \<Rightarrow> nat option \<Rightarrow> singleton \<Rightarrow> singleton" where
  "store_with m i x s =
     (let t = length (sg_history s)
      in s\<lparr>sg_history := sg_history s @ [(x, (m i)\<lparr>vw_time := t\<rparr>)], sg_view := (sg_view s)(i := (sg_view s i)\<lparr>vw_time := t\<rparr>)\<rparr>)"

definition store_relaxed :: "nat \<Rightarrow> nat option \<Rightarrow> singleton \<Rightarrow> singleton" where
  "store_relaxed i x s = store_with (sg_rel s) i x s"

definition store_release :: "nat \<Rightarrow> nat option \<Rightarrow> singleton \<Rightarrow> singleton" where
  "store_release i x s = store_with (sg_view s) i x s"

definition mutex_lock :: "nat \<Rightarrow> singleton \<Rightarrow> singleton" where
  "mutex_lock i s = s\<lparr>sg_mutex := Some i, sg_view := (sg_view s)(i := join (sg_view s i) (sg_mutex_view s))\<rparr>"

definition mutex_unlock :: "nat \<Rightarrow> singleton \<Rightarrow> singleton" where
  "mutex_unlock i s = s\<lparr>sg_mutex := None, sg_mutex_view := join (sg_mutex_view s) (sg_view s i)\<rparr>"

text \<open>\<open>new T\<close>: the construction is visible to the constructing thread.\<close>

definition new_object :: "nat \<Rightarrow> singleton \<Rightarrow> nat \<times> singleton" where
  "new_object i s =
     (let p = sg_created s
      in (p, s\<lparr>sg_created := Suc p, sg_view := (sg_view s)(i := (sg_view s i)\<lparr>vw_objs := insert p (vw_objs (sg_view s i))\<rparr>)\<rparr>))"

section \<open>getInstance, line by line\<close>

text \<open>The next line of thread \<open>i\<close>; \<open>n\<close> is the store a load returns.  \<open>None\<close>: the thread has to wait
  (or has returned).  What the two versions share is the critical section up to the construction.\<close>

definition test_null :: "nat \<Rightarrow> nat option \<Rightarrow> gpc \<Rightarrow> (nat \<Rightarrow> gpc) \<Rightarrow> singleton \<Rightarrow> singleton" where
  "test_null i tmp null found s = goto i (case tmp of None \<Rightarrow> null | Some p \<Rightarrow> found p) s"

definition lock_guard :: "nat \<Rightarrow> singleton \<Rightarrow> singleton option" where
  "lock_guard i s = (if sg_mutex s = None then Some (goto i G_recheck (mutex_lock i s)) else None)"

definition second_load :: "nat \<Rightarrow> nat \<Rightarrow> singleton \<Rightarrow> singleton option" where
  "second_load i n s =
     (if can_read s i n then let (tmp, s1) = load_relaxed i n s in Some (test_null i tmp G_new G_unlock s1) else None)"

definition csdn_getInstance :: "nat \<Rightarrow> nat \<Rightarrow> singleton \<Rightarrow> singleton option" where
  "csdn_getInstance i n s =
     (case sg_pc s i of
        G_load \<Rightarrow> if can_read s i n then let (tmp, s1) = load_acquire i n s in Some (test_null i tmp G_lock G_done s1) else None
      | G_lock \<Rightarrow> lock_guard i s
      | G_recheck \<Rightarrow> second_load i n s
      | G_new \<Rightarrow> let (tmp, s1) = new_object i s in Some (goto i (G_store tmp) s1)
      | G_store tmp \<Rightarrow> Some (goto i (G_unlock tmp) (store_release i (Some tmp) s))
      | G_unlock tmp \<Rightarrow> Some (goto i (G_done tmp) (mutex_unlock i s))
      | _ \<Rightarrow> None)"

definition barrier_getInstance :: "nat \<Rightarrow> nat \<Rightarrow> singleton \<Rightarrow> singleton option" where
  "barrier_getInstance i n s =
     (case sg_pc s i of
        G_load \<Rightarrow> if can_read s i n then let (tmp, s1) = load_relaxed i n s in Some (goto i (G_fence tmp) s1) else None
      | G_fence tmp \<Rightarrow> Some (test_null i tmp G_lock G_done (fence_acquire i s))
      | G_lock \<Rightarrow> lock_guard i s
      | G_recheck \<Rightarrow> second_load i n s
      | G_new \<Rightarrow> let (tmp, s1) = new_object i s in Some (goto i (G_built tmp) s1)
      | G_built tmp \<Rightarrow> Some (goto i (G_store tmp) (fence_release i s))
      | G_store tmp \<Rightarrow> Some (goto i (G_unlock tmp) (store_relaxed i (Some tmp) s))
      | G_unlock tmp \<Rightarrow> Some (goto i (G_done tmp) (mutex_unlock i s))
      | _ \<Rightarrow> None)"

definition csdn_step :: "singleton \<Rightarrow> singleton \<Rightarrow> bool" where
  "csdn_step s t \<longleftrightarrow> (\<exists>i n. csdn_getInstance i n s = Some t)"

definition barrier_step :: "singleton \<Rightarrow> singleton \<Rightarrow> bool" where
  "barrier_step s t \<longleftrightarrow> (\<exists>i n. barrier_getInstance i n s = Some t)"

section \<open>Invariant\<close>

text \<open>The object has been stored, with a view that shows its construction.\<close>

definition published :: "singleton \<Rightarrow> bool" where
  "published s \<longleftrightarrow> (\<exists>m. sg_history s = [(None, bottom_view), (Some 0, m)] \<and> vw_time m = 1 \<and> 0 \<in> vw_objs m)"

fun holds_mutex :: "gpc \<Rightarrow> bool" where
  "holds_mutex G_recheck = True"
| "holds_mutex G_new = True"
| "holds_mutex (G_built p) = True"
| "holds_mutex (G_store p) = True"
| "holds_mutex (G_unlock p) = True"
| "holds_mutex pc = False"

fun has_object :: "gpc \<Rightarrow> bool" where
  "has_object (G_built p) = True"
| "has_object (G_store p) = True"
| "has_object pc = False"

definition sees :: "view \<Rightarrow> bool" where
  "sees v \<longleftrightarrow> 0 \<in> vw_objs v"

text \<open>What holds of a thread at each line, given whether the object is published, the thread's view,
  the view its relaxed loads have gathered and the view its store will pass on.\<close>

fun pc_ok :: "bool \<Rightarrow> view \<Rightarrow> view \<Rightarrow> view \<Rightarrow> gpc \<Rightarrow> bool" where
  "pc_ok pub v a m G_load = True"
| "pc_ok pub v a m (G_fence x) = (x = None \<or> x = Some 0 \<and> pub \<and> sees a)"
| "pc_ok pub v a m G_lock = True"
| "pc_ok pub v a m G_recheck = (pub \<longrightarrow> vw_time v = 1 \<and> sees v)"
| "pc_ok pub v a m G_new = (\<not> pub)"
| "pc_ok pub v a m (G_built p) = (\<not> pub \<and> p = 0 \<and> sees v)"
| "pc_ok pub v a m (G_store p) = (\<not> pub \<and> p = 0 \<and> sees v \<and> sees m)"
| "pc_ok pub v a m (G_unlock p) = (pub \<and> p = 0 \<and> vw_time v = 1 \<and> sees v)"
| "pc_ok pub v a m (G_done p) = (pub \<and> p = 0 \<and> sees v)"

definition sg_inv :: "(singleton \<Rightarrow> nat \<Rightarrow> view) \<Rightarrow> singleton \<Rightarrow> bool" where
  "sg_inv msg s \<longleftrightarrow>
     (\<forall>i. holds_mutex (sg_pc s i) \<longleftrightarrow> sg_mutex s = Some i)
   \<and> (\<forall>i. pc_ok (published s) (sg_view s i) (sg_acq s i) (msg s i) (sg_pc s i))
   \<and> (\<forall>i. vw_time (sg_view s i) < length (sg_history s) \<and> vw_time (sg_acq s i) < length (sg_history s))
   \<and> vw_time (sg_mutex_view s) < length (sg_history s)
   \<and> (published s \<longrightarrow> sg_created s = 1
        \<and> (sg_mutex s = None \<longrightarrow> vw_time (sg_mutex_view s) = 1 \<and> sees (sg_mutex_view s)))
   \<and> (\<not> published s \<longrightarrow> sg_history s = [(None, bottom_view)]
        \<and> sg_created s = (case sg_mutex s of None \<Rightarrow> 0 | Some i \<Rightarrow> if has_object (sg_pc s i) then 1 else 0))"

lemma sees_simps [simp]: "sees (join v w) \<longleftrightarrow> sees v \<or> sees w" "sees (v\<lparr>vw_time := t\<rparr>) \<longleftrightarrow> sees v" "\<not> sees bottom_view"
  by (auto simp: sees_def bottom_view_def)

lemma sg_inv_init: "msg = sg_view \<or> msg = sg_rel \<Longrightarrow> sg_inv msg m_instance_init"
  by (auto simp: sg_inv_def m_instance_init_def published_def bottom_view_def)

lemma published_cong: "sg_history s' = sg_history s \<Longrightarrow> published s' = published s"
  by (simp add: published_def)

lemma length_published: "published s \<Longrightarrow> length (sg_history s) = 2"
  by (auto simp: published_def)

text \<open>What a load can return.\<close>

lemma history_nth:
  assumes "sg_inv msg s" "can_read s i n" "sg_history s ! n = (x, m)"
  shows "x = None \<and> m = bottom_view \<and> n = 0 \<or> x = Some 0 \<and> published s \<and> sees m \<and> vw_time m = 1 \<and> n = 1"
proof (cases "published s")
  case True
  then show ?thesis using assms(2,3) by (auto simp: published_def can_read_def sees_def less_Suc_eq)
next
  case False
  then show ?thesis using assms by (auto simp: sg_inv_def can_read_def)
qed

text \<open>A step of thread \<open>i\<close> that neither locks nor stores: only its own line and views matter.\<close>

lemma sg_inv_local:
  assumes "sg_inv msg s" "holds_mutex pc = holds_mutex (sg_pc s i)"
    "sg_history s' = sg_history s" "sg_mutex s' = sg_mutex s" "sg_mutex_view s' = sg_mutex_view s"
    "sg_pc s' = (sg_pc s)(i := pc)"
    "\<And>j. j \<noteq> i \<Longrightarrow> sg_view s' j = sg_view s j \<and> sg_acq s' j = sg_acq s j \<and> msg s' j = msg s j"
    "pc_ok (published s) (sg_view s' i) (sg_acq s' i) (msg s' i) pc"
    "vw_time (sg_view s' i) < length (sg_history s)" "vw_time (sg_acq s' i) < length (sg_history s)"
    "if published s then sg_created s' = sg_created s
     else sg_created s' + (if has_object (sg_pc s i) then 1 else 0) = sg_created s + (if has_object pc then 1 else 0)"
  shows "sg_inv msg s'"
proof -
  have pub: "published s' = published s" by (rule published_cong) (rule assms(3))
  have thr: "pc_ok (published s) (sg_view s' j) (sg_acq s' j) (msg s' j) (sg_pc s' j)
      \<and> vw_time (sg_view s' j) < length (sg_history s) \<and> vw_time (sg_acq s' j) < length (sg_history s)" for j
    using assms(1,6) assms(7) [of j] assms(8-10) by (cases "j = i") (auto simp: sg_inv_def)
  have mx: "holds_mutex (sg_pc s' j) = (sg_mutex s = Some j)" for j
    using assms(1,2,6) by (auto simp: sg_inv_def)
  have cnt: "\<not> published s \<Longrightarrow> sg_created s' = (case sg_mutex s of None \<Rightarrow> 0 | Some j \<Rightarrow> if has_object (sg_pc s' j) then 1 else 0)"
  proof (cases "sg_mutex s = Some i")
    case False
    moreover assume "\<not> published s"
    moreover have "\<not> has_object pc \<and> \<not> has_object (sg_pc s i)"
      using mx [of i] False assms(1,6) by (cases pc; cases "sg_pc s i") (auto simp: sg_inv_def)
    ultimately show ?thesis using assms(1,6,11) by (auto simp: sg_inv_def split: option.splits)
  qed (use assms(1,6,11) in \<open>auto simp: sg_inv_def split: if_splits\<close>)
  show ?thesis
    using assms(1,11) thr mx cnt by (simp add: sg_inv_def pub assms(3-5))
qed

section \<open>Every line keeps the invariant\<close>

lemma sg_inv_at:
  assumes "sg_inv msg s"
  shows "pc_ok (published s) (sg_view s i) (sg_acq s i) (msg s i) (sg_pc s i)"
    "vw_time (sg_view s i) < length (sg_history s)" "vw_time (sg_acq s i) < length (sg_history s)"
  using assms by (auto simp: sg_inv_def)

lemma load_acquire_inv:
  assumes "sg_inv sg_view s" "sg_pc s i = G_load" "can_read s i n" "load_acquire i n s = (tmp, s1)"
  shows "sg_inv sg_view (test_null i tmp G_lock G_done s1)"
proof -
  obtain m where m: "sg_history s ! n = (tmp, m)" using assms(4) by (auto simp: load_acquire_def split: prod.splits)
  from history_nth [OF assms(1,3) m] sg_inv_at [OF assms(1), of i] show ?thesis
    using assms(2,4) m
    by (intro sg_inv_local [OF assms(1), where i = i and pc = "case tmp of None \<Rightarrow> G_lock | Some p \<Rightarrow> G_done p"])
      (auto simp: load_acquire_def test_null_def bottom_view_def length_published)
qed

lemma load_relaxed_inv:
  assumes "sg_inv sg_rel s" "sg_pc s i = G_load" "can_read s i n" "load_relaxed i n s = (tmp, s1)"
  shows "sg_inv sg_rel (goto i (G_fence tmp) s1)"
proof -
  obtain m where m: "sg_history s ! n = (tmp, m)" using assms(4) by (auto simp: load_relaxed_def split: prod.splits)
  from history_nth [OF assms(1,3) m] sg_inv_at [OF assms(1), of i] show ?thesis
    using assms(2,4) m
    by (intro sg_inv_local [OF assms(1), where i = i and pc = "G_fence tmp"])
      (auto simp: load_relaxed_def bottom_view_def length_published)
qed

lemma fence_acquire_inv:
  assumes "sg_inv sg_rel s" "sg_pc s i = G_fence tmp"
  shows "sg_inv sg_rel (test_null i tmp G_lock G_done (fence_acquire i s))"
  using sg_inv_at [OF assms(1), of i] assms(2)
  by (intro sg_inv_local [OF assms(1), where i = i and pc = "case tmp of None \<Rightarrow> G_lock | Some p \<Rightarrow> G_done p"])
    (auto simp: fence_acquire_def test_null_def)

lemma second_load_inv:
  assumes "sg_inv msg s" "msg = sg_view \<or> msg = sg_rel" "sg_pc s i = G_recheck" "second_load i n s = Some t"
  shows "sg_inv msg t"
proof -
  have r: "can_read s i n" using assms(4) by (simp add: second_load_def split: if_splits)
  obtain tmp m where m: "sg_history s ! n = (tmp, m)" by (cases "sg_history s ! n")
  from history_nth [OF assms(1) r m] sg_inv_at [OF assms(1), of i] r show ?thesis
    using assms(2-4) m
    by (intro sg_inv_local [OF assms(1), where i = i and pc = "case tmp of None \<Rightarrow> G_new | Some p \<Rightarrow> G_unlock p"])
      (auto simp: second_load_def load_relaxed_def test_null_def bottom_view_def length_published can_read_def)
qed

lemma lock_guard_inv:
  assumes "sg_inv msg s" "msg = sg_view \<or> msg = sg_rel" "sg_pc s i = G_lock" "lock_guard i s = Some t"
  shows "sg_inv msg t"
proof -
  have "published t = published s" by (rule published_cong) (use assms(4) in \<open>auto simp: lock_guard_def mutex_lock_def split: if_splits\<close>)
  moreover have "published s \<Longrightarrow> max (vw_time (sg_view s i)) 1 = 1"
    using sg_inv_at(2) [OF assms(1), of i] by (simp add: length_published)
  ultimately show ?thesis using assms
    by (auto simp: sg_inv_def lock_guard_def mutex_lock_def split: if_splits)
qed

lemma mutex_unlock_inv:
  assumes "sg_inv msg s" "msg = sg_view \<or> msg = sg_rel" "sg_pc s i = G_unlock tmp"
  shows "sg_inv msg (goto i (G_done tmp) (mutex_unlock i s))"
proof -
  have "published (goto i (G_done tmp) (mutex_unlock i s)) = published s"
    by (rule published_cong) (simp add: mutex_unlock_def)
  moreover have "pc_ok (published s) (sg_view s i) (sg_acq s i) (msg s i) (G_unlock tmp)" "sg_mutex s = Some i"
    using sg_inv_at [OF assms(1), of i] assms(1,3) by (auto simp: sg_inv_def)
  ultimately show ?thesis using assms
    by (auto simp: sg_inv_def mutex_unlock_def length_published)
qed

lemma new_object_inv:
  assumes "sg_inv msg s" "msg = sg_view \<or> msg = sg_rel" "sg_pc s i = G_new" "new_object i s = (tmp, s1)"
    "pc = G_store tmp \<and> msg = sg_view \<or> pc = G_built tmp"
  shows "sg_inv msg (goto i pc s1)"
proof -
  have "sg_mutex s = Some i" using assms(1,3) by (auto simp: sg_inv_def dest: spec [of _ i])
  then have "sg_created s = 0" using assms(1,3) sg_inv_at(1) [OF assms(1), of i] by (simp add: sg_inv_def)
  with assms(2-5) sg_inv_at [OF assms(1), of i] show ?thesis
    by (intro sg_inv_local [OF assms(1), where i = i and pc = pc]) (auto simp: new_object_def sees_def)
qed

lemma fence_release_inv:
  assumes "sg_inv sg_rel s" "sg_pc s i = G_built tmp"
  shows "sg_inv sg_rel (goto i (G_store tmp) (fence_release i s))"
  using sg_inv_at [OF assms(1), of i] assms(2)
  by (intro sg_inv_local [OF assms(1), where i = i and pc = "G_store tmp"]) (auto simp: fence_release_def)

lemma store_with_sel [simp]:
  "sg_history (store_with m i x s) = sg_history s @ [(x, (m i)\<lparr>vw_time := length (sg_history s)\<rparr>)]"
  "sg_view (store_with m i x s) = (sg_view s)(i := (sg_view s i)\<lparr>vw_time := length (sg_history s)\<rparr>)"
  "sg_mutex (store_with m i x s) = sg_mutex s" "sg_mutex_view (store_with m i x s) = sg_mutex_view s"
  "sg_acq (store_with m i x s) = sg_acq s" "sg_rel (store_with m i x s) = sg_rel s"
  "sg_created (store_with m i x s) = sg_created s" "sg_pc (store_with m i x s) = sg_pc s"
  by (simp_all add: store_with_def Let_def)

lemma pc_ok_publish: "\<not> holds_mutex pc \<Longrightarrow> pc_ok False v a m pc \<Longrightarrow> pc_ok pub v a m' pc"
  by (cases pc) auto

lemma store_inv:
  assumes "sg_inv msg s" "msg = sg_view \<or> msg = sg_rel" "sg_pc s i = G_store tmp"
  shows "sg_inv msg (goto i (G_unlock tmp) (store_with (msg s) i (Some tmp) s))"
proof -
  let ?t = "goto i (G_unlock tmp) (store_with (msg s) i (Some tmp) s)"
  have p: "\<not> published s" "tmp = 0" "sees (sg_view s i)" "sees (msg s i)"
    using sg_inv_at(1) [OF assms(1), of i] assms(3) by auto
  then have h: "sg_history s = [(None, bottom_view)]" using assms(1) by (simp add: sg_inv_def)
  have m: "sg_mutex s = Some i" using assms(1,3) by (auto simp: sg_inv_def dest: spec [of _ i])
  then have c: "sg_created s = 1" using assms(1,3) p(1) by (simp add: sg_inv_def)
  have pub: "published ?t" using p h by (simp add: published_def sees_def)
  have "pc_ok True (sg_view ?t j) (sg_acq ?t j) (msg ?t j) (sg_pc ?t j)" for j
  proof (cases "j = i")
    case False
    then have "\<not> holds_mutex (sg_pc s j)" using assms(1) m by (auto simp: sg_inv_def)
    with False pc_ok_publish [of "sg_pc s j"] sg_inv_at(1) [OF assms(1), of j] p(1) show ?thesis
      by simp
  qed (use p h in simp)
  moreover have "holds_mutex (sg_pc ?t j) = (sg_mutex ?t = Some j)" for j
    using assms(1,3) m by (auto simp: sg_inv_def)
  ultimately show ?thesis
    using assms(1) h m c pub by (auto simp: sg_inv_def less_Suc_eq)
qed

lemma csdn_step_inv:
  assumes "sg_inv sg_view s" "csdn_step s t"
  shows "sg_inv sg_view t"
proof -
  obtain i n where st: "csdn_getInstance i n s = Some t" using assms(2) by (auto simp: csdn_step_def)
  show ?thesis
  proof (cases "sg_pc s i")
    case G_load
    with st load_acquire_inv [OF assms(1)] show ?thesis
      by (cases "load_acquire i n s") (auto simp: csdn_getInstance_def split: if_splits)
  next
    case G_new
    with st new_object_inv [OF assms(1)] show ?thesis
      by (cases "new_object i s") (auto simp: csdn_getInstance_def)
  next
    case (G_store tmp)
    with st store_inv [OF assms(1)] show ?thesis by (auto simp: csdn_getInstance_def store_release_def)
  next
    case (G_unlock tmp)
    with st mutex_unlock_inv [OF assms(1)] show ?thesis by (auto simp: csdn_getInstance_def)
  qed (use st lock_guard_inv [OF assms(1)] second_load_inv [OF assms(1)] in \<open>auto simp: csdn_getInstance_def\<close>)
qed

lemma barrier_step_inv:
  assumes "sg_inv sg_rel s" "barrier_step s t"
  shows "sg_inv sg_rel t"
proof -
  obtain i n where st: "barrier_getInstance i n s = Some t" using assms(2) by (auto simp: barrier_step_def)
  show ?thesis
  proof (cases "sg_pc s i")
    case G_load
    with st load_relaxed_inv [OF assms(1)] show ?thesis
      by (cases "load_relaxed i n s") (auto simp: barrier_getInstance_def split: if_splits)
  next
    case (G_fence tmp)
    with st fence_acquire_inv [OF assms(1)] show ?thesis by (auto simp: barrier_getInstance_def)
  next
    case G_new
    with st new_object_inv [OF assms(1)] show ?thesis
      by (cases "new_object i s") (auto simp: barrier_getInstance_def)
  next
    case (G_built tmp)
    with st fence_release_inv [OF assms(1)] show ?thesis by (auto simp: barrier_getInstance_def)
  next
    case (G_store tmp)
    with st store_inv [OF assms(1)] show ?thesis by (auto simp: barrier_getInstance_def store_relaxed_def)
  next
    case (G_unlock tmp)
    with st mutex_unlock_inv [OF assms(1)] show ?thesis by (auto simp: barrier_getInstance_def)
  qed (use st lock_guard_inv [OF assms(1)] second_load_inv [OF assms(1)] in \<open>auto simp: barrier_getInstance_def\<close>)
qed

interpretation csdn: invariant_system "\<lambda>s. s = m_instance_init" csdn_step "sg_inv sg_view"
  by unfold_locales (auto simp: sg_inv_init intro: csdn_step_inv)

interpretation barrier: invariant_system "\<lambda>s. s = m_instance_init" barrier_step "sg_inv sg_rel"
  by unfold_locales (auto simp: sg_inv_init intro: barrier_step_inv)

text \<open>A thread that has not returned and does not wait for the mutex can run its next line.\<close>

lemma reads_something: "sg_inv msg s \<Longrightarrow> can_read s i (vw_time (sg_view s i))"
  using sg_inv_at(2) by (simp add: can_read_def)

lemma csdn_enabled:
  assumes "sg_inv sg_view s" "\<forall>p. sg_pc s i \<noteq> G_done p" "sg_pc s i = G_lock \<Longrightarrow> sg_mutex s = None"
    "\<forall>x. sg_pc s i \<noteq> G_fence x" "\<forall>x. sg_pc s i \<noteq> G_built x"
  shows "\<exists>n t. csdn_getInstance i n s = Some t"
  using assms(2-) reads_something [OF assms(1), of i]
  by (cases "sg_pc s i") (auto simp: csdn_getInstance_def lock_guard_def second_load_def split: prod.splits)

lemma barrier_enabled:
  assumes "sg_inv sg_rel s" "\<forall>p. sg_pc s i \<noteq> G_done p" "sg_pc s i = G_lock \<Longrightarrow> sg_mutex s = None"
  shows "\<exists>n t. barrier_getInstance i n s = Some t"
  using assms(2-) reads_something [OF assms(1), of i]
  by (cases "sg_pc s i") (auto simp: barrier_getInstance_def lock_guard_def second_load_def split: prod.splits)

text \<open>The version with an acquire load never stands at a fence.\<close>

definition no_fence :: "singleton \<Rightarrow> bool" where
  "no_fence s \<longleftrightarrow> (\<forall>i x p. sg_pc s i \<noteq> G_fence x \<and> sg_pc s i \<noteq> G_built p)"

lemma csdn_pc:
  assumes "csdn_getInstance i n s = Some t"
  shows "\<exists>pc. sg_pc t = (sg_pc s)(i := pc) \<and> (\<forall>x. pc \<noteq> G_fence x) \<and> (\<forall>p. pc \<noteq> G_built p)"
  using assms
  by (cases "sg_pc s i")
    (auto simp: csdn_getInstance_def lock_guard_def mutex_lock_def second_load_def load_acquire_def load_relaxed_def test_null_def
      new_object_def Let_def store_release_def mutex_unlock_def split: if_splits prod.splits option.splits)

lemma csdn_no_fence: "no_fence s \<Longrightarrow> csdn_step s t \<Longrightarrow> no_fence t"
  unfolding csdn_step_def no_fence_def by (auto dest!: csdn_pc split: if_splits)

interpretation csdn_lines: invariant_system "\<lambda>s. s = m_instance_init" csdn_step no_fence
  by unfold_locales (auto intro: csdn_no_fence, simp add: no_fence_def m_instance_init_def)

section \<open>Every caller returns\<close>

text \<open>How many lines a thread has before it at most.\<close>

fun lines_left :: "gpc \<Rightarrow> nat" where
  "lines_left G_load = 8"
| "lines_left (G_fence x) = 7"
| "lines_left G_lock = 6"
| "lines_left G_recheck = 5"
| "lines_left G_new = 4"
| "lines_left (G_built p) = 3"
| "lines_left (G_store p) = 2"
| "lines_left (G_unlock p) = 1"
| "lines_left (G_done p) = 0"

lemma lines_left_le: "lines_left pc \<le> 8"
  by (cases pc) simp_all

text \<open>What both versions promise about one line: it keeps the invariant, moves its own thread on and no other, and can be run unless the
  thread has returned or waits for the mutex.\<close>

locale get_lines =
  fixes get :: "nat \<Rightarrow> nat \<Rightarrow> singleton \<Rightarrow> singleton option" and msg :: "singleton \<Rightarrow> nat \<Rightarrow> view" and ok :: "singleton \<Rightarrow> bool"
  assumes ok_inv: "ok s \<Longrightarrow> sg_inv msg s"
    and line_ok: "ok s \<Longrightarrow> get i n s = Some t \<Longrightarrow> ok t"
    and line_moves: "ok s \<Longrightarrow> get i n s = Some t \<Longrightarrow> \<exists>pc. sg_pc t = (sg_pc s)(i := pc) \<and> lines_left pc < lines_left (sg_pc s i)"
    and line_enabled: "ok s \<Longrightarrow> \<forall>p. sg_pc s i \<noteq> G_done p \<Longrightarrow> (sg_pc s i = G_lock \<Longrightarrow> sg_mutex s = None) \<Longrightarrow> \<exists>n t. get i n s = Some t"
begin

definition any_line :: "singleton \<Rightarrow> singleton \<Rightarrow> bool" where
  "any_line s t \<longleftrightarrow> (\<exists>i n. get i n s = Some t)"

text \<open>The lines the holder of the mutex has before it.\<close>

definition holder_left :: "singleton \<Rightarrow> nat" where
  "holder_left s = (case sg_mutex s of None \<Rightarrow> 0 | Some j \<Rightarrow> lines_left (sg_pc s j))"

lemma holder_moves:
  assumes "ok s" "sg_mutex s = Some j"
  shows "(\<exists>n t. get j n s = Some t) \<and> (\<forall>n t. get j n s = Some t \<longrightarrow> holder_left t < holder_left s)"
proof
  have h: "holds_mutex (sg_pc s k) \<longleftrightarrow> k = j" for k using ok_inv [OF assms(1)] assms(2) by (auto simp: sg_inv_def)
  then have "\<forall>p. sg_pc s j \<noteq> G_done p" "sg_pc s j \<noteq> G_lock" by (auto dest: arg_cong [of _ _ holds_mutex])
  with line_enabled [OF assms(1), of j] show "\<exists>n t. get j n s = Some t" by blast
  show "\<forall>n t. get j n s = Some t \<longrightarrow> holder_left t < holder_left s"
  proof (intro allI impI)
    fix n t assume t: "get j n s = Some t"
    obtain pc where pc: "sg_pc t = (sg_pc s)(j := pc)" "lines_left pc < lines_left (sg_pc s j)"
      using line_moves [OF assms(1) t] by blast
    have "sg_mutex t = None \<or> sg_mutex t = Some j"
    proof (cases "sg_mutex t")
      case (Some k)
      then have "holds_mutex (sg_pc t k)" using ok_inv [OF line_ok [OF assms(1) t]] by (auto simp: sg_inv_def)
      then have "k = j" using pc(1) h by (auto split: if_splits)
      with Some show ?thesis by simp
    qed simp
    with pc assms(2) show "holder_left t < holder_left s" by (auto simp: holder_left_def)
  qed
qed

lemma caller_can_go_on:
  assumes "ok s"
  shows "(\<exists>p. sg_pc s i = G_done p) \<or> (\<exists>n t. get i n s = Some t)
    \<or> sg_pc s i = G_lock \<and> (\<exists>j n t. sg_mutex s = Some j \<and> j \<noteq> i \<and> get j n s = Some t)"
proof (cases "sg_pc s i = G_lock \<and> sg_mutex s \<noteq> None")
  case True
  then obtain j where j: "sg_mutex s = Some j" by auto
  have "j \<noteq> i" using True j ok_inv [OF assms] by (auto simp: sg_inv_def dest!: spec [of _ i])
  with True j holder_moves [OF assms j] show ?thesis by blast
next
  case False
  then have "sg_pc s i = G_lock \<Longrightarrow> sg_mutex s = None" by simp
  then show ?thesis using line_enabled [OF assms, of i] by blast
qed

lemma caller_returns: "ok s \<Longrightarrow> \<exists>t. any_line\<^sup>*\<^sup>* s t \<and> (\<exists>p. sg_pc t i = G_done p)"
proof (induction "9 * lines_left (sg_pc s i) + holder_left s" arbitrary: s rule: less_induct)
  case less
  have go: ?case if t: "get j n s = Some t" and m: "9 * lines_left (sg_pc t i) + holder_left t < 9 * lines_left (sg_pc s i) + holder_left s" for j n t
  proof -
    obtain u where "any_line\<^sup>*\<^sup>* t u" "\<exists>p. sg_pc u i = G_done p" using less.hyps [OF m line_ok [OF less.prems t]] by blast
    moreover have "any_line s t" using t by (auto simp: any_line_def)
    ultimately show ?thesis by (meson converse_rtranclp_into_rtranclp)
  qed
  consider (returned) p where "sg_pc s i = G_done p" | (own) n t where "get i n s = Some t"
    | (wait) j n t where "sg_mutex s = Some j" "j \<noteq> i" "get j n s = Some t"
    using caller_can_go_on [OF less.prems, of i] by blast
  then show ?case
  proof cases
    case (own n t)
    obtain pc where "sg_pc t = (sg_pc s)(i := pc)" "lines_left pc < lines_left (sg_pc s i)" using line_moves [OF less.prems own] by blast
    moreover have "holder_left t \<le> 8" by (simp add: holder_left_def lines_left_le split: option.splits)
    ultimately show ?thesis by (intro go [OF own]) simp
  next
    case (wait j n t)
    obtain pc where "sg_pc t = (sg_pc s)(j := pc)" using line_moves [OF less.prems wait(3)] by blast
    with wait holder_moves [OF less.prems wait(1)] show ?thesis by (intro go [OF wait(3)]) simp
  qed blast
qed

end

lemma csdn_moves:
  assumes "csdn_getInstance i n s = Some t"
  shows "\<exists>pc. sg_pc t = (sg_pc s)(i := pc) \<and> lines_left pc < lines_left (sg_pc s i)"
  using assms
  by (cases "sg_pc s i")
    (auto simp: csdn_getInstance_def lock_guard_def mutex_lock_def second_load_def load_acquire_def load_relaxed_def test_null_def
      new_object_def Let_def store_release_def mutex_unlock_def split: if_splits prod.splits option.splits)

lemma barrier_moves:
  assumes "barrier_getInstance i n s = Some t"
  shows "\<exists>pc. sg_pc t = (sg_pc s)(i := pc) \<and> lines_left pc < lines_left (sg_pc s i)"
  using assms
  by (cases "sg_pc s i")
    (auto simp: barrier_getInstance_def lock_guard_def mutex_lock_def second_load_def load_relaxed_def test_null_def fence_acquire_def
      fence_release_def new_object_def Let_def store_relaxed_def mutex_unlock_def split: if_splits prod.splits option.splits)

interpretation csdn_callers: get_lines csdn_getInstance sg_view "\<lambda>s. sg_inv sg_view s \<and> no_fence s"
proof
  fix s t i n assume "sg_inv sg_view s \<and> no_fence s" "csdn_getInstance i n s = Some t"
  moreover from this(2) have "csdn_step s t" by (auto simp: csdn_step_def)
  ultimately show "sg_inv sg_view t \<and> no_fence t" by (blast intro: csdn_step_inv csdn_no_fence)
next
  fix s i assume "sg_inv sg_view s \<and> no_fence s" "\<forall>p. sg_pc s i \<noteq> G_done p" "sg_pc s i = G_lock \<Longrightarrow> sg_mutex s = None"
  then show "\<exists>n t. csdn_getInstance i n s = Some t" by (intro csdn_enabled) (auto simp: no_fence_def)
qed (auto intro: csdn_moves)

interpretation barrier_callers: get_lines barrier_getInstance sg_rel "sg_inv sg_rel"
proof
  fix s t i n assume "sg_inv sg_rel s" "barrier_getInstance i n s = Some t"
  moreover from this(2) have "barrier_step s t" by (auto simp: barrier_step_def)
  ultimately show "sg_inv sg_rel t" by (blast intro: barrier_step_inv)
next
  fix s i assume "sg_inv sg_rel s" "\<forall>p. sg_pc s i \<noteq> G_done p" "sg_pc s i = G_lock \<Longrightarrow> sg_mutex s = None"
  then show "\<exists>n t. barrier_getInstance i n s = Some t" by (rule barrier_enabled)
qed (auto intro: barrier_moves)

lemma csdn_any_line: "csdn_callers.any_line = (\<lambda>s t. \<exists>i n. csdn_getInstance i n s = Some t)"
  by (intro ext) (simp add: csdn_callers.any_line_def)

lemma barrier_any_line: "barrier_callers.any_line = (\<lambda>s t. \<exists>i n. barrier_getInstance i n s = Some t)"
  by (intro ext) (simp add: barrier_callers.any_line_def)

lemma csdn_step_eq: "csdn_step = (\<lambda>s t. \<exists>i n. csdn_getInstance i n s = Some t)"
  and barrier_step_eq: "barrier_step = (\<lambda>s t. \<exists>i n. barrier_getInstance i n s = Some t)"
  by (intro ext, simp add: csdn_step_def barrier_step_def)+

section \<open>Properties\<close>

lemma sg_inv_done:
  assumes "sg_inv msg s" "sg_pc s i = G_done p"
  shows "sg_created s = 1 \<and> p \<in> vw_objs (sg_view s i) \<and> (\<forall>j q. sg_pc s j = G_done q \<longrightarrow> q = p)"
proof -
  have "p = 0 \<and> published s \<and> sees (sg_view s i)" using sg_inv_at(1) [OF assms(1), of i] assms(2) by simp
  moreover have "sg_pc s j = G_done q \<Longrightarrow> q = 0" for j q using sg_inv_at(1) [OF assms(1), of j] by simp
  ultimately show ?thesis using assms(1) by (auto simp: sg_inv_def sees_def)
qed

text \<open>C28: both double-checked singletons are right under release/acquire memory.  In every interleaving of any number of
  threads, and whichever store each load returns, a thread that has returned from \<open>getInstance\<close> has the one object ever
  constructed, the same as every other thread, and its construction is visible to it.  No caller gets stuck: in every reachable
  state a caller has returned, can run its next line, or waits for the mutex while its holder can run its next line; every line
  brings its own thread nearer to the return, of which it is at most eight lines away, and moves no other; and from every
  reachable state every caller can be brought to return.\<close>

theorem getInstance_unique:
  assumes "get = csdn_getInstance \<or> get = barrier_getInstance"
    "reachable (\<lambda>s. s = m_instance_init) (\<lambda>s t. \<exists>i n. get i n s = Some t) s"
  shows "(\<forall>i p. sg_pc s i = G_done p \<longrightarrow>
        sg_created s = 1 \<and> p \<in> vw_objs (sg_view s i) \<and> (\<forall>j q. sg_pc s j = G_done q \<longrightarrow> q = p))
    \<and> (\<forall>i. (\<exists>p. sg_pc s i = G_done p) \<or> (\<exists>n t. get i n s = Some t)
        \<or> sg_pc s i = G_lock \<and> (\<exists>j n t. sg_mutex s = Some j \<and> j \<noteq> i \<and> get j n s = Some t))
    \<and> (\<forall>i n t. get i n s = Some t \<longrightarrow> (\<exists>pc. sg_pc t = (sg_pc s)(i := pc) \<and> lines_left pc < lines_left (sg_pc s i)))
    \<and> (\<forall>i. \<exists>t. (\<lambda>s t. \<exists>i n. get i n s = Some t)\<^sup>*\<^sup>* s t \<and> (\<exists>p. sg_pc t i = G_done p))"
proof (cases "get = csdn_getInstance")
  case True
  with assms(2) have inv: "sg_inv sg_view s \<and> no_fence s"
    unfolding True csdn_step_eq [symmetric] using csdn.inv_reachable csdn_lines.inv_reachable by blast
  show ?thesis unfolding True
    using sg_inv_done [OF conjunct1 [OF inv]] csdn_callers.caller_can_go_on [OF inv] csdn_moves
      csdn_callers.caller_returns [OF inv, unfolded csdn_any_line] by blast
next
  case False
  with assms(1) have g: "get = barrier_getInstance" by simp
  have inv: "sg_inv sg_rel s" using assms(2) unfolding g barrier_step_eq [symmetric] by (rule barrier.inv_reachable)
  show ?thesis unfolding g
    using sg_inv_done [OF inv] barrier_callers.caller_can_go_on [OF inv] barrier_moves
      barrier_callers.caller_returns [OF inv, unfolded barrier_any_line] by blast
qed

text \<open>Thread 0 runs through on the first version.\<close>

fun run_thread :: "(nat \<Rightarrow> nat \<Rightarrow> singleton \<Rightarrow> singleton option) \<Rightarrow> nat \<Rightarrow> nat list \<Rightarrow> singleton \<Rightarrow> singleton option" where
  "run_thread f i [] s = Some s"
| "run_thread f i (n # ns) s = (case f i n s of None \<Rightarrow> None | Some t \<Rightarrow> run_thread f i ns t)"

lemma run_thread_reachable:
  assumes "run_thread f i ns s = Some t" "reachable init (\<lambda>s t. \<exists>i n. f i n s = Some t) s"
  shows "reachable init (\<lambda>s t. \<exists>i n. f i n s = Some t) t"
  using assms
proof (induction ns arbitrary: s)
  case (Cons n ns)
  then obtain u where u: "f i n s = Some u" "run_thread f i ns u = Some t" by (auto split: option.splits)
  have "reachable init (\<lambda>s t. \<exists>i n. f i n s = Some t) u" using u(1) by (intro reachable_step [OF Cons.prems(2)]) blast
  with Cons.IH u(2) show ?case by blast
qed simp

lemmas getInstance_eval = csdn_getInstance_def lock_guard_def second_load_def can_read_def load_acquire_def load_relaxed_def
  test_null_def new_object_def store_release_def store_with_def mutex_lock_def mutex_unlock_def m_instance_init_def bottom_view_def

theorem getInstance_unique_witness:
  "\<exists>s t. reachable (\<lambda>s. s = m_instance_init) (\<lambda>s t. \<exists>i n. csdn_getInstance i n s = Some t) s
    \<and> sg_pc s 0 = G_done 0 \<and> sg_pc s 1 = G_load \<and> 0 \<in> vw_objs (sg_view s 0)
    \<and> (\<lambda>s t. \<exists>i n. csdn_getInstance i n s = Some t)\<^sup>*\<^sup>* s t \<and> (\<exists>p. sg_pc t 1 = G_done p)"
proof -
  obtain s where s: "run_thread csdn_getInstance 0 [0, 0, 0, 0, 0, 0] m_instance_init = Some s"
    "sg_pc s 0 = G_done 0" "sg_pc s 1 = G_load"
    by (simp add: getInstance_eval)
  then have r: "reachable (\<lambda>s. s = m_instance_init) (\<lambda>s t. \<exists>i n. csdn_getInstance i n s = Some t) s"
    by (blast intro: run_thread_reachable reachable_init)
  with getInstance_unique [OF disjI1 [OF refl] r] s(2,3) show ?thesis by blast
qed

section \<open>The other versions\<close>

text \<open>What all of them promise their caller: the second call returns what the first did and makes
  nothing.\<close>

locale first_use =
  fixes get :: "'s \<Rightarrow> 'p result \<times> 's"
  assumes get_again: "get s = (Inr p, s') \<Longrightarrow> get s' = (Inr p, s')"
begin

fun calls :: "nat \<Rightarrow> 's \<Rightarrow> 'p result list \<times> 's" where
  "calls 0 s = ([], s)"
| "calls (Suc n) s = (let (r, s1) = get s; (rs, s2) = calls n s1 in (r # rs, s2))"

lemma calls_same: "get s = (Inr p, s') \<Longrightarrow> calls (Suc n) s = (replicate (Suc n) (Inr p), s')"
  by (induction n arbitrary: s) (auto dest: get_again)

end

record once_object =
  oo_flag :: bool
  oo_value :: "nat option"
  oo_created :: nat

definition oo_init :: "once_object \<Rightarrow> once_object" where
  "oo_init s = s\<lparr>oo_value := Some (oo_created s), oo_created := Suc (oo_created s)\<rparr>"

definition deref_ptr :: "nat option \<Rightarrow> nat result" where
  "deref_ptr v = (case v of None \<Rightarrow> Inl Out_of_bounds | Some p \<Rightarrow> Inr p)"

text \<open>\<open>pthread_once(&ponce_once, &init); return *value_;\<close>\<close>

definition once_instance :: "once_object \<Rightarrow> nat result \<times> once_object" where
  "once_instance s = (let s1 = (if oo_flag s then s else (oo_init s)\<lparr>oo_flag := True\<rparr>) in (deref_ptr (oo_value s1), s1))"

text \<open>The thread-local version keeps one pointer per thread.\<close>

record thread_objects =
  tl_value :: "nat \<Rightarrow> nat option"
  tl_created :: nat

definition tl_init :: "nat \<Rightarrow> thread_objects \<Rightarrow> thread_objects" where
  "tl_init i s = s\<lparr>tl_value := (tl_value s)(i := Some (tl_created s)), tl_created := Suc (tl_created s)\<rparr>"

definition tl_instance :: "nat \<Rightarrow> thread_objects \<Rightarrow> nat result \<times> thread_objects" where
  "tl_instance i s = (let s1 = (if tl_value s i = None then tl_init i s else s) in (deref_ptr (tl_value s1 i), s1))"

text \<open>\<open>lazy::get\<close> calls the function it was given; \<open>call_once\<close> does not set its flag when that throws,
  and a null result is dereferenced.\<close>

record lazy =
  lz_flag :: bool
  lz_ptr :: "nat option"

definition lazy_get :: "nat option result \<Rightarrow> lazy \<Rightarrow> nat result \<times> lazy" where
  "lazy_get fun_result s =
     (if lz_flag s then (deref_ptr (lz_ptr s), s)
      else case fun_result of
        Inl e \<Rightarrow> (Inl e, s)
      | Inr p \<Rightarrow> let s1 = s\<lparr>lz_flag := True, lz_ptr := p\<rparr> in (deref_ptr (lz_ptr s1), s1))"

interpretation once: first_use once_instance
  by unfold_locales (auto simp: once_instance_def Let_def split: if_splits)

interpretation tl: first_use "tl_instance i" for i
  by unfold_locales (auto simp: tl_instance_def tl_init_def Let_def split: if_splits)

interpretation lz: first_use "lazy_get r" for r
  by unfold_locales (auto simp: lazy_get_def split: if_splits sum.splits)

text \<open>The thread-local objects of two threads are different and do not disturb each other.\<close>

definition tl_inv :: "thread_objects \<Rightarrow> bool" where
  "tl_inv s \<longleftrightarrow> (\<forall>i p. tl_value s i = Some p \<longrightarrow> p < tl_created s) \<and> (\<forall>i j p. tl_value s i = Some p \<longrightarrow> tl_value s j = Some p \<longrightarrow> i = j)"

lemma tl_instance_inv: "tl_inv s \<Longrightarrow> tl_inv (snd (tl_instance i s))"
  by (fastforce simp: tl_inv_def tl_instance_def tl_init_def Let_def)

lemma tl_instance_own:
  assumes "tl_inv s" "i \<noteq> j" "tl_instance i s = (Inr p, s1)" "tl_instance j s1 = (Inr q, s2)"
  shows "p \<noteq> q \<and> tl_instance i s2 = (Inr p, s2)"
proof -
  have "tl_value s2 i = Some p \<and> tl_value s2 j = Some q"
    using assms(2-4) by (auto simp: tl_instance_def tl_init_def deref_ptr_def Let_def split: if_splits option.splits)
  moreover have "tl_inv s2" using tl_instance_inv [of s1 j] tl_instance_inv [of s i] assms by simp
  ultimately show ?thesis using assms(2) by (auto simp: tl_inv_def tl_instance_def deref_ptr_def)
qed

end
