(* ===== verification/Loop_Thread.thy ===== *)
theory Loop_Thread
  imports Singleton
begin

text \<open>
  \<open>src/src/base/currentThread.{h,cpp}\<close>, \<open>Thread.{h,cpp}\<close> and \<open>net/EventLoopThread.{h,cpp}\<close>: the cached thread id, the
  wrapper of \<open>pthread_create\<close> with its start-up handshake, and the thread that owns an event loop, from
  its constructor to its destructor.
\<close>

section \<open>The cached thread id\<close>

text \<open>\<open>t_cachedTid\<close> is thread-local and starts as 0; \<open>gettid\<close> is the kernel's number of the thread.\<close>

type_synonym tid_cache = "nat \<Rightarrow> int"

definition cacheTid :: "(nat \<Rightarrow> int) \<Rightarrow> nat \<Rightarrow> tid_cache \<Rightarrow> tid_cache" where
  "cacheTid gettid i c = (if c i = 0 then c(i := gettid i) else c)"

definition cached_tid :: "(nat \<Rightarrow> int) \<Rightarrow> nat \<Rightarrow> tid_cache \<Rightarrow> int result \<times> tid_cache" where
  "cached_tid gettid i c = (let c1 = (if c i = 0 then cacheTid gettid i c else c) in (Inr (c1 i), c1))"

definition cache_ok :: "(nat \<Rightarrow> int) \<Rightarrow> tid_cache \<Rightarrow> bool" where
  "cache_ok gettid c \<longleftrightarrow> (\<forall>i. c i = 0 \<or> c i = gettid i)"

lemma cached_tid_ok:
  assumes "cache_ok gettid c"
  shows "fst (cached_tid gettid i c) = Inr (gettid i) \<and> cache_ok gettid (snd (cached_tid gettid i c))"
  using assms by (auto simp: cached_tid_def cacheTid_def cache_ok_def Let_def)

interpretation tid: first_use "cached_tid gettid i" for gettid i
  by unfold_locales (auto simp: cached_tid_def cacheTid_def Let_def split: if_splits)

section \<open>Thread\<close>

text \<open>Lines of \<open>start\<close> and of \<open>runThread\<close>; \<open>tid_\<close> has no initial value.\<close>

datatype start_pc = S_create | S_wait | S_assert | S_returned | S_failed
datatype run_pc = R_none | R_tid | R_promise | R_func | R_exited | R_aborted

record thread_obj =
  th_started :: bool
  th_joined :: bool
  th_tid :: "int option"
  th_promise :: bool
  th_start :: start_pc
  th_run :: run_pc
  th_calls :: nat
  th_fault :: "fault option"

definition new_Thread :: thread_obj where
  "new_Thread = \<lparr>th_started = False, th_joined = False, th_tid = None, th_promise = False, th_start = S_create,
     th_run = R_none, th_calls = 0, th_fault = None\<rparr>"

text \<open>\<open>pthread_create\<close> succeeds or not; the new thread runs at once.\<close>

definition thread_start :: "bool \<Rightarrow> thread_obj \<Rightarrow> thread_obj" where
  "thread_start created t =
     (case th_start t of
        S_create \<Rightarrow> if created then t\<lparr>th_started := True, th_run := R_tid, th_start := S_wait\<rparr> else t\<lparr>th_start := S_failed\<rparr>
      | S_wait \<Rightarrow> if th_promise t then t\<lparr>th_start := S_assert\<rparr> else t
      | S_assert \<Rightarrow>
          (case th_tid t of
             None \<Rightarrow> t\<lparr>th_fault := Some Uninit_read\<rparr>
           | Some n \<Rightarrow> if n > 0 then t\<lparr>th_start := S_returned\<rparr> else t\<lparr>th_fault := Some Assert_failed\<rparr>)
      | _ \<Rightarrow> t)"

text \<open>\<open>func_\<close> is run once; an exception ends the process.\<close>

definition runThread :: "int \<Rightarrow> bool \<Rightarrow> thread_obj \<Rightarrow> thread_obj" where
  "runThread tid throws t =
     (case th_run t of
        R_tid \<Rightarrow> t\<lparr>th_tid := Some tid, th_run := R_promise\<rparr>
      | R_promise \<Rightarrow> t\<lparr>th_promise := True, th_run := R_func\<rparr>
      | R_func \<Rightarrow> if throws then t\<lparr>th_calls := Suc (th_calls t), th_run := R_aborted, th_fault := Some Abort\<rparr>
                   else t\<lparr>th_calls := Suc (th_calls t), th_run := R_exited\<rparr>
      | _ \<Rightarrow> t)"

text \<open>\<open>join\<close> tests \<open>joined_\<close> and never sets it; it returns once the thread has ended (\<open>None\<close>: not yet).\<close>

definition thread_join :: "thread_obj \<Rightarrow> unit result option" where
  "thread_join t =
     (if th_joined t then Some (Inl Assert_failed)
      else if \<not> th_started t then Some (Inl Invalid_argument)
      else if th_run t = R_exited then Some (Inr ()) else None)"

inductive thread_step :: "int \<Rightarrow> thread_obj \<Rightarrow> thread_obj \<Rightarrow> bool" for tid where
  caller: "th_fault t = None \<Longrightarrow> thread_step tid t (thread_start created t)"
| callee: "th_fault t = None \<Longrightarrow> thread_step tid t (runThread tid throws t)"

inductive_cases thread_stepE: "thread_step tid t t'"

definition thread_inv :: "int \<Rightarrow> thread_obj \<Rightarrow> bool" where
  "thread_inv tid t \<longleftrightarrow>
     (th_run t = R_none \<longleftrightarrow> th_start t = S_create \<or> th_start t = S_failed)
   \<and> (th_started t \<longleftrightarrow> th_run t \<noteq> R_none)
   \<and> (th_run t \<noteq> R_none \<and> th_run t \<noteq> R_tid \<longrightarrow> th_tid t = Some tid)
   \<and> (th_promise t \<longleftrightarrow> th_run t \<in> {R_func, R_exited, R_aborted})
   \<and> (th_start t \<in> {S_assert, S_returned} \<longrightarrow> th_promise t)
   \<and> th_calls t = (if th_run t \<in> {R_exited, R_aborted} then 1 else 0)
   \<and> th_fault t = (if th_run t = R_aborted then Some Abort else None) \<and> \<not> th_joined t"

lemma thread_start_inv: "0 < tid \<Longrightarrow> thread_inv tid t \<Longrightarrow> thread_inv tid (thread_start created t)"
  by (cases "th_start t"; cases "th_run t"; cases created; cases "th_promise t")
    (simp_all add: thread_inv_def thread_start_def)

lemma runThread_inv: "th_fault t = None \<Longrightarrow> thread_inv tid t \<Longrightarrow> thread_inv tid (runThread tid throws t)"
  by (cases "th_run t"; cases throws) (auto simp: thread_inv_def runThread_def)

lemma thread_step_inv: "0 < tid \<Longrightarrow> thread_inv tid t \<Longrightarrow> thread_step tid t t' \<Longrightarrow> thread_inv tid t'"
  by (auto elim!: thread_stepE intro: thread_start_inv runThread_inv)

lemma thread_inv_init: "thread_inv tid new_Thread"
  by (simp add: thread_inv_def new_Thread_def)

interpretation thr: invariant_system "\<lambda>t. t = new_Thread \<and> 0 < tid" "thread_step tid" "\<lambda>t. 0 < tid \<and> thread_inv tid t" for tid
  by unfold_locales (auto simp: thread_inv_init intro: thread_step_inv)

text \<open>The start-up handshake.  In every interleaving of \<open>start\<close> with the new thread the only fault is the
  abort after an exception of \<open>func_\<close>; when \<open>start\<close> has returned and the thread was created, \<open>tid_\<close> is its
  kernel id; and \<open>func_\<close> is called at most once, which has happened when \<open>join\<close> returns.\<close>

theorem thread_start_handshake:
  assumes "reachable (\<lambda>t. t = new_Thread \<and> 0 < tid) (thread_step tid) t"
  shows "(th_fault t = None \<or> th_run t = R_aborted \<and> th_fault t = Some Abort)
    \<and> (th_start t = S_returned \<longrightarrow> th_started t \<and> th_tid t = Some tid)
    \<and> th_calls t \<le> 1 \<and> (thread_join t = Some (Inr ()) \<longrightarrow> th_calls t = 1)"
  using thr.inv_reachable [OF assms] by (auto simp: thread_inv_def thread_join_def split: if_splits)

theorem thread_start_handshake_witness:
  "\<exists>t. reachable (\<lambda>t. t = new_Thread \<and> 0 < (7 :: int)) (thread_step 7) t \<and> th_start t = S_returned \<and> th_tid t = Some 7
    \<and> thread_join t = None"
proof -
  let ?R = "reachable (\<lambda>t. t = new_Thread \<and> 0 < (7 :: int)) (thread_step 7)"
  let ?t1 = "thread_start True new_Thread"
  let ?t2 = "runThread 7 False (runThread 7 False ?t1)"
  let ?t3 = "thread_start True (thread_start True ?t2)"
  have "?R new_Thread" by (rule reachable_init) simp
  then have "?R ?t1" by (rule reachable_step) (rule thread_step.caller, simp add: new_Thread_def)
  then have "?R (runThread 7 False ?t1)" by (rule reachable_step) (rule thread_step.callee, simp add: new_Thread_def thread_start_def)
  then have "?R ?t2" by (rule reachable_step) (rule thread_step.callee, simp add: new_Thread_def thread_start_def runThread_def)
  then have "?R (thread_start True ?t2)"
    by (rule reachable_step) (rule thread_step.caller, simp add: new_Thread_def thread_start_def runThread_def)
  then have r: "?R ?t3"
    by (rule reachable_step) (rule thread_step.caller, simp add: new_Thread_def thread_start_def runThread_def)
  have "th_start ?t3 = S_returned" "thread_join ?t3 = None"
    by (simp_all add: new_Thread_def thread_start_def runThread_def thread_join_def)
  with r thread_start_handshake [OF r] show ?thesis by blast
qed

section \<open>EventLoopThread\<close>

text \<open>The members are constructed in the order of their declaration: \<open>loop_\<close>, \<open>thread_\<close> (which starts the
  thread), then \<open>exiting_\<close>, \<open>mutex_\<close>, \<open>cond_\<close>, \<open>callback_\<close> and the body of the constructor.  Of the
  event loop only its flag \<open>quit_\<close> and the wake-up descriptor matter here.\<close>

datatype ctor_pc = C_members nat | C_test | C_wait | C_asleep | C_done
datatype func_pc = F_callback | F_make | F_init | F_enter | F_while | F_poll | F_reset | F_exited
datatype eltd_pc = D_none | D_test | D_flag | D_wakeup | D_join | D_done | D_terminate

record elthread =
  et_ctor :: ctor_pc
  et_func :: func_pc
  et_dtor :: eltd_pc
  et_loop :: bool
  et_init :: bool
  et_quit :: bool
  et_wakeup :: nat
  et_early :: bool

definition new_EventLoopThread :: elthread where
  "new_EventLoopThread = \<lparr>et_ctor = C_members 0, et_func = F_callback, et_dtor = D_none, et_loop = False, et_init = False, et_quit = False,
     et_wakeup = 0, et_early = False\<rparr>"

text \<open>The constructor.  A \<open>C_members\<close> line constructs the next of \<open>exiting_\<close>, \<open>mutex_\<close>, \<open>cond_\<close> and \<open>callback_\<close>; what that does to a
  member the thread already uses is undefined, so runs in which this happens are marked by \<open>et_early\<close> (in \<open>threadFunc\<close>) and the
  theorems exclude them.  Then \<open>if (!loop_)\<close> without the mutex, then with the mutex (which the thread holds at \<open>F_init\<close>) the
  test of the condition of \<open>wait\<close>.\<close>

definition elt_ctor :: "elthread \<Rightarrow> elthread" where
  "elt_ctor s =
     (case et_ctor s of
        C_members n \<Rightarrow> s\<lparr>et_ctor := if n < 4 then C_members (Suc n) else C_test\<rparr>
      | C_test \<Rightarrow> s\<lparr>et_ctor := if et_loop s then C_done else C_wait\<rparr>
      | C_wait \<Rightarrow> if et_func s = F_init then s else s\<lparr>et_ctor := if et_loop s then C_done else C_asleep\<rparr>
      | _ \<Rightarrow> s)"

text \<open>\<open>threadFunc\<close> with the lines of \<open>EventLoop::loop\<close>: the critical section that makes the loop, initialises it and notifies,
  \<open>quit_ = false\<close>, the test of the while loop, the wait (which also ends after \<open>kPollTimeMs\<close>), the reset.
  \<open>et_early\<close> records that a member was used before it was constructed.\<close>

definition threadFunc :: "elthread \<Rightarrow> elthread" where
  "threadFunc s =
     (case et_func s of
        F_callback \<Rightarrow> s\<lparr>et_func := F_make, et_early := et_early s \<or> (\<exists>n. et_ctor s = C_members n)\<rparr>
      | F_make \<Rightarrow> s\<lparr>et_func := F_init, et_loop := True, et_quit := False, et_early := et_early s \<or> (\<exists>n. et_ctor s = C_members n)\<rparr>
      | F_init \<Rightarrow> s\<lparr>et_func := F_enter, et_init := True, et_wakeup := 0,
          et_ctor := if et_ctor s = C_asleep then C_wait else et_ctor s\<rparr>
      | F_enter \<Rightarrow> s\<lparr>et_func := F_while, et_quit := False\<rparr>
      | F_while \<Rightarrow> s\<lparr>et_func := if et_quit s then F_reset else F_poll\<rparr>
      | F_poll \<Rightarrow> s\<lparr>et_func := F_while, et_wakeup := 0\<rparr>
      | F_reset \<Rightarrow> s\<lparr>et_func := F_exited, et_loop := False\<rparr>
      | F_exited \<Rightarrow> s)"

text \<open>The destructor runs after the constructor: \<open>exiting_ = true\<close>, \<open>if (loop_)\<close>, \<open>quit()\<close> (the flag and the
  wake-up), \<open>join\<close>; without a loop the still joinable \<open>thread_\<close> ends the process.\<close>

definition elt_dtor :: "elthread \<Rightarrow> elthread" where
  "elt_dtor s =
     (case et_dtor s of
        D_none \<Rightarrow> s\<lparr>et_dtor := D_test\<rparr>
      | D_test \<Rightarrow> s\<lparr>et_dtor := if et_loop s then D_flag else D_terminate\<rparr>
      | D_flag \<Rightarrow> s\<lparr>et_quit := True, et_dtor := D_wakeup\<rparr>
      | D_wakeup \<Rightarrow> s\<lparr>et_wakeup := Suc (et_wakeup s), et_dtor := D_join\<rparr>
      | D_join \<Rightarrow> if et_func s = F_exited then s\<lparr>et_dtor := D_done\<rparr> else s
      | _ \<Rightarrow> s)"

inductive elt_step :: "elthread \<Rightarrow> elthread \<Rightarrow> bool" where
  ctor: "elt_step s (elt_ctor s)"
| spurious: "et_ctor s = C_asleep \<Longrightarrow> elt_step s (s\<lparr>et_ctor := C_wait\<rparr>)"
| func: "elt_step s (threadFunc s)"
| dtor: "et_ctor s = C_done \<Longrightarrow> elt_step s (elt_dtor s)"

inductive_cases elt_stepE: "elt_step s s'"

text \<open>The state in which the loop has been entered or left.\<close>

definition made :: "func_pc \<Rightarrow> bool" where
  "made f \<longleftrightarrow> f \<noteq> F_callback \<and> f \<noteq> F_make"

definition elt_inv :: "elthread \<Rightarrow> bool" where
  "elt_inv s \<longleftrightarrow>
     (et_loop s \<longleftrightarrow> made (et_func s) \<and> et_func s \<noteq> F_exited)
   \<and> (et_init s \<longleftrightarrow> made (et_func s) \<and> et_func s \<noteq> F_init)
   \<and> (et_ctor s = C_asleep \<longrightarrow> \<not> et_init s)
   \<and> (et_ctor s = C_done \<longrightarrow> made (et_func s))
   \<and> (et_dtor s \<noteq> D_none \<longrightarrow> et_ctor s = C_done)
   \<and> (et_quit s \<longrightarrow> et_dtor s \<in> {D_wakeup, D_join, D_done} \<and> made (et_func s))
   \<and> (et_func s \<in> {F_reset, F_exited} \<longrightarrow> et_quit s)
   \<and> (et_dtor s = D_done \<longrightarrow> et_func s = F_exited) \<and> et_dtor s \<noteq> D_terminate"

lemma elt_ctor_inv: "elt_inv s \<Longrightarrow> elt_inv (elt_ctor s)"
  by (cases "et_ctor s"; cases "et_func s"; cases "et_dtor s") (auto simp add: elt_inv_def elt_ctor_def made_def)

lemma threadFunc_inv: "elt_inv s \<Longrightarrow> elt_inv (threadFunc s)"
  by (cases "et_func s"; cases "et_ctor s"; cases "et_dtor s") (auto simp add: elt_inv_def threadFunc_def made_def)

lemma elt_dtor_inv: "elt_inv s \<Longrightarrow> et_ctor s = C_done \<Longrightarrow> elt_inv (elt_dtor s)"
  by (cases "et_func s"; cases "et_dtor s") (simp_all add: elt_inv_def elt_dtor_def made_def)

lemma elt_spurious_inv: "elt_inv s \<Longrightarrow> et_ctor s = C_asleep \<Longrightarrow> elt_inv (s\<lparr>et_ctor := C_wait\<rparr>)"
  by (auto simp: elt_inv_def)

lemma elt_step_inv: "elt_inv s \<Longrightarrow> elt_step s s' \<Longrightarrow> elt_inv s'"
  by (erule elt_stepE) (simp_all add: elt_ctor_inv threadFunc_inv elt_dtor_inv elt_spurious_inv)

lemma elt_inv_init: "elt_inv new_EventLoopThread"
  by (simp add: elt_inv_def new_EventLoopThread_def made_def)

interpretation elt: invariant_system "\<lambda>s. s = new_EventLoopThread" elt_step elt_inv
  by unfold_locales (auto simp: elt_inv_init intro: elt_step_inv)

lemma threadFunc_quit:
  "et_quit s \<Longrightarrow> et_func s \<notin> {F_make, F_enter} \<Longrightarrow> et_quit (threadFunc s)"
  "et_func s = F_poll \<Longrightarrow> et_func (threadFunc s) = F_while"
  "et_quit s \<Longrightarrow> et_func s = F_while \<Longrightarrow> et_func (threadFunc s) = F_reset"
  "et_func s = F_reset \<Longrightarrow> et_func (threadFunc s) = F_exited"
  "et_func s = F_exited \<Longrightarrow> et_func (threadFunc s) = F_exited"
  by (auto simp: threadFunc_def split: func_pc.splits)

lemma quit_ends: "et_quit s \<Longrightarrow> et_func s \<in> {F_while, F_poll, F_reset, F_exited} \<Longrightarrow> et_func ((threadFunc ^^ 3) s) = F_exited"
  by (auto simp: threadFunc_quit numeral_3_eq_3)

text \<open>C30: what the owner of an \<open>EventLoopThread\<close> gets, in every run in which the thread uses no member before the constructor has
  constructed it (\<open>\<not> et_early\<close>: the thread is started before \<open>mutex_\<close>, \<open>cond_\<close> and \<open>callback_\<close> exist, and in the other runs,
  which theorem \<open>loop_thread_destructor_hangs\<close> shows to exist, nothing is claimed).  In every interleaving the constructor does not sleep once the
  loop is initialised (no lost wake-up) and returns only after it has been made; \<open>loop_\<close> stays set until the
  destructor has called \<open>quit\<close>, so the destructor always finds it; a \<open>quit\<close> that comes after the loop was
  entered ends the thread in three more of its lines (an earlier one is lost); and when the destructor has returned the thread has
  ended and the loop is gone.\<close>

theorem loop_thread_owner:
  assumes "reachable (\<lambda>s. s = new_EventLoopThread) elt_step s" "\<not> et_early s"
  shows "(et_ctor s = C_asleep \<longrightarrow> \<not> et_init s) \<and> (et_ctor s = C_done \<and> et_dtor s \<in> {D_none, D_test, D_flag} \<longrightarrow> et_loop s)
    \<and> et_dtor s \<noteq> D_terminate
    \<and> (et_quit s \<and> et_func s \<notin> {F_init, F_enter} \<longrightarrow> et_func ((threadFunc ^^ 3) s) = F_exited)
    \<and> (et_dtor s = D_done \<longrightarrow> et_func s = F_exited \<and> \<not> et_loop s)"
proof -
  have inv: "elt_inv s" by (rule elt.inv_reachable [OF assms(1)])
  have "et_quit s \<Longrightarrow> et_func s \<notin> {F_init, F_enter} \<Longrightarrow> et_func s \<in> {F_while, F_poll, F_reset, F_exited}"
    using inv by (cases "et_func s") (simp_all add: elt_inv_def made_def)
  with quit_ends [of s] show ?thesis using inv by (auto simp: elt_inv_def made_def)
qed

text \<open>Runs as lists of the lines that execute.\<close>

datatype elt_line = Ctor_line | Func_line | Dtor_line

fun elt_exec :: "elt_line list \<Rightarrow> elthread \<Rightarrow> elthread option" where
  "elt_exec [] s = Some s"
| "elt_exec (Ctor_line # ls) s = elt_exec ls (elt_ctor s)"
| "elt_exec (Func_line # ls) s = elt_exec ls (threadFunc s)"
| "elt_exec (Dtor_line # ls) s = (if et_ctor s = C_done then elt_exec ls (elt_dtor s) else None)"

lemma elt_exec_reachable:
  "elt_exec ls s = Some t \<Longrightarrow> reachable init elt_step s \<Longrightarrow> reachable init elt_step t"
  by (induction ls s rule: elt_exec.induct) (auto split: if_splits intro: reachable_step elt_step.intros)

lemmas elt_eval = elt_ctor_def threadFunc_def elt_dtor_def new_EventLoopThread_def

theorem loop_thread_owner_witness:
  "\<exists>s. reachable (\<lambda>s. s = new_EventLoopThread) elt_step s \<and> \<not> et_early s \<and> et_dtor s = D_done \<and> \<not> et_loop s"
proof -
  obtain s where s: "elt_exec (replicate 5 Ctor_line @ replicate 5 Func_line @ Ctor_line # replicate 4 Dtor_line @ replicate 3 Func_line @ [Dtor_line])
      new_EventLoopThread = Some s" "et_dtor s = D_done" "\<not> et_early s"
    by (simp add: elt_eval numeral_eq_Suc)
  have r: "reachable (\<lambda>s. s = new_EventLoopThread) elt_step s" by (rule elt_exec_reachable [OF s(1)]) (simp add: reachable_init)
  with s(2,3) loop_thread_owner [OF r s(3)] show ?thesis by blast
qed

text \<open>The states in which the destructor waits for a loop that will never see \<open>quit_\<close>.\<close>

definition elt_hung :: "elthread \<Rightarrow> bool" where
  "elt_hung s \<longleftrightarrow> et_dtor s = D_join \<and> \<not> et_quit s \<and> et_func s \<in> {F_while, F_poll} \<and> et_ctor s = C_done"

lemma elt_hung_closed: "elt_hung s \<Longrightarrow> elt_step s t \<Longrightarrow> elt_hung t"
  by (erule elt_stepE) (auto simp: elt_hung_def elt_ctor_def threadFunc_def elt_dtor_def)

lemma elt_hung_forever: "elt_step\<^sup>*\<^sup>* s t \<Longrightarrow> elt_hung s \<Longrightarrow> elt_hung t"
  by (induction rule: rtranclp_induct) (auto intro: elt_hung_closed)

text \<open>The construction races with the thread, and the destructor can wait for ever.  \<open>loop()\<close> starts
  with \<open>quit_ = false\<close>: there is a run in which the destructor's \<open>quit\<close> comes between the end of the constructor and that
  line, after which no continuation lets \<open>join\<close> return; there is a run in which the thread tests \<open>callback_\<close>
  while the constructor has yet to construct it; and, as \<open>if (!loop_)\<close> is tested without the mutex, there is one in
  which the constructor has returned a loop whose \<open>init\<close> has not run.\<close>

theorem loop_thread_destructor_hangs:
  "(\<exists>s. reachable (\<lambda>s. s = new_EventLoopThread) elt_step s \<and> \<not> et_early s \<and> et_dtor s = D_join
      \<and> \<not> (\<exists>t. elt_step\<^sup>*\<^sup>* s t \<and> et_dtor t = D_done))
    \<and> (\<exists>s. reachable (\<lambda>s. s = new_EventLoopThread) elt_step s \<and> et_early s)
    \<and> (\<exists>s. reachable (\<lambda>s. s = new_EventLoopThread) elt_step s \<and> \<not> et_early s \<and> et_ctor s = C_done \<and> \<not> et_init s)"
proof (intro conjI)
  obtain s where s: "elt_exec (replicate 5 Ctor_line @ replicate 3 Func_line @ Ctor_line # replicate 4 Dtor_line @ [Func_line])
      new_EventLoopThread = Some s" "elt_hung s" "\<not> et_early s"
    by (simp add: elt_eval elt_hung_def numeral_eq_Suc)
  have "reachable (\<lambda>s. s = new_EventLoopThread) elt_step s" by (rule elt_exec_reachable [OF s(1)]) (simp add: reachable_init)
  with s(2,3) elt_hung_forever [of s] show "\<exists>s. reachable (\<lambda>s. s = new_EventLoopThread) elt_step s \<and> \<not> et_early s \<and> et_dtor s = D_join
      \<and> \<not> (\<exists>t. elt_step\<^sup>*\<^sup>* s t \<and> et_dtor t = D_done)"
    by (fastforce simp: elt_hung_def)
next
  obtain s where s: "elt_exec [Func_line] new_EventLoopThread = Some s" "et_early s" by (simp add: elt_eval)
  have "reachable (\<lambda>s. s = new_EventLoopThread) elt_step s" by (rule elt_exec_reachable [OF s(1)]) (simp add: reachable_init)
  with s(2) show "\<exists>s. reachable (\<lambda>s. s = new_EventLoopThread) elt_step s \<and> et_early s" by blast
next
  obtain s where s: "elt_exec (replicate 5 Ctor_line @ replicate 2 Func_line @ [Ctor_line]) new_EventLoopThread = Some s"
    "\<not> et_early s" "et_ctor s = C_done" "\<not> et_init s" by (simp add: elt_eval numeral_eq_Suc)
  have "reachable (\<lambda>s. s = new_EventLoopThread) elt_step s" by (rule elt_exec_reachable [OF s(1)]) (simp add: reachable_init)
  with s(2-) show "\<exists>s. reachable (\<lambda>s. s = new_EventLoopThread) elt_step s \<and> \<not> et_early s \<and> et_ctor s = C_done \<and> \<not> et_init s" by blast
qed

end
