(* ===== verification/Co_Echo.thy ===== *)
theory Co_Echo
  imports Channel_Epoll
begin

text \<open>
  \<open>src/src/net/coro/\<close>: the coroutine experiment.  \<open>epoll_wrap.hpp\<close> is the exception-throwing wrapper of
  epoll, \<open>co_epoll\<close> the loop that resumes the coroutine a ready event carries, \<open>co_io_recv\<close> and
  \<open>co_io_send\<close> the awaitables, \<open>co_echo_service.cpp\<close> the echo coroutine.  The kernel's \<open>epoll_ctl\<close>, \<open>epoll_wait\<close>,
  \<open>recv\<close> and \<open>send\<close> are parameters; a coroutine is known to the loop by its address.
\<close>

unbundle bit_operations_syntax

abbreviation EEXIST :: errno where
  "EEXIST \<equiv> E_other 17"

definition EPOLLONESHOT :: events where "EPOLLONESHOT = 0x40000000"

section \<open>epoll_wrapper\<close>

type_synonym 'k epoll_ctl = "'k \<Rightarrow> ctl \<Rightarrow> errno option \<times> 'k"

definition ctl_pass :: "'k epoll_ctl \<Rightarrow> int \<Rightarrow> events \<Rightarrow> nat \<Rightarrow> bool \<Rightarrow> ctl_op \<times> 'k \<Rightarrow> (ctl_op \<times> 'k, 'k) flow result option" where
  "ctl_pass epoll_ctl fd ev ptr add_retry = (\<lambda>(ctl_opt, k).
     case epoll_ctl k \<lparr>ctl_opcode = ctl_opt, ctl_fd = fd, ctl_events = ev, ctl_ptr = ptr\<rparr> of
       (None, k1) \<Rightarrow> ok (Return k1)
     | (Some e, k1) \<Rightarrow> if e \<noteq> EEXIST \<or> \<not> add_retry then Some (Inl System_error) else ok (Continue (CTL_MOD, k1)))"

definition ew_ctl :: "'k epoll_ctl \<Rightarrow> int \<Rightarrow> int \<Rightarrow> ctl_op \<Rightarrow> events \<Rightarrow> nat \<Rightarrow> bool \<Rightarrow> 'k \<Rightarrow> 'k outcome" where
  "ew_ctl epoll_ctl epfd fd ctl_opt ev ptr add_retry k =
     (if fd = epfd then Some (Inl Invalid_argument)
      else run_loop (ctl_pass epoll_ctl fd ev ptr add_retry) (ctl_opt, k))"

definition ew_try_add :: "'k epoll_ctl \<Rightarrow> int \<Rightarrow> int \<Rightarrow> events \<Rightarrow> nat \<Rightarrow> 'k \<Rightarrow> 'k outcome" where
  "ew_try_add epoll_ctl epfd fd ev ptr k = ew_ctl epoll_ctl epfd fd CTL_ADD ev ptr True k"

definition ew_add :: "'k epoll_ctl \<Rightarrow> int \<Rightarrow> int \<Rightarrow> events \<Rightarrow> nat \<Rightarrow> 'k \<Rightarrow> 'k outcome" where
  "ew_add epoll_ctl epfd fd ev ptr k = ew_ctl epoll_ctl epfd fd CTL_ADD ev ptr False k"

definition ew_mod :: "'k epoll_ctl \<Rightarrow> int \<Rightarrow> int \<Rightarrow> events \<Rightarrow> nat \<Rightarrow> 'k \<Rightarrow> 'k outcome" where
  "ew_mod epoll_ctl epfd fd ev ptr k = ew_ctl epoll_ctl epfd fd CTL_MOD ev ptr False k"

definition ew_del :: "'k epoll_ctl \<Rightarrow> int \<Rightarrow> int \<Rightarrow> 'k \<Rightarrow> 'k outcome" where
  "ew_del epoll_ctl epfd fd k = ew_ctl epoll_ctl epfd fd CTL_DEL 0 0 False k"

text \<open>\<open>loop\<close>: \<open>epoll_wait\<close> is tried again on EINTR; other errors are thrown.\<close>

type_synonym 'k epoll_wait = "'k \<Rightarrow> nat \<Rightarrow> wait_result \<times> 'k"

definition wait_pass :: "'k epoll_wait \<Rightarrow> nat \<Rightarrow> 'k \<Rightarrow> ('k, (events \<times> nat) list option \<times> 'k) flow result option" where
  "wait_pass epoll_wait maxevents k =
     (case epoll_wait k maxevents of
        (Ready rs, k1) \<Rightarrow> ok (Return (Some rs, k1))
      | (Wait_failed e, k1) \<Rightarrow> if e = EINTR then ok (Continue k1) else ok (Return (None, k1)))"

text \<open>The result \<open>None\<close> is the thrown \<open>system_error\<close>.\<close>

definition ew_loop :: "'k epoll_wait \<Rightarrow> nat \<Rightarrow> 'k \<Rightarrow> ((events \<times> nat) list option \<times> 'k) outcome" where
  "ew_loop epoll_wait maxevents k = run_loop (wait_pass epoll_wait maxevents) k"

section \<open>co_epoll\<close>

text \<open>\<open>cnt\<close> is a local variable of \<open>run\<close> without initial value; the array of events is kept from round
  to round.\<close>

record 'k co_epoll =
  ce_events :: "(events \<times> nat) list"
  ce_cnt :: "nat option"
  ce_kernel :: 'k

definition new_co_epoll :: "'k \<Rightarrow> 'k co_epoll" where
  "new_co_epoll k = \<lparr>ce_events = replicate 16 (0, 0), ce_cnt = None, ce_kernel = k\<rparr>"

definition resize :: "nat \<Rightarrow> (events \<times> nat) list \<Rightarrow> (events \<times> nat) list" where
  "resize n xs = take n xs @ replicate (n - length xs) (0, 0)"

text \<open>One event: the coroutine is resumed once for input and once for output; an exception of a
  resumed coroutine ends the handling of this event only.\<close>

type_synonym 'k resume = "nat \<Rightarrow> 'k \<Rightarrow> bool \<times> 'k"

definition handle_ready :: "'k resume \<Rightarrow> events \<times> nat \<Rightarrow> 'k \<Rightarrow> 'k" where
  "handle_ready resume ee k =
     (let (threw, k1) = (if fst ee AND EPOLLIN \<noteq> 0 then resume (snd ee) k else (False, k))
      in if \<not> threw \<and> fst ee AND EPOLLOUT \<noteq> 0 then snd (resume (snd ee) k1) else k1)"

text \<open>\<open>for (auto i = 0; i != cnt; i++)\<close> over \<open>epoll_events[i]\<close>.\<close>

fun handle_from :: "'k resume \<Rightarrow> (events \<times> nat) list \<Rightarrow> nat \<Rightarrow> nat \<Rightarrow> 'k \<Rightarrow> 'k result" where
  "handle_from resume evs i 0 k = Inr k"
| "handle_from resume evs i (Suc left) k =
     (if i < length evs then handle_from resume evs (Suc i) left (handle_ready resume (evs ! i) k)
      else Inl Out_of_bounds)"

text \<open>The two resizes: the second test sees the size the first has set.\<close>

definition adapt :: "nat \<Rightarrow> (events \<times> nat) list \<Rightarrow> (events \<times> nat) list" where
  "adapt cnt evs =
     (let evs1 = (if cnt \<ge> length evs then resize (cnt * 2) evs else evs)
      in if cnt \<le> length evs1 div 5 then resize (cnt div 2) evs1 else evs1)"

definition run_pass ::
    "('k \<Rightarrow> bool) \<Rightarrow> 'k epoll_wait \<Rightarrow> 'k resume \<Rightarrow> 'k co_epoll \<Rightarrow> ('k co_epoll, 'k co_epoll) flow result option" where
  "run_pass stopped epoll_wait resume p =
     (if stopped (ce_kernel p) then ok (Return p)
      else bind_out (ew_loop epoll_wait (length (ce_events p)) (ce_kernel p)) (\<lambda>(r, k).
        let p1 = (case r of
              None \<Rightarrow> p\<lparr>ce_kernel := k\<rparr>
            | Some rs \<Rightarrow> p\<lparr>ce_kernel := k, ce_cnt := Some (length rs), ce_events := rs @ drop (length rs) (ce_events p)\<rparr>)
        in case ce_cnt p1 of
             None \<Rightarrow> Some (Inl Uninit_read)
           | Some cnt \<Rightarrow> bind_out (Some (handle_from resume (ce_events p1) 0 cnt (ce_kernel p1))) (\<lambda>k2.
               ok (Continue (p1\<lparr>ce_kernel := k2, ce_events := adapt cnt (ce_events p1)\<rparr>)))))"

definition ce_run :: "('k \<Rightarrow> bool) \<Rightarrow> 'k epoll_wait \<Rightarrow> 'k resume \<Rightarrow> 'k co_epoll \<Rightarrow> 'k co_epoll outcome" where
  "ce_run stopped epoll_wait resume p = run_loop (run_pass stopped epoll_wait resume) p"

section \<open>The echo coroutine\<close>

datatype epc = RecvData | SendData | Finished

text \<open>The locals of the coroutine and its \<open>io_work\<close>: \<open>storage\<close>, the span \<open>buf\<close> as offset and length, the two
  sizes; the last two fields record what came in and what the kernel took.\<close>

record 'k echo =
  ec_fd :: int
  ec_nonblock :: bool
  ec_storage :: "char list"
  ec_off :: nat
  ec_len :: nat
  ec_rsz :: int
  ec_ssz :: int
  ec_errno :: "errno option"
  ec_pc :: epc
  ec_kernel :: 'k
  ec_received :: "char list"
  ec_sent :: "char list"

text \<open>\<open>span\<close> from a pointer into \<open>storage\<close>: its range must lie in the array.\<close>

definition set_buf :: "int \<Rightarrow> int \<Rightarrow> 'k echo \<Rightarrow> 'k echo result" where
  "set_buf off len c =
     (if 0 \<le> off \<and> 0 \<le> len \<and> off + len \<le> int (length (ec_storage c))
      then Inr (c\<lparr>ec_off := nat off, ec_len := nat len\<rparr>) else Inl Out_of_bounds)"

definition new_echo :: "int \<Rightarrow> bool \<Rightarrow> 'k \<Rightarrow> 'k echo" where
  "new_echo fd nonblock k =
     \<lparr>ec_fd = fd, ec_nonblock = nonblock, ec_storage = replicate 3900 (CHR 0x00), ec_off = 0, ec_len = 3900,
      ec_rsz = 0, ec_ssz = 0, ec_errno = None, ec_pc = RecvData, ec_kernel = k, ec_received = [], ec_sent = []\<rparr>"

definition buf_bytes :: "'k echo \<Rightarrow> char list" where
  "buf_bytes c = take (ec_len c) (drop (ec_off c) (ec_storage c))"

text \<open>\<open>await_suspend\<close> of a receiver and of a sender, one-shot and edge-triggered, for a descriptor that does
  not block (\<open>await_ready\<close> is false).\<close>

definition recv_events :: events where
  "recv_events = EPOLLIN OR EPOLLERR OR EPOLLONESHOT OR EPOLLRDHUP OR EPOLLET"

definition send_events :: events where
  "send_events = EPOLLOUT OR EPOLLERR OR EPOLLONESHOT OR EPOLLRDHUP OR EPOLLET"

definition co_suspend :: "'k epoll_ctl \<Rightarrow> int \<Rightarrow> nat \<Rightarrow> 'k echo \<Rightarrow> 'k echo outcome" where
  "co_suspend epoll_ctl epfd self c =
     (if \<not> ec_nonblock c \<or> ec_pc c = Finished then ok c
      else bind_out (ew_try_add epoll_ctl epfd (ec_fd c) (if ec_pc c = RecvData then recv_events else send_events) self (ec_kernel c))
        (\<lambda>k. ok (c\<lparr>ec_kernel := k\<rparr>)))"

text \<open>\<open>await_resume\<close> of \<open>io_recv\<close>: the bytes go to the front of the span.\<close>

definition recv_resume :: "('k \<Rightarrow> nat \<Rightarrow> sysret \<times> 'k) \<Rightarrow> 'k echo \<Rightarrow> int \<times> 'k echo" where
  "recv_resume recv c =
     (case recv (ec_kernel c) (ec_len c) of
        (Ret bs, k) \<Rightarrow>
          (int (length bs), c\<lparr>ec_kernel := k, ec_errno := None, ec_received := ec_received c @ bs,
             ec_storage := take (ec_off c) (ec_storage c) @ bs @ drop (ec_off c + length bs) (ec_storage c)\<rparr>)
      | (Fail e, k) \<Rightarrow> (- 1, c\<lparr>ec_kernel := k, ec_errno := Some e\<rparr>))"

definition send_resume :: "('k \<Rightarrow> char list \<Rightarrow> wret \<times> 'k) \<Rightarrow> 'k echo \<Rightarrow> int \<times> 'k echo" where
  "send_resume send c =
     (case send (ec_kernel c) (buf_bytes c) of
        (Wrote n, k) \<Rightarrow> (int n, c\<lparr>ec_kernel := k, ec_errno := None, ec_sent := ec_sent c @ take n (buf_bytes c)\<rparr>)
      | (WFail e, k) \<Rightarrow> (- 1, c\<lparr>ec_kernel := k, ec_errno := Some e\<rparr>))"

text \<open>The body from a resumption to the next \<open>co_await\<close> (or \<open>co_return\<close>).\<close>

definition after_recv :: "int \<times> 'k echo \<Rightarrow> 'k echo result" where
  "after_recv = (\<lambda>(rsz, c).
     let c1 = c\<lparr>ec_rsz := rsz\<rparr> in
     if rsz = 0 then Inr (c1\<lparr>ec_pc := Finished\<rparr>)
     else bind_res (set_buf 0 rsz c1) (\<lambda>c2. Inr (c2\<lparr>ec_pc := SendData\<rparr>)))"

definition after_send :: "int \<times> 'k echo \<Rightarrow> 'k echo result" where
  "after_send = (\<lambda>(ssz, c).
     let c1 = c\<lparr>ec_ssz := ssz\<rparr> in
     if ssz = - 1 \<and> ec_errno c1 = Some EPIPE then Inr (c1\<lparr>ec_pc := Finished\<rparr>)
     else if ssz = ec_rsz c1
     then bind_res (set_buf 0 (int (length (ec_storage c1))) c1) (\<lambda>c2. Inr (c2\<lparr>ec_pc := RecvData\<rparr>))
     else bind_res (set_buf ssz (ec_rsz c1 - ssz) c1) (\<lambda>c2. Inr (c2\<lparr>ec_rsz := ec_rsz c1 - ssz, ec_pc := SendData\<rparr>)))"

record 'k echo_sys =
  xs_recv :: "'k \<Rightarrow> nat \<Rightarrow> sysret \<times> 'k"
  xs_send :: "'k \<Rightarrow> char list \<Rightarrow> wret \<times> 'k"
  xs_ctl :: "'k epoll_ctl"

definition echo_resume :: "'k echo_sys \<Rightarrow> int \<Rightarrow> nat \<Rightarrow> 'k echo \<Rightarrow> 'k echo outcome" where
  "echo_resume sys epfd self c =
     (case ec_pc c of
        Finished \<Rightarrow> Some (Inl Out_of_bounds)
      | RecvData \<Rightarrow> bind_out (Some (after_recv (recv_resume (xs_recv sys) c))) (co_suspend (xs_ctl sys) epfd self)
      | SendData \<Rightarrow> bind_out (Some (after_send (send_resume (xs_send sys) c))) (co_suspend (xs_ctl sys) epfd self))"

text \<open>The service resumed whenever its event is ready, up to its \<open>co_return\<close>.\<close>

definition echo_pass :: "'k echo_sys \<Rightarrow> int \<Rightarrow> nat \<Rightarrow> 'k echo \<Rightarrow> ('k echo, 'k echo) flow result option" where
  "echo_pass sys epfd self c =
     bind_out (echo_resume sys epfd self c) (\<lambda>c1. ok (if ec_pc c1 = Finished then Return c1 else Continue c1))"

definition tcp_echo_service :: "'k echo_sys \<Rightarrow> int \<Rightarrow> nat \<Rightarrow> int \<Rightarrow> bool \<Rightarrow> 'k \<Rightarrow> 'k echo outcome" where
  "tcp_echo_service sys epfd self fd nonblock k =
     bind_out (co_suspend (xs_ctl sys) epfd self (new_echo fd nonblock k)) (run_loop (echo_pass sys epfd self))"

section \<open>Registration\<close>

text \<open>What \<open>epoll_ctl(2)\<close> documents, for a descriptor that supports epoll and a kernel with memory: the
  interest list changes as \<open>ctl_effect\<close> says, and otherwise EEXIST or ENOENT is reported.\<close>

definition epoll_man :: "('k \<Rightarrow> interest) \<Rightarrow> 'k epoll_ctl \<Rightarrow> bool" where
  "epoll_man il epoll_ctl \<longleftrightarrow>
     (\<forall>k c. case ctl_effect c (il k) of
        Some m \<Rightarrow> \<exists>k'. epoll_ctl k c = (None, k') \<and> il k' = m
      | None \<Rightarrow> \<exists>k'. epoll_ctl k c = (Some (if ctl_opcode c = CTL_ADD then EEXIST else ENOENT), k') \<and> il k' = il k)"

lemma epoll_man_refuses:
  assumes "epoll_man il epoll_ctl" "ctl_effect c (il k) = None"
  shows "\<exists>k'. epoll_ctl k c = (Some (if ctl_opcode c = CTL_ADD then EEXIST else ENOENT), k') \<and> il k' = il k"
  using assms(1) [unfolded epoll_man_def, THEN spec, of k, THEN spec, of c] assms(2) by simp

lemma ctl_pass_done:
  assumes "epoll_man il epoll_ctl" "ctl_effect \<lparr>ctl_opcode = op, ctl_fd = fd, ctl_events = ev, ctl_ptr = p\<rparr> (il k) = Some m"
  shows "\<exists>k'. run_loop (ctl_pass epoll_ctl fd ev p retry) (op, k) = ok k' \<and> il k' = m"
proof -
  obtain k' where "epoll_ctl k \<lparr>ctl_opcode = op, ctl_fd = fd, ctl_events = ev, ctl_ptr = p\<rparr> = (None, k')" "il k' = m"
    using assms by (fastforce simp: epoll_man_def split: option.splits)
  then show ?thesis by (auto simp: ctl_pass_def run_loop_step(2))
qed

text \<open>\<open>try_add\<close> always returns and registers the descriptor with the given events, whether it was
  registered before or not; nothing else in the interest list changes.\<close>

theorem try_add_registers:
  assumes "epoll_man il epoll_ctl" "fd \<noteq> epfd"
  shows "\<exists>k'. ew_try_add epoll_ctl epfd fd ev p k = ok k' \<and> il k' = (il k)(fd \<mapsto> (ev, p))"
proof (cases "il k fd")
  case None
  with ctl_pass_done [OF assms(1), of CTL_ADD fd ev p k] assms(2) show ?thesis
    by (simp add: ew_try_add_def ew_ctl_def ctl_effect_def)
next
  case (Some x)
  let ?c = "\<lparr>ctl_opcode = CTL_ADD, ctl_fd = fd, ctl_events = ev, ctl_ptr = p\<rparr>"
  obtain k1 where k1: "epoll_ctl k ?c = (Some EEXIST, k1)" "il k1 = il k"
    using epoll_man_refuses [OF assms(1), of ?c k] Some by (auto simp: ctl_effect_def)
  then have "run_loop (ctl_pass epoll_ctl fd ev p True) (CTL_ADD, k) = run_loop (ctl_pass epoll_ctl fd ev p True) (CTL_MOD, k1)"
    by (intro run_loop_step(1)) (simp add: ctl_pass_def)
  with ctl_pass_done [OF assms(1), of CTL_MOD fd ev p k1] assms(2) Some k1(2) show ?thesis
    by (simp add: ew_try_add_def ew_ctl_def ctl_effect_def)
qed

text \<open>A kernel that is its interest list.\<close>

definition list_ctl :: "interest epoll_ctl" where
  "list_ctl k c = (case ctl_effect c k of Some m \<Rightarrow> (None, m) | None \<Rightarrow> (Some (if ctl_opcode c = CTL_ADD then EEXIST else ENOENT), k))"

theorem try_add_registers_witness:
  "\<exists>k'. ew_try_add list_ctl 3 4 recv_events 7 (Map.empty(4 \<mapsto> (0, 1))) = ok k' \<and> k' 4 = Some (recv_events, 7)"
proof -
  have "epoll_man id list_ctl" by (auto simp: epoll_man_def list_ctl_def split: option.splits)
  from try_add_registers [OF this, of 4 3] show ?thesis by fastforce
qed

section \<open>The loop\<close>

text \<open>\<open>co_epoll\<close> does not survive a single event.  After a first round with one ready event the event array
  is shrunk to no entries; \<open>epoll_wait\<close> with room for none fails with EINVAL, the exception is swallowed,
  \<open>cnt\<close> still holds 1 and \<open>epoll_events[0]\<close> is read from the empty array.\<close>

theorem co_epoll_empties_array:
  assumes "epoll_wait k 16 = (Ready [ee], k1)" "\<not> stopped k" "\<not> stopped (handle_ready resume ee k1)"
    "\<forall>k. \<exists>k'. epoll_wait k 0 = (Wait_failed EINVAL, k')"
  shows "ce_run stopped epoll_wait resume (new_co_epoll k) = Some (Inl Out_of_bounds)"
proof -
  let ?k2 = "handle_ready resume ee k1"
  let ?p = "\<lparr>ce_events = [], ce_cnt = Some 1, ce_kernel = ?k2\<rparr>"
  have "ew_loop epoll_wait 16 k = ok (Some [ee], k1)"
    unfolding ew_loop_def by (rule run_loop_step(2)) (simp add: wait_pass_def assms(1))
  then have first: "run_pass stopped epoll_wait resume (new_co_epoll k) = ok (Continue ?p)"
    using assms(2) by (simp add: run_pass_def new_co_epoll_def adapt_def resize_def)
  obtain k' where "epoll_wait ?k2 0 = (Wait_failed EINVAL, k')" using assms(4) by blast
  then have "ew_loop epoll_wait 0 ?k2 = ok (None, k')"
    unfolding ew_loop_def by (intro run_loop_step(2)) (simp add: wait_pass_def)
  then have "run_pass stopped epoll_wait resume ?p = Some (Inl Out_of_bounds)"
    using assms(3) by (simp add: run_pass_def)
  then have "run_loop (run_pass stopped epoll_wait resume) ?p = Some (Inl Out_of_bounds)" by (rule run_loop_step(3))
  with run_loop_step(1) [of "run_pass stopped epoll_wait resume", OF first] show ?thesis by (simp add: ce_run_def)
qed

theorem co_epoll_empties_array_witness:
  "ce_run (\<lambda>_. False) (\<lambda>k n. (if n = 0 then Wait_failed EINVAL else Ready [(EPOLLIN, 5)], k)) (\<lambda>p k. (False, k @ [p])) (new_co_epoll [])
    = Some (Inl Out_of_bounds)"
  by (rule co_epoll_empties_array [where ee = "(EPOLLIN, 5)"]) simp_all

section \<open>The echo\<close>

definition armed :: "'k echo_sys \<Rightarrow> int \<Rightarrow> nat \<Rightarrow> int \<Rightarrow> bool \<Rightarrow> events \<Rightarrow> 'k \<Rightarrow> 'k \<Rightarrow> bool" where
  "armed sys epfd self fd nonblock ev k k' \<longleftrightarrow>
     (if nonblock then ew_try_add (xs_ctl sys) epfd fd ev self k = ok k' else k' = k)"

text \<open>The peer sends the messages \<open>ms\<close> and then closes; registration works; the kernel takes each message in
  one call of \<open>send\<close> or in two.\<close>

fun echoes :: "'k echo_sys \<Rightarrow> int \<Rightarrow> nat \<Rightarrow> int \<Rightarrow> bool \<Rightarrow> 'k \<Rightarrow> char list list \<Rightarrow> bool" where
  "echoes sys epfd self fd nb k [] =
     (\<exists>k0 k1. armed sys epfd self fd nb recv_events k k0 \<and> xs_recv sys k0 3900 = (Ret [], k1))"
| "echoes sys epfd self fd nb k (m # ms) =
     (\<exists>k0 k1 k2. armed sys epfd self fd nb recv_events k k0 \<and> xs_recv sys k0 3900 = (Ret m, k1)
        \<and> m \<noteq> [] \<and> length m \<le> 3900 \<and> armed sys epfd self fd nb send_events k1 k2
        \<and> ((\<exists>k3. xs_send sys k2 m = (Wrote (length m), k3) \<and> echoes sys epfd self fd nb k3 ms)
         \<or> (\<exists>a k3 k4 k5. 0 < a \<and> a < length m \<and> xs_send sys k2 m = (Wrote a, k3)
              \<and> armed sys epfd self fd nb send_events k3 k4
              \<and> xs_send sys k4 (drop a m) = (Wrote (length m - a), k5) \<and> echoes sys epfd self fd nb k5 ms)))"

text \<open>The coroutine waiting for input, with all of its storage as buffer.\<close>

definition listening_echo :: "int \<Rightarrow> bool \<Rightarrow> 'k echo \<Rightarrow> bool" where
  "listening_echo fd nb c \<longleftrightarrow> ec_fd c = fd \<and> ec_nonblock c = nb \<and> ec_pc c = RecvData \<and> length (ec_storage c) = 3900
     \<and> ec_off c = 0 \<and> ec_len c = 3900"

lemma co_suspend_armed:
  assumes "armed sys epfd self (ec_fd c) (ec_nonblock c) (if ec_pc c = RecvData then recv_events else send_events) (ec_kernel c) k'"
    "ec_pc c \<noteq> Finished"
  shows "co_suspend (xs_ctl sys) epfd self c = ok (c\<lparr>ec_kernel := k'\<rparr>)"
  using assms by (auto simp: co_suspend_def armed_def split: if_splits)

abbreviation serve :: "'k echo_sys \<Rightarrow> int \<Rightarrow> nat \<Rightarrow> 'k echo \<Rightarrow> 'k echo outcome" where
  "serve sys epfd self c \<equiv> bind_out (co_suspend (xs_ctl sys) epfd self c) (run_loop (echo_pass sys epfd self))"

lemma co_suspend_pc: "co_suspend ec epfd self c = ok c' \<Longrightarrow> ec_pc c' = ec_pc c"
  by (auto simp: co_suspend_def split: if_splits)

lemma echo_pass_continues:
  assumes "echo_resume sys epfd self c = co_suspend (xs_ctl sys) epfd self c'" "ec_pc c' \<noteq> Finished"
  shows "run_loop (echo_pass sys epfd self) c = serve sys epfd self c'"
proof -
  let ?m = "co_suspend (xs_ctl sys) epfd self c'"
  consider "?m = None" | e where "?m = Some (Inl e)" | x where "?m = ok x" by (cases ?m) (auto, metis sum.exhaust)
  then show ?thesis
  proof cases
    case 1
    then show ?thesis using assms(1) run_loop.simps [of "echo_pass sys epfd self" c] by (simp add: echo_pass_def)
  next
    case 2
    then have "echo_pass sys epfd self c = Some (Inl e)" using assms(1) by (simp add: echo_pass_def)
    with 2 show ?thesis by (simp add: run_loop_step(3))
  next
    case 3
    then have "echo_pass sys epfd self c = ok (Continue x)" using assms co_suspend_pc [OF 3] by (simp add: echo_pass_def)
    with 3 show ?thesis by (simp add: run_loop_step(1))
  qed
qed

text \<open>The coroutine sending: \<open>storage\<close> starts with the message, the span is the message from \<open>a\<close> on.\<close>

definition sending_echo :: "int \<Rightarrow> bool \<Rightarrow> char list \<Rightarrow> nat \<Rightarrow> 'k echo \<Rightarrow> bool" where
  "sending_echo fd nb m a c \<longleftrightarrow> ec_fd c = fd \<and> ec_nonblock c = nb \<and> ec_pc c = SendData \<and> length (ec_storage c) = 3900
     \<and> take (length m) (ec_storage c) = m \<and> a \<le> length m \<and> ec_off c = a \<and> ec_len c = length m - a
     \<and> ec_rsz c = int (length m - a) \<and> length m \<le> 3900"

lemma sending_buf: "sending_echo fd nb m a c \<Longrightarrow> buf_bytes c = drop a m"
  by (auto simp: sending_echo_def buf_bytes_def take_drop)

lemma serve_armed:
  assumes "armed sys epfd self (ec_fd c) (ec_nonblock c) (if ec_pc c = RecvData then recv_events else send_events) (ec_kernel c) k'"
    "ec_pc c \<noteq> Finished"
  shows "serve sys epfd self c = run_loop (echo_pass sys epfd self) (c\<lparr>ec_kernel := k'\<rparr>)"
  using co_suspend_armed [OF assms] by simp

lemma serve_recv:
  assumes "listening_echo fd nb c" "armed sys epfd self fd nb recv_events (ec_kernel c) k0" "xs_recv sys k0 3900 = (Ret m, k1)"
    "m \<noteq> []" "length m \<le> 3900"
  shows "\<exists>c'. serve sys epfd self c = serve sys epfd self c' \<and> sending_echo fd nb m 0 c' \<and> ec_kernel c' = k1
    \<and> ec_sent c' = ec_sent c \<and> ec_received c' = ec_received c @ m"
proof -
  let ?c = "c\<lparr>ec_kernel := k0\<rparr>"
  obtain c' where c': "after_recv (recv_resume (xs_recv sys) ?c) = Inr c'" "sending_echo fd nb m 0 c'" "ec_kernel c' = k1"
    "ec_sent c' = ec_sent c" "ec_received c' = ec_received c @ m"
    using assms by (auto simp: after_recv_def recv_resume_def set_buf_def listening_echo_def sending_echo_def)
  have "run_loop (echo_pass sys epfd self) ?c = serve sys epfd self c'"
    using c'(1,2) assms(1) by (intro echo_pass_continues) (auto simp: echo_resume_def listening_echo_def sending_echo_def)
  moreover have "serve sys epfd self c = run_loop (echo_pass sys epfd self) ?c"
    using assms(1,2) by (intro serve_armed) (auto simp: listening_echo_def)
  ultimately show ?thesis using c'(2-) by auto
qed

lemma serve_send_all:
  assumes "sending_echo fd nb m a c" "armed sys epfd self fd nb send_events (ec_kernel c) k0"
    "xs_send sys k0 (drop a m) = (Wrote (length m - a), k1)"
  shows "\<exists>c'. serve sys epfd self c = serve sys epfd self c' \<and> listening_echo fd nb c' \<and> ec_kernel c' = k1
    \<and> ec_sent c' = ec_sent c @ drop a m \<and> ec_received c' = ec_received c"
proof -
  let ?c = "c\<lparr>ec_kernel := k0\<rparr>"
  have b: "buf_bytes ?c = drop a m" using sending_buf [OF assms(1)] by (simp add: buf_bytes_def)
  obtain c' where c': "after_send (send_resume (xs_send sys) ?c) = Inr c'" "listening_echo fd nb c'" "ec_kernel c' = k1"
    "ec_sent c' = ec_sent c @ drop a m" "ec_received c' = ec_received c"
    using assms by (auto simp: after_send_def send_resume_def b set_buf_def listening_echo_def sending_echo_def)
  have "run_loop (echo_pass sys epfd self) ?c = serve sys epfd self c'"
    using c'(1,2) assms(1) by (intro echo_pass_continues) (auto simp: echo_resume_def listening_echo_def sending_echo_def)
  moreover have "serve sys epfd self c = run_loop (echo_pass sys epfd self) ?c"
    using assms(1,2) by (intro serve_armed) (auto simp: sending_echo_def)
  ultimately show ?thesis using c'(2-) by auto
qed

text \<open>A first partial write moves the span to where the rest of the message is.\<close>

lemma serve_send_part:
  assumes "sending_echo fd nb m 0 c" "armed sys epfd self fd nb send_events (ec_kernel c) k0"
    "xs_send sys k0 m = (Wrote a, k1)" "0 < a" "a < length m"
  shows "\<exists>c'. serve sys epfd self c = serve sys epfd self c' \<and> sending_echo fd nb m a c' \<and> ec_kernel c' = k1
    \<and> ec_sent c' = ec_sent c @ take a m \<and> ec_received c' = ec_received c"
proof -
  let ?c = "c\<lparr>ec_kernel := k0\<rparr>"
  have b: "buf_bytes ?c = m" using sending_buf [OF assms(1)] by (simp add: buf_bytes_def)
  obtain c' where c': "after_send (send_resume (xs_send sys) ?c) = Inr c'" "sending_echo fd nb m a c'" "ec_kernel c' = k1"
    "ec_sent c' = ec_sent c @ take a m" "ec_received c' = ec_received c"
    using assms by (auto simp: after_send_def send_resume_def b set_buf_def sending_echo_def)
  have "run_loop (echo_pass sys epfd self) ?c = serve sys epfd self c'"
    using c'(1,2) assms(1) by (intro echo_pass_continues) (auto simp: echo_resume_def sending_echo_def)
  moreover have "serve sys epfd self c = run_loop (echo_pass sys epfd self) ?c"
    using assms(1,2) by (intro serve_armed) (auto simp: sending_echo_def)
  ultimately show ?thesis using c'(2-) by auto
qed

lemma serve_message:
  assumes "echoes sys epfd self fd nb k (m # ms)" "listening_echo fd nb c" "ec_kernel c = k"
  shows "\<exists>c'. serve sys epfd self c = serve sys epfd self c' \<and> listening_echo fd nb c' \<and> echoes sys epfd self fd nb (ec_kernel c') ms
    \<and> ec_sent c' = ec_sent c @ m \<and> ec_received c' = ec_received c @ m"
proof -
  obtain k0 k1 k2 where k: "armed sys epfd self fd nb recv_events k k0" "xs_recv sys k0 3900 = (Ret m, k1)" "m \<noteq> []"
    "length m \<le> 3900" "armed sys epfd self fd nb send_events k1 k2" using assms(1) by auto
  obtain c1 where c1: "serve sys epfd self c = serve sys epfd self c1" "sending_echo fd nb m 0 c1" "ec_kernel c1 = k1"
    "ec_sent c1 = ec_sent c" "ec_received c1 = ec_received c @ m"
    using serve_recv [OF assms(2) _ k(2-4)] k(1) assms(3) by blast
  consider (whole) k3 where "xs_send sys k2 m = (Wrote (length m), k3)" "echoes sys epfd self fd nb k3 ms"
    | (cut) a k3 k4 k5 where "0 < a" "a < length m" "xs_send sys k2 m = (Wrote a, k3)" "armed sys epfd self fd nb send_events k3 k4"
        "xs_send sys k4 (drop a m) = (Wrote (length m - a), k5)" "echoes sys epfd self fd nb k5 ms"
    using assms(1) k by (auto simp: armed_def split: if_splits)
  then show ?thesis
  proof cases
    case whole
    then show ?thesis using serve_send_all [OF c1(2), of sys epfd self k2 k3] c1 k(5) by auto
  next
    case cut
    obtain c2 where c2: "serve sys epfd self c1 = serve sys epfd self c2" "sending_echo fd nb m a c2" "ec_kernel c2 = k3"
      "ec_sent c2 = ec_sent c1 @ take a m" "ec_received c2 = ec_received c1"
      using serve_send_part [OF c1(2) _ cut(3,1,2)] k(5) c1(3) by blast
    with serve_send_all [OF c2(2), of sys epfd self k4 k5] c1 cut show ?thesis by auto
  qed
qed

lemma serve_echoes:
  assumes "echoes sys epfd self fd nb (ec_kernel c) ms" "listening_echo fd nb c"
  shows "\<exists>c'. serve sys epfd self c = ok c' \<and> ec_sent c' = ec_sent c @ concat ms \<and> ec_received c' = ec_received c @ concat ms
    \<and> ec_pc c' = Finished"
  using assms
proof (induction ms arbitrary: c)
  case Nil
  then obtain k0 k1 where k: "armed sys epfd self fd nb recv_events (ec_kernel c) k0" "xs_recv sys k0 3900 = (Ret [], k1)" by auto
  have "serve sys epfd self c = run_loop (echo_pass sys epfd self) (c\<lparr>ec_kernel := k0\<rparr>)"
    using Nil(2) k(1) by (intro serve_armed) (auto simp: listening_echo_def)
  moreover obtain c' where c': "echo_pass sys epfd self (c\<lparr>ec_kernel := k0\<rparr>) = ok (Return c')" "ec_sent c' = ec_sent c"
    "ec_received c' = ec_received c" "ec_pc c' = Finished"
    using Nil(2) k(2) by (auto simp: echo_pass_def echo_resume_def listening_echo_def recv_resume_def after_recv_def co_suspend_def)
  ultimately show ?case by (auto simp: run_loop_step(2) [of "echo_pass sys epfd self", OF c'(1)])
next
  case (Cons m ms)
  from serve_message [OF Cons.prems(1,2) refl] obtain c1 where
    "serve sys epfd self c = serve sys epfd self c1" "listening_echo fd nb c1" "echoes sys epfd self fd nb (ec_kernel c1) ms"
    "ec_sent c1 = ec_sent c @ m" "ec_received c1 = ec_received c @ m" by blast
  with Cons.IH [of c1] show ?case by auto
qed

text \<open>C31: the echo service returns what it receives.  Whatever the messages (up to the 3900 bytes of its storage),
  with a blocking or a non-blocking descriptor, if the kernel takes each message in one or two writes
  then the coroutine ends after the peer has closed, and the bytes sent are the bytes received.\<close>

theorem echo_service_echoes:
  assumes "echoes sys epfd self fd nb k ms"
  shows "\<exists>c. tcp_echo_service sys epfd self fd nb k = ok c \<and> ec_sent c = concat ms \<and> ec_received c = concat ms \<and> ec_pc c = Finished"
  using serve_echoes [of sys epfd self fd nb "new_echo fd nb k" ms] assms
  by (simp add: tcp_echo_service_def new_echo_def listening_echo_def)

text \<open>A kernel that is the list of messages to come; it takes at most \<open>n\<close> bytes at a time.\<close>

definition list_peer :: "nat \<Rightarrow> char list list echo_sys" where
  "list_peer n = \<lparr>xs_recv = (\<lambda>k _. case k of [] \<Rightarrow> (Ret [], []) | m # ms \<Rightarrow> (Ret m, ms)),
     xs_send = (\<lambda>k bs. (Wrote (min n (length bs)), k)), xs_ctl = (\<lambda>k _. (None, k))\<rparr>"

theorem echo_service_echoes_witness:
  "\<exists>c. tcp_echo_service (list_peer 2) 3 0 4 True [''abcd'', ''x''] = ok c \<and> ec_sent c = ''abcdx''"
proof -
  have "armed (list_peer 2) 3 0 4 True ev k k" for ev k
    by (auto simp: armed_def list_peer_def ew_try_add_def ew_ctl_def ctl_pass_def intro!: run_loop_step(2))
  then have "echoes (list_peer 2) 3 0 4 True [''abcd'', ''x''] [''abcd'', ''x'']"
    by (fastforce simp: list_peer_def)
  from echo_service_echoes [OF this] show ?thesis by auto
qed

text \<open>The span of the rest is always taken from the start of \<open>storage\<close>: with a kernel that takes one byte per
  call, everything after the first byte is the second byte of the message.\<close>

definition stuck_at_1 :: "char \<Rightarrow> nat \<Rightarrow> char list list echo \<Rightarrow> bool" where
  "stuck_at_1 x r c \<longleftrightarrow> \<not> ec_nonblock c \<and> ec_pc c = SendData \<and> length (ec_storage c) = 3900 \<and> ec_storage c ! 1 = x
     \<and> ec_off c = 1 \<and> ec_len c = r \<and> ec_rsz c = int r \<and> 0 < r \<and> r < 3900 \<and> ec_kernel c = []"

lemma blocking_serve: "\<not> ec_nonblock c \<Longrightarrow> serve sys epfd self c = run_loop (echo_pass sys epfd self) c"
  by (simp add: co_suspend_def)

lemma stuck_sends:
  assumes "stuck_at_1 x r c"
  shows "\<exists>c'. run_loop (echo_pass (list_peer 1) epfd self) c = serve (list_peer 1) epfd self c' \<and> ec_sent c' = ec_sent c @ [x]
    \<and> ec_received c' = ec_received c \<and> (if r = 1 then listening_echo (ec_fd c) False c' \<and> ec_kernel c' = [] else stuck_at_1 x (r - 1) c')"
proof -
  let ?y = "list_peer 1"
  have b: "length (buf_bytes c) = r" "take 1 (buf_bytes c) = [x]"
    using assms by (auto simp: stuck_at_1_def buf_bytes_def take_Suc hd_drop_conv_nth neq_Nil_conv)
  have sr: "send_resume (xs_send ?y) c = (1, c\<lparr>ec_errno := None, ec_sent := ec_sent c @ [x]\<rparr>)"
    using assms b by (simp add: send_resume_def list_peer_def stuck_at_1_def min_def)
  obtain c' where c': "after_send (send_resume (xs_send ?y) c) = Inr c'" "ec_sent c' = ec_sent c @ [x]" "ec_received c' = ec_received c"
    "if r = 1 then listening_echo (ec_fd c) False c' \<and> ec_kernel c' = [] else stuck_at_1 x (r - 1) c'"
    using assms unfolding sr
    by (cases "r = 1") (auto simp: stuck_at_1_def after_send_def set_buf_def listening_echo_def Let_def nat_minus_as_int of_nat_diff)
  moreover have "run_loop (echo_pass ?y epfd self) c = serve ?y epfd self c'"
    using c'(1,4) assms by (intro echo_pass_continues) (auto simp: echo_resume_def listening_echo_def stuck_at_1_def split: if_splits)
  ultimately show ?thesis by blast
qed

lemma stuck_repeats:
  "stuck_at_1 x r c \<Longrightarrow> \<exists>c'. run_loop (echo_pass (list_peer 1) epfd self) c = ok c' \<and> ec_sent c' = ec_sent c @ replicate r x
    \<and> ec_received c' = ec_received c"
proof (induction r arbitrary: c)
  case 0
  then show ?case by (simp add: stuck_at_1_def)
next
  case (Suc r)
  from stuck_sends [OF Suc.prems] obtain c1 where
    c1: "run_loop (echo_pass (list_peer 1) epfd self) c = serve (list_peer 1) epfd self c1" "ec_sent c1 = ec_sent c @ [x]"
    "ec_received c1 = ec_received c" "if Suc r = 1 then listening_echo (ec_fd c) False c1 \<and> ec_kernel c1 = [] else stuck_at_1 x (Suc r - 1) c1" by blast
  show ?case
  proof (cases r)
    case 0
    with c1(4) have "listening_echo (ec_fd c) False c1" "echoes (list_peer 1) epfd self (ec_fd c) False (ec_kernel c1) []"
      by (auto simp: armed_def list_peer_def)
    from serve_echoes [OF this(2,1)] c1(1-3) 0 show ?thesis by auto
  next
    case (Suc n)
    with c1(4) have st: "stuck_at_1 x r c1" by simp
    then have "serve (list_peer 1) epfd self c1 = run_loop (echo_pass (list_peer 1) epfd self) c1"
      by (intro blocking_serve) (simp add: stuck_at_1_def)
    with Suc.IH [OF st] c1(1-3) show ?thesis by auto
  qed
qed

text \<open>Several partial writes corrupt the echo.  When the kernel takes one byte per call, a message of two or
  more bytes comes back as its first byte followed by copies of its second.\<close>

theorem echo_service_corrupts:
  assumes "2 \<le> length m" "length m \<le> 3900"
  shows "\<exists>c. tcp_echo_service (list_peer 1) epfd self fd False [m] = ok c \<and> ec_received c = m
    \<and> ec_sent c = m ! 0 # replicate (length m - 1) (m ! 1)"
proof -
  let ?y = "list_peer 1"
  have ar: "armed ?y epfd self fd False ev k k" for ev k by (simp add: armed_def)
  then obtain c1 where c1: "serve ?y epfd self (new_echo fd False [m]) = serve ?y epfd self c1" "sending_echo fd False m 0 c1"
    "ec_kernel c1 = []" "ec_sent c1 = []" "ec_received c1 = m"
    using serve_recv [of fd False "new_echo fd False [m]" ?y epfd self "[m]" m "[]"] assms
    by (fastforce simp: listening_echo_def new_echo_def list_peer_def)
  obtain c2 where c2: "serve ?y epfd self c1 = serve ?y epfd self c2" "sending_echo fd False m 1 c2" "ec_kernel c2 = []"
    "ec_sent c2 = [m ! 0]" "ec_received c2 = m"
  proof -
    have "take 1 m = [m ! 0]" using assms(1) by (cases m) auto
    moreover have "xs_send ?y [] m = (Wrote 1, [])" using assms(1) by (simp add: list_peer_def min_def)
    then have "\<exists>c'. serve ?y epfd self c1 = serve ?y epfd self c' \<and> sending_echo fd False m 1 c' \<and> ec_kernel c' = []
        \<and> ec_sent c' = ec_sent c1 @ take 1 m \<and> ec_received c' = ec_received c1"
      using ar assms(1) c1(3) by (intro serve_send_part [OF c1(2), where ?k0.0 = "[]"]) auto
    ultimately show thesis using that c1(4,5) by auto
  qed
  have "take (length m) (ec_storage c2) ! 1 = m ! 1" using c2(2) by (simp add: sending_echo_def)
  then have "stuck_at_1 (m ! 1) (length m - 1) c2" using c2(2,3) assms by (auto simp: sending_echo_def stuck_at_1_def)
  then obtain c3 where "run_loop (echo_pass ?y epfd self) c2 = ok c3" "ec_sent c3 = ec_sent c2 @ replicate (length m - 1) (m ! 1)"
    "ec_received c3 = ec_received c2" using stuck_repeats by blast
  moreover have "serve ?y epfd self c2 = run_loop (echo_pass ?y epfd self) c2"
    using c2(2) by (intro blocking_serve) (simp add: sending_echo_def)
  ultimately show ?thesis using c1 c2 by (simp add: tcp_echo_service_def)
qed

theorem echo_service_corrupts_witness:
  "\<exists>c. tcp_echo_service (list_peer 1) 3 0 4 False [''abcd''] = ok c \<and> ec_received c = ''abcd'' \<and> ec_sent c = ''abbb''"
  using echo_service_corrupts [of "''abcd''" 3 0 4] by (simp add: numeral_eq_Suc)

end
