(* ===== verification/Mmap_Wrap.thy ===== *)
theory Mmap_Wrap
  imports Adl_Prelude
begin

text \<open>
  \<open>src/src/file_options/mmap_wrap.hpp\<close>: a file mapped into memory for reading, as an object whose constructor
  throws and whose destructor releases.  The kernel's calls are parameters; the object records, in
  order, which descriptors and mappings it has taken and given back.
\<close>

section \<open>The object\<close>

datatype held = Descriptor int | Mapping nat int

datatype mm_event = Acquire held | Release held

text \<open>\<open>addr_\<close> is \<open>None\<close> for \<open>MAP_FAILED\<close>; \<open>mm_trace\<close> records the calls.\<close>

record mmap =
  mm_fd :: int
  mm_size :: int
  mm_addr :: "nat option"
  mm_trace :: "mm_event list"

record 'k mm_sys =
  ms_open :: "'k \<Rightarrow> string \<Rightarrow> int \<times> 'k"
  ms_fstat :: "'k \<Rightarrow> int \<Rightarrow> int option \<times> 'k"
  ms_mmap :: "'k \<Rightarrow> int \<Rightarrow> int \<Rightarrow> nat option \<times> 'k"

definition mm_note :: "mm_event \<Rightarrow> mmap \<Rightarrow> mmap" where
  "mm_note e m = m\<lparr>mm_trace := mm_trace m @ [e]\<rparr>"

definition cleanup :: "mmap \<Rightarrow> mmap" where
  "cleanup m =
     (let m1 = (case mm_addr m of
            Some a \<Rightarrow> (mm_note (Release (Mapping a (mm_size m))) m)\<lparr>mm_addr := None\<rparr>
          | None \<Rightarrow> m);
          m2 = (if mm_fd m1 \<noteq> - 1 then (mm_note (Release (Descriptor (mm_fd m1))) m1)\<lparr>mm_fd := - 1\<rparr> else m1)
      in m2\<lparr>mm_size := 0\<rparr>)"

text \<open>The constructor: the first component tells whether it returned (\<open>False\<close>: \<open>runtime_error\<close>).\<close>

definition construct :: "'k mm_sys \<Rightarrow> string \<Rightarrow> 'k \<Rightarrow> bool \<times> mmap \<times> 'k" where
  "construct sys path k =
     (let m = \<lparr>mm_fd = - 1, mm_size = 0, mm_addr = None, mm_trace = []\<rparr>;
          (fd, k1) = ms_open sys k path;
          m1 = m\<lparr>mm_fd := fd\<rparr>
      in if fd = - 1 then (False, m1, k1)
         else let m2 = mm_note (Acquire (Descriptor fd)) m1;
                  (sz, k2) = ms_fstat sys k1 fd
              in case sz of
                   None \<Rightarrow> (False, cleanup m2, k2)
                 | Some n \<Rightarrow>
                     let (a, k3) = ms_mmap sys k2 n fd in
                     case a of
                       None \<Rightarrow> (False, cleanup (m2\<lparr>mm_size := n\<rparr>), k3)
                     | Some p \<Rightarrow> (True, (mm_note (Acquire (Mapping p n)) m2)\<lparr>mm_size := n, mm_addr := Some p\<rparr>, k3))"

definition is_open :: "mmap \<Rightarrow> bool" where
  "is_open m \<longleftrightarrow> mm_addr m \<noteq> None"

definition mm_data :: "mmap \<Rightarrow> nat option" where
  "mm_data m = mm_addr m"

section \<open>Resources\<close>

text \<open>What is still held after a sequence of calls; \<open>None\<close> when something is released that is not held (in
  the reverse order of acquisition).\<close>

fun still_held :: "mm_event list \<Rightarrow> held list \<Rightarrow> held list option" where
  "still_held [] hs = Some hs"
| "still_held (Acquire h # es) hs = still_held es (h # hs)"
| "still_held (Release h # es) hs = (case hs of [] \<Rightarrow> None | g # gs \<Rightarrow> if g = h then still_held es gs else None)"

lemma still_held_append:
  "still_held (es @ fs) hs = (case still_held es hs of None \<Rightarrow> None | Some gs \<Rightarrow> still_held fs gs)"
  by (induction es hs rule: still_held.induct) (auto split: list.splits)

text \<open>The object holds exactly what its fields say.\<close>

definition mm_inv :: "mmap \<Rightarrow> bool" where
  "mm_inv m \<longleftrightarrow> still_held (mm_trace m) [] =
     Some ((case mm_addr m of None \<Rightarrow> [] | Some a \<Rightarrow> [Mapping a (mm_size m)]) @ (if mm_fd m = - 1 then [] else [Descriptor (mm_fd m)]))"

lemma cleanup_releases:
  "mm_inv m \<Longrightarrow> mm_inv (cleanup m) \<and> mm_fd (cleanup m) = - 1 \<and> mm_addr (cleanup m) = None \<and> mm_size (cleanup m) = 0"
  by (auto simp: mm_inv_def cleanup_def mm_note_def still_held_append Let_def split: option.splits)

lemma cleanup_twice: "cleanup (cleanup m) = cleanup m"
  by (auto simp: cleanup_def mm_note_def Let_def split: option.splits)

lemma construct_inv: "construct sys path k = (b, m, k') \<Longrightarrow> mm_inv m"
  by (auto simp: construct_def mm_inv_def cleanup_def mm_note_def Let_def split: if_splits option.splits prod.splits)

text \<open>No mapping and no descriptor leaks.  Whatever the calls of the kernel return, a constructor that throws
  has given back all it took; one that returns holds the descriptor and a mapping of \<open>size_\<close> bytes,
  and the destructor gives both back, the mapping first and each exactly once, also when it is run twice.\<close>

theorem mmap_no_leak:
  assumes "construct sys path k = (b, m, k')"
  shows "if b then (\<exists>p n. mm_data m = Some p \<and> mm_size m = n \<and> still_held (mm_trace m) [] = Some [Mapping p n, Descriptor (mm_fd m)])
      \<and> still_held (mm_trace (cleanup (cleanup m))) [] = Some [] \<and> \<not> is_open (cleanup m)
    else still_held (mm_trace m) [] = Some [] \<and> \<not> is_open m"
proof -
  have inv: "mm_inv m" by (rule construct_inv [OF assms])
  have "still_held (mm_trace (cleanup m)) [] = Some []" "\<not> is_open (cleanup m)"
    using cleanup_releases [OF inv] by (simp_all add: mm_inv_def is_open_def)
  moreover have "b \<Longrightarrow> mm_addr m \<noteq> None \<and> mm_fd m \<noteq> - 1" "\<not> b \<Longrightarrow> mm_addr m = None \<and> mm_fd m = - 1"
    using assms by (auto simp: construct_def cleanup_def mm_note_def Let_def split: if_splits option.splits prod.splits)
  ultimately show ?thesis using inv by (auto simp: cleanup_twice mm_inv_def mm_data_def is_open_def)
qed

theorem mmap_no_leak_witness:
  "still_held (mm_trace (fst (snd (construct \<lparr>ms_open = (\<lambda>k _. (3, k)), ms_fstat = (\<lambda>k _. (Some 0, k)),
     ms_mmap = (\<lambda>k n _. (if n = 0 then None else Some 4096, k))\<rparr> ''f'' ())))) [] = Some []"
proof -
  let ?sys = "\<lparr>ms_open = (\<lambda>k _. (3, k)), ms_fstat = (\<lambda>k _. (Some 0, k)), ms_mmap = (\<lambda>k n _. (if n = 0 then None else Some 4096, k))\<rparr>"
  obtain m where "construct ?sys ''f'' () = (False, m, ())" by (simp add: construct_def)
  from mmap_no_leak [OF this] this show ?thesis by simp
qed

end
