(* ===== verification/Socket_Ops.thy ===== *)
theory Socket_Ops
  imports Inet_Address
begin

text \<open>
  \<open>src/src/net/Socket.{h,cpp}\<close>: the socket functions that do more than pass a call on: the options, creation,
  binding and listening, the descriptor flags, pending errors and addresses, and how the
  constructor of \<open>Acceptor\<close> puts them together.  The system calls are parameters; \<open>fcntl\<close> works on flags of the
  width of \<open>int\<close>.
\<close>

unbundle bit_operations_syntax

section \<open>System calls\<close>

type_synonym flags = "32 word"

datatype sockopt = TCP_NODELAY | SO_REUSEADDR | SO_REUSEPORT | SO_KEEPALIVE
datatype fcntl_kind = FL | FD

record 'k sock_sys =
  so_socket :: "'k \<Rightarrow> int \<times> 'k"
  so_setsockopt :: "'k \<Rightarrow> int \<Rightarrow> sockopt \<Rightarrow> int \<Rightarrow> int \<times> 'k"
  so_bind :: "'k \<Rightarrow> int \<Rightarrow> sockaddr_in \<Rightarrow> int \<times> 'k"
  so_listen :: "'k \<Rightarrow> int \<Rightarrow> int \<times> 'k"
  so_getfl :: "'k \<Rightarrow> int \<Rightarrow> fcntl_kind \<Rightarrow> flags"
  so_setfl :: "'k \<Rightarrow> int \<Rightarrow> fcntl_kind \<Rightarrow> flags \<Rightarrow> 'k"
  so_error :: "'k \<Rightarrow> int \<Rightarrow> errno + int"
  so_sockname :: "'k \<Rightarrow> int \<Rightarrow> sockaddr_in option"
  so_peername :: "'k \<Rightarrow> int \<Rightarrow> sockaddr_in option"
  so_open_null :: "'k \<Rightarrow> int \<times> 'k"

definition O_NONBLOCK :: flags where "O_NONBLOCK = 0x800"
definition FD_CLOEXEC :: flags where "FD_CLOEXEC = 1"

section \<open>Socket and sock\<close>

definition setsockopt_bool :: "'k sock_sys \<Rightarrow> int \<Rightarrow> sockopt \<Rightarrow> bool \<Rightarrow> 'k \<Rightarrow> 'k" where
  "setsockopt_bool sys fd opt on k = (let optval = (if on then 1 else 0) in snd (so_setsockopt sys k fd opt optval))"

definition sock_setTcpNoDelay :: "'k sock_sys \<Rightarrow> int \<Rightarrow> bool \<Rightarrow> 'k \<Rightarrow> 'k" where
  "sock_setTcpNoDelay sys fd on k = setsockopt_bool sys fd TCP_NODELAY on k"

definition setReuseAddr :: "'k sock_sys \<Rightarrow> int \<Rightarrow> bool \<Rightarrow> 'k \<Rightarrow> 'k" where
  "setReuseAddr sys fd on k = setsockopt_bool sys fd SO_REUSEADDR on k"

text \<open>The branch for a failed call is empty.\<close>

definition setReusePort :: "'k sock_sys \<Rightarrow> int \<Rightarrow> bool \<Rightarrow> 'k \<Rightarrow> 'k" where
  "setReusePort sys fd on k = setsockopt_bool sys fd SO_REUSEPORT on k"

definition setKeepAlive :: "'k sock_sys \<Rightarrow> int \<Rightarrow> bool \<Rightarrow> 'k \<Rightarrow> 'k" where
  "setKeepAlive sys fd on k = setsockopt_bool sys fd SO_KEEPALIVE on k"

text \<open>A failure is printed and the descriptor -1 returned.\<close>

definition createNonblockingOrDie :: "'k sock_sys \<Rightarrow> 'k \<Rightarrow> int \<times> 'k" where
  "createNonblockingOrDie sys k = so_socket sys k"

definition setNonBlockAndCloseOnExec :: "'k sock_sys \<Rightarrow> int \<Rightarrow> 'k \<Rightarrow> 'k" where
  "setNonBlockAndCloseOnExec sys fd k =
     (let fl = so_getfl sys k fd FL OR O_NONBLOCK;
          k1 = so_setfl sys k fd FL fl;
          fl2 = so_getfl sys k1 fd FD OR FD_CLOEXEC
      in so_setfl sys k1 fd FD fl2)"

definition bindOrDie :: "'k sock_sys \<Rightarrow> int \<Rightarrow> sockaddr_in \<Rightarrow> 'k \<Rightarrow> 'k result" where
  "bindOrDie sys fd addr k = (let (ret, k1) = so_bind sys k fd addr in if ret < 0 then Inl Abort else Inr k1)"

definition listenOrDie :: "'k sock_sys \<Rightarrow> int \<Rightarrow> 'k \<Rightarrow> 'k result" where
  "listenOrDie sys fd k = (let (ret, k1) = so_listen sys k fd in if ret < 0 then Inl Abort else Inr k1)"

definition getSocketError :: "'k sock_sys \<Rightarrow> int \<Rightarrow> 'k \<Rightarrow> errno + int" where
  "getSocketError sys fd k = (case so_error sys k fd of Inl e \<Rightarrow> Inl e | Inr optval \<Rightarrow> Inr optval)"

text \<open>The address is zeroed first; a failed call leaves it so.\<close>

definition getLocalAddr :: "'k sock_sys \<Rightarrow> int \<Rightarrow> 'k \<Rightarrow> sockaddr_in" where
  "getLocalAddr sys fd k = (case so_sockname sys k fd of None \<Rightarrow> zero_addr | Some a \<Rightarrow> a)"

definition getPeerAddr :: "'k sock_sys \<Rightarrow> int \<Rightarrow> 'k \<Rightarrow> sockaddr_in" where
  "getPeerAddr sys fd k = (case so_peername sys k fd of None \<Rightarrow> zero_addr | Some a \<Rightarrow> a)"

section \<open>The listening socket of an Acceptor\<close>

text \<open>The constructor up to the channel's callback, and \<open>listen\<close>; the result is the socket and the reserve
  descriptor.\<close>

definition open_acceptor :: "'k sock_sys \<Rightarrow> sockaddr_in \<Rightarrow> 'k \<Rightarrow> (int \<times> int \<times> 'k) result" where
  "open_acceptor sys listenAddr k =
     (let (fd, k1) = createNonblockingOrDie sys k; (idleFd, k2) = so_open_null sys k1 in
      bind_res (cassert (idleFd \<ge> 0)) (\<lambda>_.
        let k3 = setReuseAddr sys fd True k2; k4 = setReusePort sys fd True k3 in
        bind_res (bindOrDie sys fd listenAddr k4) (\<lambda>k5. Inr (fd, idleFd, k5))))"

definition start_listening :: "'k sock_sys \<Rightarrow> sockaddr_in \<Rightarrow> 'k \<Rightarrow> (int \<times> int \<times> 'k) result" where
  "start_listening sys listenAddr k =
     bind_res (open_acceptor sys listenAddr k) (\<lambda>(fd, idleFd, k1).
       bind_res (listenOrDie sys fd k1) (\<lambda>k2. Inr (fd, idleFd, k2)))"

section \<open>A kernel with sockets\<close>

text \<open>What the calls promise (socket(7), bind(2), listen(2), fcntl(2)), over what can be observed of a
  descriptor: its options, its address, whether it listens, its flags.\<close>

record ksock =
  ks_opts :: "sockopt \<Rightarrow> bool"
  ks_addr :: "sockaddr_in option"
  ks_listening :: bool
  ks_flags :: "fcntl_kind \<Rightarrow> flags"

definition fresh_sock :: "ksock \<Rightarrow> bool" where
  "fresh_sock x \<longleftrightarrow> (\<forall>opt. \<not> ks_opts x opt) \<and> ks_addr x = None \<and> \<not> ks_listening x"

text \<open>Each call on an open descriptor changes only that descriptor; calls on others fail.\<close>

definition sock_man :: "('k \<Rightarrow> int \<rightharpoonup> ksock) \<Rightarrow> 'k sock_sys \<Rightarrow> bool" where
  "sock_man socks sys \<longleftrightarrow>
     (\<forall>k. (let (fd, k') = so_socket sys k in
         if fd < 0 then socks k' = socks k \<and> fd = - 1
         else \<exists>x. fresh_sock x \<and> socks k fd = None \<and> socks k' = (socks k)(fd \<mapsto> x)))
   \<and> (\<forall>k. let (fd, k') = so_open_null sys k in socks k' = socks k)
   \<and> (\<forall>k fd opt v. let (r, k') = so_setsockopt sys k fd opt v in
         case socks k fd of
           Some x \<Rightarrow> socks k' = (socks k)(fd \<mapsto> x\<lparr>ks_opts := (ks_opts x)(opt := v \<noteq> 0)\<rparr>)
         | None \<Rightarrow> socks k' = socks k)
   \<and> (\<forall>k fd a. let (r, k') = so_bind sys k fd a in
         case socks k fd of
           Some x \<Rightarrow> if r < 0 then socks k' = socks k else socks k' = (socks k)(fd \<mapsto> x\<lparr>ks_addr := Some a\<rparr>)
         | None \<Rightarrow> r < 0)
   \<and> (\<forall>k fd. let (r, k') = so_listen sys k fd in
         case socks k fd of
           Some x \<Rightarrow> if r < 0 then socks k' = socks k else socks k' = (socks k)(fd \<mapsto> x\<lparr>ks_listening := True\<rparr>)
         | None \<Rightarrow> r < 0)
   \<and> (\<forall>k. socks k (- 1) = None)"

lemma sock_manD:
  assumes "sock_man socks sys"
  shows "so_socket sys k = (fd, k') \<Longrightarrow> 0 \<le> fd \<Longrightarrow> \<exists>x. fresh_sock x \<and> socks k fd = None \<and> socks k' = (socks k)(fd \<mapsto> x)"
    and "so_socket sys k = (fd, k') \<Longrightarrow> fd < 0 \<Longrightarrow> socks k' = socks k \<and> fd = - 1"
    and "so_open_null sys k = (fd, k') \<Longrightarrow> socks k' = socks k"
    and "so_bind sys k fd a = (r, k') \<Longrightarrow> socks k fd = None \<Longrightarrow> r < 0"
    and "so_bind sys k fd a = (r, k') \<Longrightarrow> socks k fd = Some x \<Longrightarrow> 0 \<le> r \<Longrightarrow> socks k' = (socks k)(fd \<mapsto> x\<lparr>ks_addr := Some a\<rparr>)"
    and "so_listen sys k fd = (r, k') \<Longrightarrow> socks k fd = Some x \<Longrightarrow> 0 \<le> r \<Longrightarrow> socks k' = (socks k)(fd \<mapsto> x\<lparr>ks_listening := True\<rparr>)"
    and "socks k (- 1) = None"
proof -
  note m = assms [unfolded sock_man_def]
  show "so_socket sys k = (fd, k') \<Longrightarrow> 0 \<le> fd \<Longrightarrow> \<exists>x. fresh_sock x \<and> socks k fd = None \<and> socks k' = (socks k)(fd \<mapsto> x)"
    using m [THEN conjunct1, THEN spec, of k] by simp
  show "so_socket sys k = (fd, k') \<Longrightarrow> fd < 0 \<Longrightarrow> socks k' = socks k \<and> fd = - 1"
    using m [THEN conjunct1, THEN spec, of k] by simp
  show "so_open_null sys k = (fd, k') \<Longrightarrow> socks k' = socks k"
    using m [THEN conjunct2, THEN conjunct1, THEN spec, of k] by simp
  show "so_bind sys k fd a = (r, k') \<Longrightarrow> socks k fd = None \<Longrightarrow> r < 0"
    using m [THEN conjunct2, THEN conjunct2, THEN conjunct2, THEN conjunct1, THEN spec, of k, THEN spec, of fd, THEN spec, of a] by simp
  show "so_bind sys k fd a = (r, k') \<Longrightarrow> socks k fd = Some x \<Longrightarrow> 0 \<le> r \<Longrightarrow> socks k' = (socks k)(fd \<mapsto> x\<lparr>ks_addr := Some a\<rparr>)"
    using m [THEN conjunct2, THEN conjunct2, THEN conjunct2, THEN conjunct1, THEN spec, of k, THEN spec, of fd, THEN spec, of a] by simp
  show "so_listen sys k fd = (r, k') \<Longrightarrow> socks k fd = Some x \<Longrightarrow> 0 \<le> r \<Longrightarrow> socks k' = (socks k)(fd \<mapsto> x\<lparr>ks_listening := True\<rparr>)"
    using m [THEN conjunct2, THEN conjunct2, THEN conjunct2, THEN conjunct2, THEN conjunct1, THEN spec, of k, THEN spec, of fd] by simp
  show "socks k (- 1) = None" using m by blast
qed

lemma set_option:
  assumes "sock_man socks sys"
  shows "socks (setsockopt_bool sys fd opt on k) =
    (case socks k fd of None \<Rightarrow> socks k | Some x \<Rightarrow> (socks k)(fd \<mapsto> x\<lparr>ks_opts := (ks_opts x)(opt := on)\<rparr>))"
proof -
  obtain r k' where r: "so_setsockopt sys k fd opt (if on then 1 else 0) = (r, k')" by fastforce
  from assms [unfolded sock_man_def, THEN conjunct2, THEN conjunct2, THEN conjunct1, THEN spec, of k, THEN spec, of fd,
      THEN spec, of opt, THEN spec, of "if on then 1 else 0"] r
  show ?thesis by (auto simp: setsockopt_bool_def split: option.splits)
qed

text \<open>The listening socket.  When the constructor of \<open>Acceptor\<close> and \<open>listen\<close> return, the socket is a new one, bound to the
  requested address, listening, with both reuse options set, and no other socket has changed; when no
  socket can be created the program ends in \<open>bindOrDie\<close>.\<close>

theorem acceptor_socket_ready:
  assumes "sock_man socks sys" "start_listening sys addr k = Inr (fd, idleFd, k')"
  shows "0 \<le> fd \<and> 0 \<le> idleFd \<and> socks k fd = None
    \<and> (\<exists>x. socks k' = (socks k)(fd \<mapsto> x) \<and> ks_addr x = Some addr \<and> ks_listening x \<and> ks_opts x SO_REUSEADDR
        \<and> ks_opts x SO_REUSEPORT \<and> \<not> ks_opts x TCP_NODELAY)"
proof -
  note man = sock_manD [OF assms(1)] and opt = set_option [OF assms(1)]
  obtain k1 k2 k5 r5 r6 where st: "so_socket sys k = (fd, k1)" "so_open_null sys k1 = (idleFd, k2)" "0 \<le> idleFd"
    "so_bind sys (setReusePort sys fd True (setReuseAddr sys fd True k2)) fd addr = (r5, k5)" "0 \<le> r5"
    "so_listen sys k5 fd = (r6, k')" "0 \<le> r6"
    using assms(2)
    by (auto simp: start_listening_def open_acceptor_def createNonblockingOrDie_def bindOrDie_def listenOrDie_def Let_def
        split: prod.splits if_splits)
  have k2: "socks k2 = socks k1" by (rule man(3) [OF st(2)])
  have fd: "0 \<le> fd"
  proof (rule ccontr)
    assume "\<not> 0 \<le> fd"
    then have "fd = - 1" using man(2) [OF st(1)] by simp
    then have "socks (setReusePort sys fd True (setReuseAddr sys fd True k2)) fd = None" using man(7) by simp
    from man(4) [OF st(4) this] st(5) show False by simp
  qed
  obtain x where x: "fresh_sock x" "socks k fd = None" "socks k1 = (socks k)(fd \<mapsto> x)" using man(1) [OF st(1) fd] by blast
  let ?x4 = "x\<lparr>ks_opts := (ks_opts x)(SO_REUSEADDR := True, SO_REUSEPORT := True)\<rparr>"
  have "socks (setReusePort sys fd True (setReuseAddr sys fd True k2)) = (socks k)(fd \<mapsto> ?x4)"
    using opt k2 x(3) by (simp add: setReusePort_def setReuseAddr_def)
  with man(5) [OF st(4) _ st(5)] have "socks k5 = (socks k)(fd \<mapsto> ?x4\<lparr>ks_addr := Some addr\<rparr>)" by simp
  with man(6) [OF st(6) _ st(7)] have "socks k' = (socks k)(fd \<mapsto> ?x4\<lparr>ks_addr := Some addr, ks_listening := True\<rparr>)" by simp
  with fd st(3) x(1,2) show ?thesis by (intro conjI exI) (auto simp: fresh_sock_def)
qed

text \<open>\<open>fcntl\<close>: with a kernel that stores the flags, all others are kept.\<close>

lemma setNonBlock_flags:
  assumes "\<And>k fd i v. so_getfl sys (so_setfl sys k fd i v) fd = (so_getfl sys k fd)(i := v)"
  shows "so_getfl sys (setNonBlockAndCloseOnExec sys fd k) fd FL = so_getfl sys k fd FL OR O_NONBLOCK"
    "so_getfl sys (setNonBlockAndCloseOnExec sys fd k) fd FD = so_getfl sys k fd FD OR FD_CLOEXEC"
  by (simp_all add: setNonBlockAndCloseOnExec_def Let_def assms)

text \<open>A kernel that is its table of sockets and hands out one.\<close>

definition live :: "(int \<rightharpoonup> ksock) \<Rightarrow> int \<rightharpoonup> ksock" where
  "live k fd = (if fd < 0 then None else k fd)"

definition map_kernel :: "(int \<rightharpoonup> ksock) sock_sys" where
  "map_kernel =
     \<lparr>so_socket = (\<lambda>k. if k 3 = None then (3, k(3 \<mapsto> \<lparr>ks_opts = (\<lambda>_. False), ks_addr = None, ks_listening = False, ks_flags = (\<lambda>_. 0)\<rparr>)) else (- 1, k)),
      so_setsockopt = (\<lambda>k fd opt v. case live k fd of None \<Rightarrow> (- 1, k) | Some x \<Rightarrow> (0, k(fd \<mapsto> x\<lparr>ks_opts := (ks_opts x)(opt := v \<noteq> 0)\<rparr>))),
      so_bind = (\<lambda>k fd a. case live k fd of None \<Rightarrow> (- 1, k) | Some x \<Rightarrow> (0, k(fd \<mapsto> x\<lparr>ks_addr := Some a\<rparr>))),
      so_listen = (\<lambda>k fd. case live k fd of None \<Rightarrow> (- 1, k) | Some x \<Rightarrow> (0, k(fd \<mapsto> x\<lparr>ks_listening := True\<rparr>))),
      so_getfl = (\<lambda>k fd i. case live k fd of None \<Rightarrow> - 1 | Some x \<Rightarrow> ks_flags x i),
      so_setfl = (\<lambda>k fd i v. case live k fd of None \<Rightarrow> k | Some x \<Rightarrow> k(fd \<mapsto> x\<lparr>ks_flags := (ks_flags x)(i := v)\<rparr>)),
      so_error = (\<lambda>k fd. Inr 0), so_sockname = (\<lambda>k fd. None), so_peername = (\<lambda>k fd. None),
      so_open_null = (\<lambda>k. (4, k))\<rparr>"

lemma live_upd [simp]: "0 \<le> fd \<Longrightarrow> live (k(fd \<mapsto> x)) = (live k)(fd \<mapsto> x)"
  by (auto simp: live_def)

lemma live_SomeD: "live k fd = Some x \<Longrightarrow> 0 \<le> fd"
  by (auto simp: live_def split: if_splits)

lemma map_kernel_man: "sock_man live map_kernel"
  unfolding sock_man_def
  by (auto simp: map_kernel_def fresh_sock_def Let_def live_def [of _ "- 1"] live_def [of _ 3] split: option.splits
      dest!: live_SomeD intro!: exI [of _ "\<lparr>ks_opts = (\<lambda>_. False), ks_addr = None, ks_listening = False, ks_flags = (\<lambda>_. 0)\<rparr>"])

theorem acceptor_socket_ready_witness:
  "\<exists>fd idleFd k' x. start_listening map_kernel zero_addr Map.empty = Inr (fd, idleFd, k') \<and> live k' fd = Some x \<and> ks_listening x
    \<and> ks_opts x SO_REUSEPORT"
proof -
  obtain fd idleFd k' where r: "start_listening map_kernel zero_addr Map.empty = Inr (fd, idleFd, k')"
    by (simp add: start_listening_def open_acceptor_def createNonblockingOrDie_def bindOrDie_def listenOrDie_def setReuseAddr_def
        setReusePort_def setsockopt_bool_def map_kernel_def live_def)
  from acceptor_socket_ready [OF map_kernel_man r] r show ?thesis by fastforce
qed

end
