(* ===== verification/Reflect_Server.thy ===== *)
theory Reflect_Server
  imports Conn_Stream
begin

unbundle bit_operations_syntax

text \<open>
  \<open>src/src/example/reflectServer.cpp\<close>, the echo server on top of \<open>TcpServer\<close>, and the default callbacks of
  \<open>net/tcpConnection.cpp\<close>.  The message callback sends back what the input buffer holds; the theorem
  follows the bytes through \<open>Channel::handleEvent\<close>, \<open>handleRead\<close>, the callback, \<open>send\<close> and \<open>handleWrite\<close>.
\<close>

section \<open>Callbacks\<close>

text \<open>\<open>conn->send(content, len)\<close> reads \<open>len\<close> bytes at \<open>peek()\<close>.\<close>

definition reflectionMessageCallback :: "'k syscalls \<Rightarrow> 'k tconn \<Rightarrow> 'k tconn outcome" where
  "reflectionMessageCallback sk c =
     (let len = readable (tc_in c) in
      bind_out (Some (read_bytes (tc_in c) len)) (\<lambda>content.
      bind_out (send sk content c) (\<lambda>c1.
      bind_out (Some (retrieve (tc_in c1) len)) (\<lambda>b. ok (c1\<lparr>tc_in := b\<rparr>)))))"

definition reflect_callbacks :: "'k syscalls \<Rightarrow> 'k callbacks" where
  "reflect_callbacks sk =
     \<lparr>cb_message = reflectionMessageCallback sk, cb_close = removeConnection, cb_writeComplete = (\<lambda>c. ok c)\<rparr>"

text \<open>What a connection does when no callback is set: the bytes are dropped.\<close>

definition defaultMessageCallback :: "'k tconn \<Rightarrow> 'k tconn outcome" where
  "defaultMessageCallback c = ok (c\<lparr>tc_in := reset_nb (tc_in c)\<rparr>)"

definition default_callbacks :: "'k callbacks" where
  "default_callbacks = \<lparr>cb_message = defaultMessageCallback, cb_close = removeConnection, cb_writeComplete = (\<lambda>c. ok c)\<rparr>"

lemma keeps_setin: "life_inv c \<Longrightarrow> life_inv (c\<lparr>tc_in := b\<rparr>) \<and> life_le c (c\<lparr>tc_in := b\<rparr>)"
  by (simp add: life_inv_def life_le_def)

lemma keeps_reflection: "keeps (reflectionMessageCallback sk)"
proof (rule keepsI)
  fix c c' :: "'a tconn" assume c: "life_inv c" "reflectionMessageCallback sk c = ok c'"
  then obtain content c1 b where "send sk content c = ok c1" "c' = c1\<lparr>tc_in := b\<rparr>"
    by (auto simp: reflectionMessageCallback_def Let_def)
  with keepsD [OF keeps_send c(1)] keeps_setin [of c1 b] show "life_inv c' \<and> life_le c c'"
    by (auto intro: life_le_trans)
qed

lemma keeps_returns: "keeps (\<lambda>c. ok c)"
  by (rule keepsI) simp

interpretation refl: conn_client sk "reflect_callbacks sk" for sk
  by unfold_locales (simp_all add: reflect_callbacks_def keeps_reflection keeps_removeConnection keeps_returns)

interpretation dflt: conn_client sk default_callbacks for sk
proof unfold_locales
  show "keeps (cb_message default_callbacks)"
    by (rule keepsI) (auto simp: default_callbacks_def defaultMessageCallback_def keeps_setin)
qed (simp_all add: default_callbacks_def keeps_removeConnection keeps_returns)

section \<open>The echoed stream\<close>

lemma reflection_ok:
  assumes "world_contract sk fd stream ended intr sent" "attached fd c" "tc_state c = kConnected"
    "int (length (nb_bytes (tc_out c))) + int (length (nb_bytes (tc_in c))) < 2 ^ 30"
  shows "\<exists>c'. reflectionMessageCallback sk c = ok c' \<and> attached fd c' \<and> handlers_set c' = handlers_set c \<and> tc_state c' = kConnected
    \<and> nb_bytes (tc_in c') = [] \<and> wire sent c' = wire sent c @ nb_bytes (tc_in c) \<and> stream (tc_kernel c') = stream (tc_kernel c)"
proof -
  note w = worldD [OF assms(1)] and a = assms(2) [unfolded attached_def]
  let ?bs = "nb_bytes (tc_in c)"
  have inv: "nb_inv (tc_in c)" using a by (simp add: conn_inv_def)
  have len: "readable (tc_in c) = int (length ?bs)" using length_nb_bytes [OF nb_inv_wf [OF inv]] by simp
  have rb: "read_bytes (tc_in c) (readable (tc_in c)) = Inr ?bs"
    using read_bytes_ok [OF inv, of "readable (tc_in c)"] len by simp
  have nocut: "\<not> cut_off sk ?bs c" using w(3) a by (simp add: cut_off_def peer_alive_def)
  obtain c1 where c1: "sendInLoop sk (Message ?bs) c = ok c1" "conn_inv c1" "same_conn c c1" "wire sent c1 = wire sent c @ ?bs"
    using sendInLoop_message [of sk c sent ?bs] w(2) a assms(3,4) nocut by auto
  have st: "stream (tc_kernel c1) = stream (tc_kernel c)" by (rule sendInLoop_keeps [OF c1(1)]) (use w a in simp_all)
  obtain b where b: "retrieve (tc_in c) (readable (tc_in c)) = Inr b" "nb_inv b" "nb_bytes b = []"
    using nbq.get_ok [OF inv order_refl] len by auto
  have "send sk ?bs c = ok c1" using c1(1) a assms(3) by (simp add: send_def run_task_def)
  moreover have "tc_in c1 = tc_in c" using c1(3) by (simp add: same_conn_def)
  ultimately have "reflectionMessageCallback sk c = ok (c1\<lparr>tc_in := b\<rparr>)" using rb b(1) by (simp add: reflectionMessageCallback_def)
  moreover have "attached fd (c1\<lparr>tc_in := b\<rparr>)" using c1(2,3) a b(2) by (simp add: attached_def conn_inv_def same_conn_def)
  ultimately show ?thesis using c1 b st assms(3) handlers_set_sendInLoop [OF c1(1)] by (auto simp: wire_def same_conn_def)
qed

text \<open>Everything that has arrived is on the wire, in the input buffer, or still in the socket, in this order.\<close>

definition echo_inv :: "int \<Rightarrow> ('k \<Rightarrow> char list) \<Rightarrow> ('k \<Rightarrow> char list) \<Rightarrow> 'k tconn \<times> char list \<Rightarrow> bool" where
  "echo_inv fd stream sent = (\<lambda>(c, arrived). attached fd c \<and> handlers_set c \<and> tc_state c = kConnected
     \<and> wire sent c @ nb_bytes (tc_in c) @ stream (tc_kernel c) = arrived \<and> int (length arrived) + 4096 < 2 ^ 30)"

text \<open>What a readable event does, \<open>rs\<close> and \<open>r\<close> being the results of the calls of \<open>read\<close>: at the end of the
  stream the connection is closed; when bytes came and the last call would have blocked, everything in the input
  buffer and everything read joins the outgoing stream and the input buffer is empty; when the last call failed, or there was nothing to
  read, the bytes stay in the input buffer.\<close>

definition read_echoed :: "('k \<Rightarrow> char list) \<Rightarrow> 'k tconn \<Rightarrow> sysret list \<Rightarrow> sysret \<Rightarrow> 'k tconn \<Rightarrow> bool" where
  "read_echoed sent c rs r c' \<longleftrightarrow>
     (let got = concat (map sys_bytes rs) in case r of
        Ret bs \<Rightarrow> tc_state c' = kDisconnected
      | Fail e \<Rightarrow> tc_state c' = kConnected \<and>
          (if e = EAGAIN \<and> got \<noteq> []
           then nb_bytes (tc_in c') = [] \<and> wire sent c' = wire sent c @ nb_bytes (tc_in c) @ got
           else nb_bytes (tc_in c') = nb_bytes (tc_in c) @ got \<and> wire sent c' = wire sent c))"

lemma handleRead_reflect:
  assumes "world_contract sk fd stream ended intr sent" "echo_inv fd stream sent (c, arrived)"
  shows "\<exists>c' rs r k. handleRead sk (reflect_callbacks sk) c = ok c'
    \<and> read_calls (sk_read sk) fd (tc_kernel c) (rs @ [r]) k \<and> list_all reads_again rs \<and> \<not> reads_again r
    \<and> read_echoed sent c rs r c'
    \<and> (echo_inv fd stream sent (c', arrived) \<or> tc_state c' = kDisconnected
      \<and> \<not> isWriting (tc_channel c') \<and> tc_alive c' \<and> tc_inLoop c')"
proof -
  let ?cb = "reflect_callbacks sk"
  note e = assms(2) [unfolded echo_inv_def, simplified]
  have inv: "nb_inv (tc_in c)" using e by (simp add: attached_def conn_inv_def)
  have len: "readable (tc_in c) = int (length (nb_bytes (tc_in c)))" using length_nb_bytes [OF nb_inv_wf [OF inv]] by simp
  have tot: "length arrived = length (wire sent c) + length (nb_bytes (tc_in c)) + length (stream (tc_kernel c))"
    using e by (metis length_append add.assoc)
  have at: "attached fd c" and room: "readable (tc_in c) + int (length (stream (tc_kernel c))) + 4096 < 2 ^ 30"
    using e len tot by auto
  obtain b k rs r where r: "nb_inv b" "nb_bytes b = nb_bytes (tc_in c) @ concat (map sys_bytes rs)"
    "stream (tc_kernel c) = concat (map sys_bytes rs) @ stream k" "sent k = sent (tc_kernel c)"
    "let c1 = c\<lparr>tc_in := b, tc_kernel := k\<rparr> in
      handleRead sk ?cb c = (case r of Ret bs \<Rightarrow> handleClose ?cb c1
        | Fail e \<Rightarrow> if e = EAGAIN \<and> concat (map sys_bytes rs) \<noteq> [] then cb_message ?cb (note_effect Message_callback c1)
                  else handleError c1)"
    and calls: "read_calls (sk_read sk) fd (tc_kernel c) (rs @ [r]) k" "list_all reads_again rs" "\<not> reads_again r"
    by (rule handleRead_calls [OF assms(1) at room])
  define c1 where "c1 = c\<lparr>tc_in := b, tc_kernel := k\<rparr>"
  have c1: "attached fd c1" "handlers_set c1" "tc_state c1 = kConnected" "wire sent c1 = wire sent c" "tc_in c1 = b"
    "wire sent c1 @ nb_bytes (tc_in c1) @ stream (tc_kernel c1) = arrived"
    using e r by (auto simp: c1_def attached_def conn_inv_def wire_def)
  have out: "length (nb_bytes (tc_out c1)) \<le> length (wire sent c)" by (simp add: c1_def wire_def)
  from r(5) consider (close) bs where "r = Ret bs" "handleRead sk ?cb c = handleClose ?cb c1"
    | (message) "r = Fail EAGAIN" "concat (map sys_bytes rs) \<noteq> []" "handleRead sk ?cb c = cb_message ?cb (note_effect Message_callback c1)"
    | (error) e where "r = Fail e" "\<not> (e = EAGAIN \<and> concat (map sys_bytes rs) \<noteq> [])" "handleRead sk ?cb c = handleError c1"
    by (cases r) (auto simp: c1_def Let_def split: if_splits)
  then have "\<exists>c'. handleRead sk ?cb c = ok c' \<and> read_echoed sent c rs r c'
    \<and> (echo_inv fd stream sent (c', arrived) \<or> tc_state c' = kDisconnected
      \<and> \<not> isWriting (tc_channel c') \<and> tc_alive c' \<and> tc_inLoop c')"
  proof cases
    case close
    let ?d = "note_effect Close_callback (on_channel DisableAll (c1\<lparr>tc_state := kDisconnected\<rparr>))"
    have "handleClose ?cb c1 = removeConnection ?d"
      using c1(1,3) by (simp add: handleClose_def attached_def reflect_callbacks_def)
    moreover have "\<not> isWriting (tc_channel ?d)"
      using on_channel_flags(3) [of "c1\<lparr>tc_state := kDisconnected\<rparr>" DisableAll] c1(1) by (simp add: attached_def conn_inv_def)
    then have "\<exists>c'. removeConnection ?d = ok c' \<and> tc_state c' = kDisconnected
        \<and> \<not> isWriting (tc_channel c') \<and> tc_alive c' \<and> tc_inLoop c'"
      using c1(1) by (simp add: removeConnection_def run_task_def removeConnectionInLoop_def attached_def c1_def)
    ultimately show ?thesis using close by (auto simp: read_echoed_def)
  next
    case message
    let ?m = "note_effect Message_callback c1"
    have "int (length (nb_bytes (tc_out ?m))) + int (length (nb_bytes (tc_in ?m))) < 2 ^ 30"
      using out tot r(2,3) e by (simp add: c1_def)
    from reflection_ok [OF assms(1), of ?m] c1 this obtain c' where "reflectionMessageCallback sk ?m = ok c'" "attached fd c'" "handlers_set c'"
      "tc_state c' = kConnected" "nb_bytes (tc_in c') = []" "wire sent c' = wire sent c1 @ nb_bytes (tc_in c1)"
      "stream (tc_kernel c') = stream (tc_kernel c1)" by (auto simp: wire_def)
    with message c1 e r(2) show ?thesis by (auto simp: echo_inv_def reflect_callbacks_def read_echoed_def)
  next
    case error
    with c1 e r(2) show ?thesis by (auto simp: handleError_def echo_inv_def wire_def read_echoed_def)
  qed
  with calls show ?thesis by blast
qed

lemma handleWrite_frame:
  assumes "handleWrite sk c = ok c'"
  shows "tc_alive c' = tc_alive c \<and> tc_inLoop c' = tc_inLoop c \<and> tc_fd c' = tc_fd c \<and> tc_in c' = tc_in c"
  using assms
  by (auto simp: handleWrite_def in_subLoop_def shutdownWriteInLoop_def Let_def split: if_splits prod.splits wret.splits)

lemma handleWrite_reflect:
  assumes "world_contract sk fd stream ended intr sent" "echo_inv fd stream sent (c, arrived)"
  shows "\<exists>c'. handleWrite sk c = ok c' \<and> echo_inv fd stream sent (c', arrived) \<and> tc_in c' = tc_in c \<and> wire sent c' = wire sent c
    \<and> tc_kernel c' = (if isWriting (tc_channel c) then snd (sk_write sk (tc_kernel c) fd (nb_bytes (tc_out c))) else tc_kernel c)"
proof -
  note w = worldD [OF assms(1)] and e = assms(2) [unfolded echo_inv_def attached_def, simplified]
  have fd: "tc_fd c = fd" "tc_alive c" "tc_inLoop c" "conn_inv c" using e by simp_all
  obtain c' where c': "handleWrite sk c = ok c'" "conn_inv c'" "tc_state c' = tc_state c" "wire sent c' = wire sent c"
    using handleWrite_ok [of sk c sent] w(2) fd by auto
  have k: "tc_kernel c' = (if isWriting (tc_channel c) then snd (sk_write sk (tc_kernel c) fd (nb_bytes (tc_out c))) else tc_kernel c)"
  proof (cases "isWriting (tc_channel c)")
    case True
    obtain r k where "sk_write sk (tc_kernel c) (tc_fd c) (nb_bytes (tc_out c)) = (r, k)" by fastforce
    with handleWrite_exact [of sk c sent r k] w(2) fd True c'(1) show ?thesis by auto
  qed (use c'(1) fd in \<open>simp add: handleWrite_def\<close>)
  have "stream (tc_kernel c') = stream (tc_kernel c)" by (rule handleWrite_keeps [OF c'(1)]) (use w fd in simp)
  with c' k handleWrite_frame [OF c'(1)] handlers_set_handleWrite [OF c'(1)] e show ?thesis by (auto simp: echo_inv_def attached_def)
qed

text \<open>The steps of the world: bytes arrive, or the loop reports the connection readable, writable or both.\<close>

inductive reflect_step ::
    "'k syscalls \<Rightarrow> ('k \<Rightarrow> char list) \<Rightarrow> ('k \<Rightarrow> char list) \<Rightarrow> 'k tconn \<times> char list \<Rightarrow> 'k tconn \<times> char list \<Rightarrow> bool"
  for sk stream sent where
  arrive: "stream k = stream (tc_kernel c) @ bs \<Longrightarrow> sent k = sent (tc_kernel c) \<Longrightarrow> int (length (arrived @ bs)) + 4096 < 2 ^ 30
    \<Longrightarrow> reflect_step sk stream sent (c, arrived) (c\<lparr>tc_kernel := k\<rparr>, arrived @ bs)"
| event: "ev \<in> {EPOLLIN, EPOLLOUT, EPOLLIN OR EPOLLOUT} \<Longrightarrow> conn_event sk (reflect_callbacks sk) ev c = ok c'
    \<Longrightarrow> reflect_step sk stream sent (c, arrived) (c', arrived)"

inductive_cases reflect_stepE: "reflect_step sk stream sent (c, arrived) s"

lemma echo_inv_revents [simp]:
  "echo_inv fd stream sent (c\<lparr>tc_channel := (tc_channel c)\<lparr>ch_revents := ev\<rparr>\<rparr>, arrived) = echo_inv fd stream sent (c, arrived)"
  by (simp add: echo_inv_def attached_def conn_inv_def mask_ok_def isWriting_def tc_fd_def wire_def handlers_set_def)

lemma wire_channel [simp]: "wire sent (c\<lparr>tc_channel := ch\<rparr>) = wire sent c"
  by (simp add: wire_def)

lemma isWriting_revents [simp]: "isWriting (ch\<lparr>ch_revents := ev\<rparr>) = isWriting ch"
  by (simp add: isWriting_def)

lemma event_callbacks:
  assumes "ch_hasRead ch" "ch_hasWrite ch"
  shows "handleEvent (ch\<lparr>ch_revents := EPOLLIN\<rparr>) = [ReadCallback]" "handleEvent (ch\<lparr>ch_revents := EPOLLOUT\<rparr>) = [WriteCallback]"
    "handleEvent (ch\<lparr>ch_revents := EPOLLIN OR EPOLLOUT\<rparr>) = [ReadCallback, WriteCallback]"
  using assms by (simp_all add: handleEvent_def mask_defs)

lemma handleWrite_idle: "\<not> isWriting (tc_channel c) \<Longrightarrow> tc_alive c \<Longrightarrow> tc_inLoop c \<Longrightarrow> handleWrite sk c = ok c"
  by (simp add: handleWrite_def)

text \<open>A readable and a writable event, each alone.\<close>

lemma readable_event:
  assumes "world_contract sk fd stream ended intr sent" "echo_inv fd stream sent (c, arrived)"
  shows "\<exists>c' rs r k. conn_event sk (reflect_callbacks sk) EPOLLIN c = ok c'
    \<and> read_calls (sk_read sk) fd (tc_kernel c) (rs @ [r]) k \<and> list_all reads_again rs \<and> \<not> reads_again r
    \<and> read_echoed sent c rs r c' \<and> (echo_inv fd stream sent (c', arrived) \<or> tc_state c' = kDisconnected)"
proof -
  let ?c = "c\<lparr>tc_channel := (tc_channel c)\<lparr>ch_revents := EPOLLIN\<rparr>\<rparr>"
  have "echo_inv fd stream sent (?c, arrived)" using assms(2) by simp
  from handleRead_reflect [OF assms(1) this] obtain c' rs r k where
    h: "handleRead sk (reflect_callbacks sk) ?c = ok c'" "read_calls (sk_read sk) fd (tc_kernel ?c) (rs @ [r]) k"
      "list_all reads_again rs" "\<not> reads_again r" "read_echoed sent ?c rs r c'"
      "echo_inv fd stream sent (c', arrived) \<or> tc_state c' = kDisconnected" by blast
  have "handleEvent (tc_channel ?c) = [ReadCallback]"
    using event_callbacks assms(2) by (simp add: echo_inv_def handlers_set_def)
  with h(1) have "conn_event sk (reflect_callbacks sk) EPOLLIN c = ok c'" by (simp add: conn_event_def Let_def)
  moreover have "read_echoed sent c rs r c'" using h(5) by (auto simp: read_echoed_def Let_def split: sysret.splits)
  moreover have "read_calls (sk_read sk) fd (tc_kernel c) (rs @ [r]) k" using h(2) by simp
  ultimately show ?thesis using h(3,4,6) by blast
qed

lemma writable_event:
  assumes "world_contract sk fd stream ended intr sent" "echo_inv fd stream sent (c, arrived)"
  shows "\<exists>c'. conn_event sk (reflect_callbacks sk) EPOLLOUT c = ok c' \<and> echo_inv fd stream sent (c', arrived)
    \<and> tc_in c' = tc_in c \<and> wire sent c' = wire sent c
    \<and> tc_kernel c' = (if isWriting (tc_channel c) then snd (sk_write sk (tc_kernel c) fd (nb_bytes (tc_out c))) else tc_kernel c)"
proof -
  let ?c = "c\<lparr>tc_channel := (tc_channel c)\<lparr>ch_revents := EPOLLOUT\<rparr>\<rparr>"
  have "echo_inv fd stream sent (?c, arrived)" using assms(2) by simp
  from handleWrite_reflect [OF assms(1) this] obtain c' where
    h: "handleWrite sk ?c = ok c'" "echo_inv fd stream sent (c', arrived)" "tc_in c' = tc_in c" "wire sent c' = wire sent c"
      "tc_kernel c' = (if isWriting (tc_channel c) then snd (sk_write sk (tc_kernel c) fd (nb_bytes (tc_out c))) else tc_kernel c)"
    by auto
  have "handleEvent (tc_channel ?c) = [WriteCallback]"
    using event_callbacks assms(2) by (simp add: echo_inv_def handlers_set_def)
  with h show ?thesis by (intro exI [of _ c']) (simp add: conn_event_def Let_def)
qed

lemma conn_event_reflect:
  assumes "world_contract sk fd stream ended intr sent" "echo_inv fd stream sent (c, arrived)" "ev \<in> {EPOLLIN, EPOLLOUT, EPOLLIN OR EPOLLOUT}"
  shows "\<exists>c'. conn_event sk (reflect_callbacks sk) ev c = ok c' \<and> (echo_inv fd stream sent (c', arrived) \<or> tc_state c' = kDisconnected)"
proof -
  let ?cb = "reflect_callbacks sk"
  let ?c = "c\<lparr>tc_channel := (tc_channel c)\<lparr>ch_revents := EPOLLIN OR EPOLLOUT\<rparr>\<rparr>"
  have e: "echo_inv fd stream sent (?c, arrived)" using assms(2) by simp
  obtain cr where r: "handleRead sk ?cb ?c = ok cr" "echo_inv fd stream sent (cr, arrived)
      \<or> tc_state cr = kDisconnected \<and> \<not> isWriting (tc_channel cr) \<and> tc_alive cr \<and> tc_inLoop cr"
    using handleRead_reflect [OF assms(1) e] by blast
  obtain cw where cw: "handleWrite sk cr = ok cw" "echo_inv fd stream sent (cw, arrived) \<or> tc_state cw = kDisconnected"
    using r(2) handleWrite_reflect [OF assms(1), of cr arrived] handleWrite_idle [of cr sk] by blast
  have "handleEvent (tc_channel ?c) = [ReadCallback, WriteCallback]"
    using event_callbacks assms(2) by (simp add: echo_inv_def handlers_set_def)
  then have "conn_event sk ?cb (EPOLLIN OR EPOLLOUT) c = ok cw" using r(1) cw(1) by (simp add: conn_event_def Let_def)
  with cw(2) readable_event [OF assms(1,2)] writable_event [OF assms(1,2)] assms(3) show ?thesis by blast
qed

text \<open>An established connection of the server.\<close>

definition established :: "int \<Rightarrow> nat \<Rightarrow> epoller \<Rightarrow> 'k \<Rightarrow> 'k tconn" where
  "established fd ptr ep k = (case connectEstablished (new_TcpConnection fd ptr False ep k) of Some (Inr c) \<Rightarrow> c)"

lemma established_ok:
  "connectEstablished (new_TcpConnection fd ptr False ep k) = ok (established fd ptr ep k)"
  "tc_state (established fd ptr ep k) = kConnected" "attached fd (established fd ptr ep k)" "tc_kernel (established fd ptr ep k) = k"
  "nb_bytes (tc_in (established fd ptr ep k)) = []" "nb_bytes (tc_out (established fd ptr ep k)) = []"
  "handlers_set (established fd ptr ep k)"
proof -
  let ?n = "new_TcpConnection fd ptr False ep k"
  let ?c = "note_effect Connection_callback (on_channel EnableReading (?n\<lparr>tc_state := kConnected\<rparr>))"
  have n: "connectEstablished ?n = ok ?c" by (simp add: connectEstablished_def new_TcpConnection_def)
  then have eq: "established fd ptr ep k = ?c" by (simp add: established_def)
  have "ch_events (tc_channel ?n) = mask_of False False" by (simp add: new_TcpConnection_def new_Channel_def mask_of_def)
  then have "mask_ok (tc_channel (?n\<lparr>tc_state := kConnected\<rparr>))" by (auto simp: mask_ok_def)
  then have "mask_ok (tc_channel ?c)" using on_channel_flags(1) [of "?n\<lparr>tc_state := kConnected\<rparr>" EnableReading] by simp
  moreover have nb: "nb_inv (new_netBuffer 4096)" "nb_bytes (new_netBuffer 4096) = []"
    using new_netBuffer_inv [of 4096] by (simp_all add: INT_MAX_def)
  ultimately show "attached fd (established fd ptr ep k)"
    by (simp add: eq attached_def conn_inv_def new_TcpConnection_def tc_fd_def new_Channel_def)
      (simp add: on_channel_simps(12) [unfolded tc_fd_def])
  show "connectEstablished ?n = ok (established fd ptr ep k)" using n eq by simp
  show "tc_state (established fd ptr ep k) = kConnected" "tc_kernel (established fd ptr ep k) = k"
    "nb_bytes (tc_in (established fd ptr ep k)) = []" "nb_bytes (tc_out (established fd ptr ep k)) = []"
    using nb by (simp_all add: eq new_TcpConnection_def)
  show "handlers_set (established fd ptr ep k)" by (simp add: eq) (simp add: handlers_set_def new_TcpConnection_def)
qed

lemma established_life: "life_inv (established fd ptr ep k)"
proof -
  have "life_inv (new_TcpConnection fd ptr False ep k)" by (rule life_inv_init, unfold conn_init_def) blast
  from keepsD [OF keeps_connectEstablished this established_ok(1)] show ?thesis by blast
qed

text \<open>The invariant of all runs: the echo is complete or the connection is closed for good.\<close>

definition reflect_inv :: "int \<Rightarrow> ('k \<Rightarrow> char list) \<Rightarrow> ('k \<Rightarrow> char list) \<Rightarrow> 'k tconn \<times> char list \<Rightarrow> bool" where
  "reflect_inv fd stream sent s \<longleftrightarrow> life_inv (fst s) \<and> (echo_inv fd stream sent s \<or> tc_state (fst s) = kDisconnected)"

lemma reflect_step_inv:
  assumes "world_contract sk fd stream ended intr sent" "reflect_inv fd stream sent s" "reflect_step sk stream sent s t"
  shows "reflect_inv fd stream sent t"
proof -
  obtain c arrived where s: "s = (c, arrived)" by (cases s)
  have l: "life_inv c" and e: "echo_inv fd stream sent (c, arrived) \<or> tc_state c = kDisconnected"
    using assms(2) by (auto simp: reflect_inv_def s)
  from assms(3) consider
    (arrive) k bs where "stream k = stream (tc_kernel c) @ bs" "sent k = sent (tc_kernel c)" "int (length (arrived @ bs)) + 4096 < 2 ^ 30"
        "t = (c\<lparr>tc_kernel := k\<rparr>, arrived @ bs)"
    | (event) ev c' where "ev \<in> {EPOLLIN, EPOLLOUT, EPOLLIN OR EPOLLOUT}" "conn_event sk (reflect_callbacks sk) ev c = ok c'" "t = (c', arrived)"
    unfolding s by (cases rule: reflect_step.cases) simp_all
  then show ?thesis
  proof cases
    case arrive
    then show ?thesis using l e by (auto simp: reflect_inv_def echo_inv_def life_inv_def wire_def)
  next
    case event
    have lc: "life_inv c' \<and> life_le c c'" using keepsD [OF refl.event_keeps l event(2)] .
    show ?thesis
    proof (cases "tc_state c = kDisconnected")
      case True
      then have "tc_state c' = kDisconnected" using lc by (cases "tc_state c'") (auto simp: life_le_def)
      with lc event(3) show ?thesis by (simp add: reflect_inv_def)
    next
      case False
      then have "echo_inv fd stream sent (c, arrived)" using e by simp
      from conn_event_reflect [OF assms(1) this event(1)] event(2,3) lc show ?thesis by (auto simp: reflect_inv_def)
    qed
  qed
qed

lemma reflect_inv_init:
  "sent k = [] \<Longrightarrow> stream k = [] \<Longrightarrow> reflect_inv fd stream sent (established fd ptr ep k, [])"
  by (simp add: reflect_inv_def echo_inv_def established_ok established_life wire_def)

interpretation reflect: invariant_system
  "\<lambda>s. world_contract sk fd stream ended intr sent \<and> sent k = [] \<and> stream k = [] \<and> s = (established fd ptr ep k, [])"
  "\<lambda>s t. world_contract sk fd stream ended intr sent \<and> reflect_step sk stream sent s t" "reflect_inv fd stream sent"
  for sk fd stream ended intr sent k ptr ep
  by unfold_locales (metis reflect_inv_init, metis reflect_step_inv)

section \<open>Property\<close>

text \<open>C18: the echo server echoes.  From the moment a connection is established, in every interleaving of arriving bytes with
  readable and writable events, for a kernel that behaves as \<open>read(2)\<close> and \<open>write(2)\<close> document and whose \<open>write\<close> never fails
  with EPIPE or ECONNRESET (there \<open>sendInLoop\<close> drops the message and the echo has a gap), and as long as less than
  1 GiB has arrived: while the connection is not closed, the bytes written to the socket, those waiting in the output buffer, those in
  the input buffer and those still in the socket are together exactly the bytes that have arrived, in order, and
  EPOLLOUT is listened for while output waits.  The next event is handled without a fault.  A readable event reads until nothing is left;
  when bytes came it leaves the input buffer empty with all of them sent or queued for sending, unless the last \<open>read\<close>
  failed (they wait in the input buffer for the next message) or found the end of the stream (the connection is closed).  A writable event
  offers the kernel everything that waits.\<close>

theorem reflect_server_echoes:
  assumes "world_contract sk fd stream ended intr sent" "sent k = []" "stream k = []"
    "reachable (\<lambda>s. s = (established fd ptr ep k, [])) (reflect_step sk stream sent) (c, arrived)" "tc_state c \<noteq> kDisconnected"
  shows "sent (tc_kernel c) @ nb_bytes (tc_out c) @ nb_bytes (tc_in c) @ stream (tc_kernel c) = arrived
    \<and> (nb_bytes (tc_out c) = [] \<or> isWriting (tc_channel c))
    \<and> (\<exists>c' rs r k. conn_event sk (reflect_callbacks sk) EPOLLIN c = ok c'
        \<and> read_calls (sk_read sk) fd (tc_kernel c) (rs @ [r]) k \<and> list_all reads_again rs \<and> \<not> reads_again r
        \<and> read_echoed sent c rs r c')
    \<and> (\<exists>c'. conn_event sk (reflect_callbacks sk) EPOLLOUT c = ok c' \<and> tc_in c' = tc_in c \<and> wire sent c' = wire sent c
        \<and> tc_kernel c' = (if isWriting (tc_channel c) then snd (sk_write sk (tc_kernel c) fd (nb_bytes (tc_out c))) else tc_kernel c))"
proof -
  have "reflect_inv fd stream sent (c, arrived)"
    by (rule reflect.inv_reachable [of sk fd stream ended intr sent k ptr ep]) (use assms(4) in \<open>simp only: assms(1-3) simp_thms\<close>)
  with assms(5) have e: "echo_inv fd stream sent (c, arrived)" by (simp add: reflect_inv_def)
  then have "sent (tc_kernel c) @ nb_bytes (tc_out c) @ nb_bytes (tc_in c) @ stream (tc_kernel c) = arrived"
    "nb_bytes (tc_out c) = [] \<or> isWriting (tc_channel c)"
    by (auto simp: echo_inv_def wire_def attached_def conn_inv_def)
  with readable_event [OF assms(1) e] writable_event [OF assms(1) e] show ?thesis by blast
qed

text \<open>A kernel for the witness: the bytes that have arrived and those that were sent; it takes three at a time.\<close>

definition pair_sys :: "(char list \<times> char list) syscalls" where
  "pair_sys = \<lparr>sk_read = (\<lambda>(i, w) fd n. if i = [] then (Fail EAGAIN, (i, w)) else (Ret (take (nat n) i), (drop (nat n) i, w))),
     sk_pread = (\<lambda>k fd n off. (Fail EBADF, k)),
     sk_write = (\<lambda>(i, w) fd bs. (Wrote (min 3 (length bs)), (i, w @ take 3 bs))),
     sk_sendfile = (\<lambda>k fd f n. (WFail EBADF, k)), sk_close = (\<lambda>k f. k)\<rparr>"

lemma pair_sys_world: "world_contract pair_sys fd fst (\<lambda>k. False) (\<lambda>k. 0) snd"
  by (auto simp: world_contract_def read_contract_def write_contract_def peer_alive_def pair_sys_def min_def split: if_splits)

theorem reflect_server_echoes_witness:
  "\<exists>c c' rs r k. reachable (\<lambda>s. s = (established 9 1 new_Epoller ([], []), [])) (reflect_step pair_sys fst snd) (c, ''hello'')
    \<and> tc_state c = kConnected \<and> fst (tc_kernel c) = ''hello''
    \<and> conn_event pair_sys (reflect_callbacks pair_sys) EPOLLIN c = ok c'
    \<and> read_calls (sk_read pair_sys) 9 (tc_kernel c) (rs @ [r]) k \<and> list_all reads_again rs \<and> \<not> reads_again r
    \<and> read_echoed snd c rs r c'"
proof -
  let ?e = "established 9 1 new_Epoller ([] :: char list, [] :: char list)"
  let ?c = "?e\<lparr>tc_kernel := (''hello'', [])\<rparr>"
  let ?R = "reachable (\<lambda>s. s = (?e, [])) (reflect_step pair_sys fst snd)"
  have "?R (?e, [])" by (simp add: reachable_init)
  moreover have "reflect_step pair_sys fst snd (?e, []) (?c, [] @ ''hello'')"
    by (rule reflect_step.arrive) (simp_all add: established_ok)
  ultimately have r: "?R (?c, ''hello'')" using reachable_step by fastforce
  have "tc_state ?c \<noteq> kDisconnected" by (simp add: established_ok)
  from reflect_server_echoes [OF pair_sys_world _ _ r this] have
    "\<exists>c' rs r k. conn_event pair_sys (reflect_callbacks pair_sys) EPOLLIN ?c = ok c'
        \<and> read_calls (sk_read pair_sys) 9 (tc_kernel ?c) (rs @ [r]) k \<and> list_all reads_again rs \<and> \<not> reads_again r
        \<and> read_echoed snd ?c rs r c'" by simp
  moreover have "tc_state ?c = kConnected" "fst (tc_kernel ?c) = ''hello''" by (simp_all add: established_ok)
  ultimately show ?thesis using r by blast
qed

end
