(* ===== verification/Http_Fragments.thy ===== *)
theory Http_Fragments
  imports Http_Serving Conn_Stream
begin

unbundle bit_operations_syntax

text \<open>
  Requests that arrive in pieces.  TCP may cut the bytes of a request anywhere; the message callback is called
  with what has arrived so far and parses it from the start every time.  A piece that ends after the request line
  is reported as incomplete and leaves the connection as it is, so that the answer comes with the last piece; a cut
  inside the method is rejected (\<open>parse_fragment_fails\<close>).
\<close>

section \<open>Parsing a piece\<close>

text \<open>Scanning for a carriage return that is not there, or is the last byte.\<close>

lemma scan_past_end:
  assumes "text_at buf cur s" "c \<notin> set (butlast s)"
  shows "scan_past buf (cur + length s) c cur = Inr (cur + length s)"
  using assms
proof (induction s arbitrary: cur)
  case Nil
  then show ?case by (subst scan_past.simps) simp
next
  case (Cons d s)
  then show ?case using Cons.IH [of "Suc cur"] by (subst scan_past.simps) (auto split: if_splits)
qed

lemma requestHeadParse_cut:
  assumes "text_at (hp_buf p) (hp_lend p) s" "CR \<notin> set (butlast s)" "hp_len p = hp_lend p + length s" "hp_cur p \<noteq> hp_len p"
  shows "\<exists>q. requestHeadParse p = Some (Inr q) \<and> hp_line q = LineIncomplete"
  using scan_past_end [OF assms(1,2)] assms(3,4)
  by (subst requestHeadParse_unfold) (simp add: head_iteration_def Let_def)

lemma cut_line:
  assumes "CR \<notin> set t" "m < length (t @ CRLF)"
  shows "CR \<notin> set (butlast (take m (t @ CRLF)))"
proof -
  have "m = Suc (length t) \<or> m \<le> length t" using assms(2) by auto
  then show ?thesis
  proof
    assume "m \<le> length t"
    with assms(1) show ?thesis by (auto dest!: in_set_butlastD in_set_takeD)
  qed (use assms(1) in \<open>simp add: butlast_append\<close>)
qed

lemma requestHeadParse_prefix:
  assumes "text_at (hp_buf p) (hp_lend p) (take m (head_text hs))" "\<forall>kv\<in>set hs. ok_header kv" "m < length (head_text hs)"
    "hp_len p = hp_lend p + m" "hp_cur p \<noteq> hp_len p"
  shows "\<exists>q. requestHeadParse p = Some (Inr q) \<and> hp_line q = LineIncomplete"
  using assms
proof (induction hs arbitrary: p m)
  case Nil
  then show ?case
    using cut_line [of "[]" m] requestHeadParse_cut [of p "take m CRLF"] by (simp add: head_text_def)
next
  case (Cons kv hs)
  have split: "head_text (kv # hs) = header_line kv @ head_text hs" by (simp add: head_text_def)
  show ?case
  proof (cases "m < length (header_line kv)")
    case True
    have h: "header_line kv = (fst kv @ '': '' @ snd kv) @ CRLF" by (simp add: header_line_def)
    have "CR \<notin> set (butlast (take m (header_line kv)))"
      using cut_line [of "fst kv @ '': '' @ snd kv" m] True Cons.prems(2) unfolding h by (simp add: ok_header_def)
    with True Cons.prems split show ?thesis by (intro requestHeadParse_cut [where s = "take m (header_line kv)"]) simp_all
  next
    case False
    let ?l = "length (header_line kv)"
    let ?p = "(head_put (fst kv) (snd kv) p)\<lparr>hp_cur := hp_lend p + length (fst kv) + 1,
      hp_lbeg := hp_lend p, hp_lend := hp_lend p + ?l, hp_line := LineOk\<rparr>"
    have l: "length (fst kv) + 1 < ?l" by (simp add: header_line_def)
    have at: "text_at (hp_buf p) (hp_lend p) (header_line kv)" "text_at (hp_buf p) (hp_lend p + ?l) (take (m - ?l) (head_text hs))"
      using Cons.prems(1) False split by (simp_all add: text_at_append)
    have "requestHeadParse p = requestHeadParse ?p"
      using requestHeadParse_header [OF at(1)] Cons.prems False by simp
    moreover have "\<exists>q. requestHeadParse ?p = Some (Inr q) \<and> hp_line q = LineIncomplete"
      using Cons.prems at(2) split False l by (intro Cons.IH [of ?p "m - ?l"]) (simp_all add: head_put_def)
    ultimately show ?thesis by simp
  qed
qed

lemma line_scan_cut:
  assumes "text_at buf cur (s @ [CR])" "CR \<notin> set s"
  shows "line_scan buf (cur + length s + 1) cur = Inr (cur + length s + 1, True)"
  using assms
proof (induction s arbitrary: cur)
  case Nil
  then show ?case by (subst line_scan.simps) simp
next
  case (Cons d s)
  then show ?case using Cons.IH [of "Suc cur"] by (subst line_scan.simps) auto
qed

text \<open>A piece that ends with the request line, in the head, or in the body is incomplete.\<close>

lemma parse_line_cut:
  assumes "text_at buf 0 (butlast (line_text m u v))" "m = GET \<or> m = POST" "ok_url u" "ok_version v"
  shows "\<exists>p. parse_request buf (length (line_text m u v) - 1) = Some (Inr p) \<and> hp_final p = Incomplete"
proof -
  let ?s = "method_text m @ [SP] @ u @ [SP] @ v"
  have s: "line_text m u v = (?s @ [CR]) @ [LF]" by (simp add: line_text_def)
  have "CR \<notin> set ?s" using assms(2-4) by (auto simp: ok_url_def ok_version_def)
  moreover have "text_at buf 0 (?s @ [CR])" using assms(1) unfolding s by (simp only: butlast_snoc)
  ultimately have "line_scan buf (length ?s + 1) 0 = Inr (length ?s + 1, True)" using line_scan_cut [of buf 0 ?s] by simp
  moreover have "length (line_text m u v) - 1 = length ?s + 1" using s by simp
  ultimately show ?thesis
    by (simp only: parse_request_def)
      (subst parse_loop_unfold, simp add: parse_states requestLineParse_def new_httpParser_def Let_def)
qed

lemma parse_head_cut:
  assumes "text_at buf 0 (line_text m u v @ take n (head_text hs))" "n < length (head_text hs)"
    "m = GET \<or> m = POST" "ok_url u" "ok_version v" "\<forall>kv\<in>set hs. ok_header kv"
  shows "\<exists>p. parse_request buf (length (line_text m u v) + n) = Some (Inr p) \<and> hp_final p = Incomplete"
proof -
  let ?l = "length (line_text m u v)"
  have at: "text_at buf 0 (line_text m u v)" "text_at buf ?l (take n (head_text hs))"
    using assms(1) by (simp_all add: text_at_append)
  obtain p where p: "parse_request buf (?l + n) = parse_loop p" "hp_process p = Head" "hp_final p = Incomplete"
    "hp_lend p = ?l" "hp_cur p = ?l" "hp_len p = ?l + n" "hp_buf p = buf"
    using parse_request_line [OF at(1) _ assms(3-5), of "?l + n"] by auto
  show ?thesis
  proof (cases "n = 0")
    case True
    with p show ?thesis by (subst p(1), subst parse_loop_unfold) (simp add: parse_iteration_def)
  next
    case False
    obtain q where "requestHeadParse (p\<lparr>hp_line := LineIncomplete\<rparr>) = Some (Inr q)" "hp_line q = LineIncomplete"
      using requestHeadParse_prefix [of "p\<lparr>hp_line := LineIncomplete\<rparr>" n hs] at(2) assms(2,6) p False by auto
    with p False show ?thesis by (subst p(1), subst parse_loop_unfold) (simp add: parse_states Let_def)
  qed
qed

lemma parse_body_cut:
  assumes "text_at buf 0 (request_text POST u v hs)" "length (request_text POST u v hs) \<le> n"
    "ok_url u" "ok_version v" "\<forall>kv\<in>set hs. ok_header kv"
    "map_of hs ''Content-Length'' = Some (to_string (int sz))" "n < length (request_text POST u v hs) + sz"
    "int (length (request_text POST u v hs) + sz) \<le> INT_MAX"
  shows "\<exists>p. parse_request buf n = Some (Inr p) \<and> hp_final p = Incomplete"
proof -
  let ?t = "length (request_text POST u v hs)"
  obtain p where p: "parse_request buf n = parse_loop (p\<lparr>hp_process := Body\<rparr>)" "hp_cur p = ?t" "hp_len p = n" "hp_final p = Incomplete"
    "hp_request p = \<lparr>rq_parseSize = 0, rq_line = parsed_line POST u v, rq_head = map_of hs, rq_body = []\<rparr>"
    using parse_request_head [OF assms(1,2) _ assms(3-5)] by (auto simp: head_fold_empty)
  have fit: "fits_int (int sz)" "fits_int (int ?t + int sz)" "0 < sz" using assms(2,7,8) by (simp_all add: fits_int_def INT_MIN_def)
  show ?thesis
    using p fit assms(2,6,7) stoi_to_string [OF fit(1)]
    by (subst p(1), subst parse_loop_unfold)
      (simp add: parse_states Let_def head_get_def parsed_line_def requestBodyParse_def)
qed

lemma parse_piece:
  assumes "m = GET \<and> body = [] \<or> m = POST \<and> map_of hs ''Content-Length'' = Some (to_string (int (length body)))"
    "ok_url u" "ok_version v" "\<forall>kv\<in>set hs. ok_header kv"
    "length (line_text m u v) - 1 \<le> n" "n < length (request_text m u v hs @ body)"
    "int (length (request_text m u v hs @ body)) \<le> INT_MAX"
  shows "\<exists>p. parse_request (map Some (take n (request_text m u v hs @ body)) @ tail) n = Some (Inr p) \<and> hp_final p = Incomplete"
proof -
  let ?l = "line_text m u v"
  define piece where "piece = take n (request_text m u v hs @ body)"
  define b where "b = map Some piece @ tail"
  have at: "text_at b 0 piece" unfolding b_def by (rule text_at_start)
  have mm: "m = GET \<or> m = POST" using assms(1) by blast
  consider (line) "n = length ?l - 1" | (head) "length ?l \<le> n" "n < length (request_text m u v hs)"
    | (body) "length (request_text m u v hs) \<le> n" using assms(5) by linarith
  then have "\<exists>p. parse_request b n = Some (Inr p) \<and> hp_final p = Incomplete"
  proof cases
    case line
    then have "piece = butlast ?l" by (simp add: piece_def request_text_def butlast_conv_take)
    with parse_line_cut [of b m u v] at mm assms(2,3) line show ?thesis by simp
  next
    case head
    then have "piece = ?l @ take (n - length ?l) (head_text hs)" by (simp add: piece_def request_text_def)
    moreover have "n - length ?l < length (head_text hs)" "length ?l + (n - length ?l) = n"
      using head by (simp_all add: request_text_def)
    ultimately show ?thesis using parse_head_cut [of b m u v "n - length ?l" hs] at mm assms(2-4) by simp
  next
    case body
    then have "m = POST" "map_of hs ''Content-Length'' = Some (to_string (int (length body)))" using assms(1,6) by auto
    moreover have "text_at b 0 (request_text m u v hs)" using at body by (simp add: piece_def text_at_append)
    ultimately show ?thesis using body assms(2-4,6,7) by (intro parse_body_cut [of b u v hs n "length body"]) simp_all
  qed
  then show ?thesis by (simp only: b_def piece_def)
qed

section \<open>The callback on a piece\<close>


section \<open>Reading everything that has arrived\<close>




text \<open>When the end of the stream is read in the same burst as the last bytes, they reach the input buffer but no message
  callback: a client that sends its request and shuts down its writing side at once gets no answer.\<close>

lemma half_close_drops_request:
  assumes "attached fd c" "sk_read sk (tc_kernel c) fd (writeable (tc_in c)) = (Ret bs, k1)" "bs \<noteq> []"
    "int (length bs) \<le> writeable (tc_in c)" "\<And>n. sk_read sk k1 fd n = (Ret [], k2)"
    "readable (tc_in c) + int (length bs) + 4096 < 2 ^ 30"
  shows "\<exists>b. nb_bytes b = nb_bytes (tc_in c) @ bs \<and> handleRead sk cb c = handleClose cb (c\<lparr>tc_in := b, tc_kernel := k2\<rparr>)"
proof -
  have inv: "nb_inv (tc_in c)" using assms(1) by (simp add: attached_def conn_inv_def)
  obtain b where b: "bind_res (kernel_store (tc_in c) bs) readFd_grow = Inr b" "nb_bytes b = nb_bytes (tc_in c) @ bs"
    using readFd_chunk_ok [OF inv assms(4)] assms(6) by auto
  have "readFd_loop (sk_read sk) (sk_pread sk) fd 0 k1 (int (length bs)) (int (length bs)) b
      = ok \<lparr>rf_ret = 0, rf_savedErrno = None, rf_closed = True, rf_buf = b, rf_kernel = k2\<rparr>"
    using assms(5) by (subst readFd_loop.simps) simp
  then have "readFd (sk_read sk) (sk_pread sk) fd 0 (tc_kernel c) (tc_in c)
      = ok \<lparr>rf_ret = 0, rf_savedErrno = None, rf_closed = True, rf_buf = b, rf_kernel = k2\<rparr>"
    unfolding readFd_def using assms(2,3) b(1) by (subst readFd_loop.simps) simp
  with assms(1) b(2) show ?thesis by (auto simp: handleRead_def attached_def)
qed

section \<open>Segments\<close>













section \<open>Properties\<close>

text \<open>C3: parsing a request that has not arrived whole.  A GET request, or a POST request with its body, cut anywhere
  from the carriage return that ends its request line up to its last byte is reported as incomplete, with no fault and
  whatever the memory after the piece holds; so the server waits for the rest.\<close>

theorem parse_waits_for_rest:
  assumes "m = GET \<and> body = [] \<or> m = POST \<and> map_of hs ''Content-Length'' = Some (to_string (int (length body)))"
    "ok_url u" "ok_version v" "\<forall>kv\<in>set hs. ok_header kv"
    "length (line_text m u v) - 1 \<le> n" "n < length (request_text m u v hs @ body)"
    "int (length (request_text m u v hs @ body)) \<le> INT_MAX"
  shows "\<exists>p. parse_request (map Some (take n (request_text m u v hs @ body)) @ tail) n = Some (Inr p) \<and> hp_final p = Incomplete"
  using parse_piece [OF assms] .

theorem parse_waits_for_rest_witness:
  "\<exists>p. parse_request (map Some (take 22 (request_text GET ''/x'' ''HTTP/1.1'' [(''Host'', ''h'')] @ []))) 22 = Some (Inr p)
    \<and> hp_final p = Incomplete"
  using parse_waits_for_rest [of GET "[]" "[(''Host'', ''h'')]" "''/x''" "''HTTP/1.1''" 22 "[]"]
  by (simp add: demo_text_ok ok_header_def request_text_def line_text_def head_text_def header_line_def INT_MAX_def)














end
