(* ===== verification/Loop_Life.thy ===== *)
theory Loop_Life
  imports Event_Loop
begin

text \<open>
  The life of an \<open>EventLoop\<close> object: two-phase construction (\<open>init\<close>), the forwards to the epoller with their
  thread check, the destructor, and the \<open>shared_ptr\<close>s that decide when the destructor runs
  (\<open>src/src/net/EventLoop.{h,cpp}\<close>, \<open>Channel.{h,cpp}\<close>, \<open>Epoller.cpp\<close>, \<open>Acceptor.cpp\<close>).  Every channel holds a
  \<open>shared_ptr\<close> to its loop in \<open>loop_\<close>, and so does the wakeup channel, which the loop owns: after \<open>init\<close> the loop
  keeps itself alive.
\<close>

section \<open>The object\<close>

text \<open>The owners are the \<open>shared_ptr\<close> objects that point to the loop: the member \<open>loop_\<close> of the channel at an address,
  or any other variable.  \<open>ll_chans\<close> are the channels that exist.\<close>

datatype owner = Channel_loop nat | Held nat

record loop_obj =
  ll_tid :: nat
  ll_poller :: "epoller option"
  ll_wakeupFd :: "int option"
  ll_wakeup :: "nat option"
  ll_chans :: "nat \<rightharpoonup> channel"
  ll_refs :: "owner set"
  ll_fds :: "int set"
  ll_destroyed :: bool

definition make_loop :: "nat \<Rightarrow> nat \<Rightarrow> loop_obj" where
  "make_loop tid x = \<lparr>ll_tid = tid, ll_poller = None, ll_wakeupFd = None, ll_wakeup = None, ll_chans = Map.empty,
     ll_refs = {Held x}, ll_fds = {}, ll_destroyed = False\<rparr>"

definition isInLoopThread :: "nat \<Rightarrow> loop_obj \<Rightarrow> bool" where
  "isInLoopThread caller l \<longleftrightarrow> ll_tid l = caller"

definition createEventfd :: "int \<Rightarrow> int result" where
  "createEventfd evtfd = (if evtfd < 0 then Inl Abort else Inr evtfd)"

definition create_Epoller :: "int \<Rightarrow> epoller result" where
  "create_Epoller epollfd = (if epollfd = - 1 then Inl Abort else Inr new_Epoller)"

definition with_poller :: "nat \<Rightarrow> (epoller \<Rightarrow> 'a) \<Rightarrow> loop_obj \<Rightarrow> 'a result" where
  "with_poller caller f l =
     bind_res (assertInLoopThread (isInLoopThread caller l)) (\<lambda>_.
       case ll_poller l of None \<Rightarrow> Inl Null_deref | Some ep \<Rightarrow> Inr (f ep))"

definition put_channel :: "nat \<Rightarrow> channel \<times> epoller \<Rightarrow> loop_obj \<Rightarrow> loop_obj" where
  "put_channel p ce l = l\<lparr>ll_chans := (ll_chans l)(p \<mapsto> fst ce), ll_poller := Some (snd ce)\<rparr>"

definition loop_updateChannel :: "nat \<Rightarrow> nat \<Rightarrow> channel \<Rightarrow> loop_obj \<Rightarrow> loop_obj result" where
  "loop_updateChannel caller p c l = bind_res (with_poller caller (updateChannel p c) l) (\<lambda>ce. Inr (put_channel p ce l))"

definition loop_removeChannel :: "nat \<Rightarrow> nat \<Rightarrow> channel \<Rightarrow> loop_obj \<Rightarrow> loop_obj result" where
  "loop_removeChannel caller p c l = bind_res (with_poller caller (removeChannel p c) l) (\<lambda>ce. Inr (put_channel p ce l))"

definition loop_hasChannel :: "nat \<Rightarrow> nat \<Rightarrow> channel \<Rightarrow> loop_obj \<Rightarrow> bool result" where
  "loop_hasChannel caller p c l = with_poller caller (hasChannel p c) l"

text \<open>An operation of the channel at address \<open>p\<close>: the mask, then \<open>loop_->updateChannel(this)\<close> or \<open>loop_->removeChannel(this)\<close>.\<close>

definition channel_do :: "nat \<Rightarrow> chan_op \<Rightarrow> nat \<Rightarrow> loop_obj \<Rightarrow> loop_obj result" where
  "channel_do caller opr p l =
     (case ll_chans l p of
        None \<Rightarrow> Inl Null_deref
      | Some c \<Rightarrow> if opr = Remove then loop_removeChannel caller p c l else loop_updateChannel caller p (set_events opr c) l)"

definition construct_Channel :: "nat \<Rightarrow> int \<Rightarrow> loop_obj \<Rightarrow> loop_obj" where
  "construct_Channel p fd l = l\<lparr>ll_chans := (ll_chans l)(p \<mapsto> new_Channel fd), ll_refs := insert (Channel_loop p) (ll_refs l)\<rparr>"

text \<open>\<open>~Channel\<close> of a channel that is not the last owner.\<close>

definition drop_Channel :: "nat option \<Rightarrow> loop_obj \<Rightarrow> loop_obj" where
  "drop_Channel q l = (case q of None \<Rightarrow> l
     | Some p \<Rightarrow> l\<lparr>ll_chans := (ll_chans l)(p := None), ll_refs := ll_refs l - {Channel_loop p}\<rparr>)"

text \<open>\<open>init\<close>: the epoller, the eventfd, the wakeup channel at the address \<open>p\<close> (an earlier one is destroyed by the assignment),
  its callback and its registration.\<close>

definition EventLoop_init :: "nat \<Rightarrow> int \<Rightarrow> int \<Rightarrow> nat \<Rightarrow> loop_obj \<Rightarrow> loop_obj result" where
  "EventLoop_init caller epollfd evtfd p l =
     bind_res (create_Epoller epollfd) (\<lambda>ep.
     bind_res (createEventfd evtfd) (\<lambda>fd.
       let l1 = l\<lparr>ll_poller := Some ep, ll_wakeupFd := Some fd, ll_fds := insert fd (ll_fds l)\<rparr>;
           l2 = (drop_Channel (ll_wakeup l) (construct_Channel p fd l1))\<lparr>ll_wakeup := Some p\<rparr>;
           l3 = l2\<lparr>ll_chans := (ll_chans l2)(p \<mapsto> (new_Channel fd)\<lparr>ch_hasRead := True\<rparr>)\<rparr>
       in channel_do caller EnableReading p l3))"

text \<open>The destructor dereferences \<open>wakeupChannel_\<close> whether or not \<open>init\<close> was called.\<close>

definition destroy_EventLoop :: "nat \<Rightarrow> loop_obj \<Rightarrow> loop_obj result" where
  "destroy_EventLoop caller l =
     (case (ll_wakeup l, ll_wakeupFd l) of
        (Some p, Some fd) \<Rightarrow>
          bind_res (channel_do caller DisableAll p l) (\<lambda>l1.
          bind_res (channel_do caller Remove p l1) (\<lambda>l2.
          Inr (l2\<lparr>ll_fds := ll_fds l2 - {fd}, ll_destroyed := True\<rparr>)))
      | _ \<Rightarrow> Inl Null_deref)"

text \<open>A \<open>shared_ptr\<close> lets go of the loop; the last one runs the destructor.  \<open>weak_ptr::lock\<close> gives a non-null pointer
  while there is an owner.\<close>

definition release_loop :: "nat \<Rightarrow> owner \<Rightarrow> loop_obj \<Rightarrow> loop_obj result" where
  "release_loop caller x l =
     (let l1 = l\<lparr>ll_refs := ll_refs l - {x}\<rparr> in if ll_refs l1 = {} then destroy_EventLoop caller l1 else Inr l1)"

definition getLoop :: "loop_obj \<Rightarrow> bool" where
  "getLoop l \<longleftrightarrow> ll_refs l \<noteq> {}"

definition destroy_Acceptor :: "nat \<Rightarrow> nat \<Rightarrow> int \<Rightarrow> loop_obj \<Rightarrow> loop_obj result" where
  "destroy_Acceptor caller p idleFd l =
     bind_res (channel_do caller DisableAll p l) (\<lambda>l1.
     bind_res (channel_do caller Remove p l1) (\<lambda>l2.
     Inr (l2\<lparr>ll_fds := ll_fds l2 - {idleFd}\<rparr>)))"

section \<open>Owners come and go\<close>

text \<open>What the rest of the program does with a loop, in any order: pointers are copied and let go, channels are created,
  operated on in the loop's thread, and destroyed; the loop polls.  The wakeup channel is private to the loop.\<close>

inductive owner_step :: "loop_obj \<Rightarrow> loop_obj \<Rightarrow> bool" where
  copy: "getLoop l \<Longrightarrow> owner_step l (l\<lparr>ll_refs := insert (Held x) (ll_refs l)\<rparr>)"
| release: "Held x \<in> ll_refs l \<Longrightarrow> release_loop caller (Held x) l = Inr l' \<Longrightarrow> owner_step l l'"
| new_channel: "ll_chans l p = None \<Longrightarrow> (\<And>q c. ll_chans l q = Some c \<Longrightarrow> ch_fd c \<noteq> fd) \<Longrightarrow> owner_step l (construct_Channel p fd l)"
| del_channel: "ll_chans l p = Some c \<Longrightarrow> ch_status c = INIT \<or> ch_status c = DELETED \<Longrightarrow> ll_wakeup l \<noteq> Some p
    \<Longrightarrow> release_loop caller (Channel_loop p) l = Inr l' \<Longrightarrow> owner_step l (l'\<lparr>ll_chans := (ll_chans l')(p := None)\<rparr>)"
| channel_op: "ll_wakeup l \<noteq> Some p \<Longrightarrow> channel_do caller opr p l = Inr l' \<Longrightarrow> owner_step l l'"
| poll_channels: "ll_poller l = Some ep \<Longrightarrow> poll w ep (ll_chans l) [] = Inr (ep', cs, act)
    \<Longrightarrow> owner_step l (l\<lparr>ll_poller := Some ep', ll_chans := cs\<rparr>)"

inductive_cases owner_stepE: "owner_step l l'"

definition reactor_of :: "loop_obj \<Rightarrow> reactor" where
  "reactor_of l = \<lparr>re_chans = ll_chans l, re_epoll = the (ll_poller l)\<rparr>"

text \<open>The loop holds itself through its wakeup channel, which stays registered for reading.\<close>

definition self_held :: "nat \<Rightarrow> int \<Rightarrow> nat \<Rightarrow> loop_obj \<Rightarrow> bool" where
  "self_held tid fd p l \<longleftrightarrow> ll_tid l = tid \<and> \<not> ll_destroyed l \<and> ll_wakeup l = Some p \<and> Channel_loop p \<in> ll_refs l \<and> fd \<in> ll_fds l
     \<and> ll_poller l \<noteq> None \<and> reactor_inv (reactor_of l)
     \<and> (\<exists>c. ll_chans l p = Some c \<and> ch_fd c = fd \<and> ch_status c = LISTEN \<and> ch_events c = mask_of True False)"

lemma channel_do_cases:
  assumes "channel_do caller opr p l = Inr l'"
  obtains c ep where "ll_chans l p = Some c" "ll_poller l = Some ep" "caller = ll_tid l" "l' = put_channel p (chan_do opr p c ep) l"
  using assms
  by (auto simp: channel_do_def loop_updateChannel_def loop_removeChannel_def with_poller_def assertInLoopThread_def
    isInLoopThread_def chan_do_def split: option.splits if_splits)

lemma channel_do_ok:
  assumes "ll_chans l p = Some c" "ll_poller l = Some ep"
  shows "channel_do (ll_tid l) opr p l = Inr (put_channel p (chan_do opr p c ep) l)"
  using assms by (simp add: channel_do_def loop_updateChannel_def loop_removeChannel_def with_poller_def assertInLoopThread_def
    isInLoopThread_def chan_do_def)

lemma put_reactor:
  assumes "ll_chans l p = Some c" "ll_poller l = Some ep"
  shows "reactor_of (put_channel p (chan_do opr p c ep) l) = reactor_do opr p (reactor_of l)"
  using assms by (simp add: reactor_of_def put_channel_def reactor_do_def Let_def case_prod_beta)

lemma put_channel_simps [simp]:
  "ll_tid (put_channel p ce l) = ll_tid l" "ll_wakeup (put_channel p ce l) = ll_wakeup l" "ll_refs (put_channel p ce l) = ll_refs l"
  "ll_fds (put_channel p ce l) = ll_fds l" "ll_destroyed (put_channel p ce l) = ll_destroyed l"
  "ll_chans (put_channel p ce l) = (ll_chans l)(p \<mapsto> fst ce)" "ll_poller (put_channel p ce l) = Some (snd ce)"
  by (simp_all add: put_channel_def)

lemma fresh_reactor: "ch_status c = INIT \<Longrightarrow> reactor_inv \<lparr>re_chans = [p \<mapsto> c], re_epoll = new_Epoller\<rparr>"
  by (auto simp: reactor_inv_def new_Epoller_def distinct_fds_def listening_def split: if_splits)

lemma self_held_init:
  assumes "EventLoop_init caller epollfd evtfd p (make_loop tid x) = Inr l"
  shows "self_held tid evtfd p l"
proof -
  define l3 where "l3 = (make_loop tid x)\<lparr>ll_poller := Some new_Epoller, ll_wakeupFd := Some evtfd, ll_fds := {evtfd}, ll_wakeup := Some p,
    ll_refs := {Channel_loop p, Held x}, ll_chans := [p \<mapsto> (new_Channel evtfd)\<lparr>ch_hasRead := True\<rparr>]\<rparr>"
  have "channel_do caller EnableReading p l3 = Inr l" using assms
    by (simp add: EventLoop_init_def create_Epoller_def createEventfd_def construct_Channel_def drop_Channel_def make_loop_def l3_def Let_def split: if_splits)
  then have l: "l = put_channel p (chan_do EnableReading p ((new_Channel evtfd)\<lparr>ch_hasRead := True\<rparr>) new_Epoller) l3"
    by (rule channel_do_cases) (simp_all add: l3_def)
  have "reactor_inv (reactor_of l3)"
    using fresh_reactor [of "(new_Channel evtfd)\<lparr>ch_hasRead := True\<rparr>" p] by (simp add: reactor_of_def l3_def new_Channel_def)
  then have "reactor_inv (reactor_of l)"
    unfolding l by (subst put_reactor) (auto simp: l3_def intro: reactor_do_inv)
  then show ?thesis
    unfolding self_held_def by (simp add: l l3_def make_loop_def chan_defs new_Channel_def mask_of_def)
qed

lemma release_keeps:
  assumes "release_loop caller x l = Inr l'" "Channel_loop p \<in> ll_refs l" "x \<noteq> Channel_loop p"
  shows "l' = l\<lparr>ll_refs := ll_refs l - {x}\<rparr>"
  using assms by (auto simp: release_loop_def Let_def split: if_splits)

lemma self_held_step:
  assumes "self_held tid fd p l" "owner_step l l'"
  shows "self_held tid fd p l'"
proof -
  note h = assms(1) [unfolded self_held_def]
  obtain c where c: "ll_chans l p = Some c" "ch_fd c = fd" "ch_status c = LISTEN" "ch_events c = mask_of True False" using h by blast
  obtain ep where ep: "ll_poller l = Some ep" using h by blast
  have r: "reactor_inv (reactor_of l)" using h by simp
  from assms(2) show ?thesis
  proof (cases rule: owner_step.cases)
    case (copy x)
    with h show ?thesis by (simp add: self_held_def reactor_of_def)
  next
    case (release x caller)
    with release_keeps [of caller "Held x" l l' p] h show ?thesis by (simp add: self_held_def reactor_of_def)
  next
    case (new_channel q fd')
    have "reactor_step (reactor_of l) (reactor_of l')"
      using reactor_step.new_step [of "reactor_of l" q fd'] new_channel by (simp add: reactor_of_def construct_Channel_def)
    from reactor_step_inv [OF r this] h c new_channel show ?thesis by (auto simp: self_held_def construct_Channel_def)
  next
    case (del_channel q d caller l1)
    have l1: "l1 = l\<lparr>ll_refs := ll_refs l - {Channel_loop q}\<rparr>"
      using release_keeps [OF del_channel(5), of p] h del_channel(4) by auto
    have "reactor_step (reactor_of l) (reactor_of l')"
      using reactor_step.drop_step [of "reactor_of l" q d] del_channel(1-3) by (simp add: reactor_of_def l1)
    from reactor_step_inv [OF r this] h c del_channel(1,4) show ?thesis by (auto simp: self_held_def l1)
  next
    case (channel_op q caller opr)
    from channel_op(2) obtain d where d: "ll_chans l q = Some d" "l' = put_channel q (chan_do opr q d ep) l"
      using ep by (auto elim: channel_do_cases)
    have "reactor_inv (reactor_of l')" unfolding d(2) put_reactor [OF d(1) ep] by (rule reactor_do_inv [OF r])
    with h c d channel_op(1) show ?thesis by (auto simp: self_held_def)
  next
    case (poll_channels ep1 w ep' cs act)
    have "reactor_step (reactor_of l) (reactor_of l')"
      using reactor_step.poll_step [of w "reactor_of l" ep' cs act] poll_channels by (simp add: reactor_of_def)
    note inv = reactor_step_inv [OF r this]
    have "map_option (\<lambda>c. c\<lparr>ch_revents := 0\<rparr>) (cs p) = Some (c\<lparr>ch_revents := 0\<rparr>)"
      using poll_frame [OF poll_channels(3)] c(1) by simp
    then obtain c' where c': "cs p = Some c'" "c'\<lparr>ch_revents := 0\<rparr> = c\<lparr>ch_revents := 0\<rparr>" by auto
    then have "ch_fd c' = fd" "ch_status c' = LISTEN" "ch_events c' = mask_of True False"
      using c by (cases c; cases c'; simp)+
    with inv h c'(1) poll_channels show ?thesis by (auto simp: self_held_def)
  qed
qed

interpretation life: invariant_system "\<lambda>l. \<exists>caller epollfd x. EventLoop_init caller epollfd evtfd p (make_loop tid x) = Inr l"
    owner_step "self_held tid evtfd p" for tid evtfd p
  by unfold_locales (auto intro: self_held_init self_held_step)

section \<open>Destructors\<close>

text \<open>A loop that was never initialised is destroyed with its last owner, and the destructor follows a null pointer.\<close>

lemma release_uninitialised: "release_loop caller (Held x) (make_loop tid x) = Inl Null_deref"
  by (simp add: release_loop_def make_loop_def destroy_EventLoop_def)

lemma chan_do_removed:
  assumes "reactor_inv r" "re_chans r p = Some c"
  shows "\<exists>m. ctl_replay (ep_calls (re_epoll (reactor_do Remove p r))) Map.empty = Some m \<and> m (ch_fd c) = None"
proof -
  have inv: "reactor_inv (reactor_do Remove p r)" by (rule reactor_do_inv [OF assms(1)])
  obtain c' where c': "re_chans (reactor_do Remove p r) p = Some c'" "ch_status c' = DELETED" "ch_fd c' = ch_fd c"
    using assms(2) by (auto simp: reactor_do_def chan_defs)
  from inv obtain m where m: "ctl_replay (ep_calls (re_epoll (reactor_do Remove p r))) Map.empty = Some m"
    "listening (re_chans (reactor_do Remove p r)) m" "distinct_fds (re_chans (reactor_do Remove p r))" by (auto simp: reactor_inv_def)
  with listening_lookup [OF m(2,3) c'(1)] c' show ?thesis by auto
qed

text \<open>\<open>~Acceptor\<close> in the loop's thread leaves the listening socket unregistered, whatever state its channel was in, and
  made only legal \<open>epoll_ctl\<close> calls; in another thread it aborts.\<close>

lemma acceptor_unregistered:
  assumes "reactor_inv (reactor_of l)" "ll_chans l p = Some c" "ll_poller l \<noteq> None"
  shows "\<exists>l'. destroy_Acceptor (ll_tid l) p idleFd l = Inr l' \<and> idleFd \<notin> ll_fds l'
    \<and> (\<exists>m. ctl_replay (ep_calls (the (ll_poller l'))) Map.empty = Some m \<and> m (ch_fd c) = None)"
    "caller \<noteq> ll_tid l \<Longrightarrow> destroy_Acceptor caller p idleFd l = Inl Abort"
proof -
  obtain ep where ep: "ll_poller l = Some ep" using assms(3) by blast
  define l1 where "l1 = put_channel p (chan_do DisableAll p c ep) l"
  obtain c1 ep1 where 1: "ll_chans l1 p = Some c1" "ll_poller l1 = Some ep1" "ch_fd c1 = ch_fd c" by (simp add: l1_def)
  define l2 where "l2 = put_channel p (chan_do Remove p c1 ep1) l1"
  have r: "reactor_of l1 = reactor_do DisableAll p (reactor_of l)" "reactor_of l2 = reactor_do Remove p (reactor_of l1)"
    using put_reactor [OF assms(2) ep] put_reactor [OF 1(1,2)] by (simp_all add: l1_def l2_def)
  have ok1: "channel_do (ll_tid l) DisableAll p l = Inr l1" using channel_do_ok [OF assms(2) ep] by (simp add: l1_def)
  have ok2: "channel_do (ll_tid l) Remove p l1 = Inr l2" using channel_do_ok [OF 1(1,2), of Remove] by (simp add: l2_def) (simp add: l1_def)
  have "\<exists>m. ctl_replay (ep_calls (re_epoll (reactor_do Remove p (reactor_of l1)))) Map.empty = Some m \<and> m (ch_fd c1) = None"
  proof (rule chan_do_removed)
    show "reactor_inv (reactor_of l1)" unfolding r(1) by (rule reactor_do_inv [OF assms(1)])
    show "re_chans (reactor_of l1) p = Some c1" using 1(1) by (simp add: reactor_of_def)
  qed
  then have "\<exists>m. ctl_replay (ep_calls (the (ll_poller l2))) Map.empty = Some m \<and> m (ch_fd c) = None"
    using r(2) 1(3) by (metis reactor_of_def reactor.select_convs(2))
  with ok1 ok2 show "\<exists>l'. destroy_Acceptor (ll_tid l) p idleFd l = Inr l' \<and> idleFd \<notin> ll_fds l'
      \<and> (\<exists>m. ctl_replay (ep_calls (the (ll_poller l'))) Map.empty = Some m \<and> m (ch_fd c) = None)"
    by (simp add: destroy_Acceptor_def)
  show "destroy_Acceptor caller p idleFd l = Inl Abort" if "caller \<noteq> ll_tid l"
    using that assms(2) by (auto simp: destroy_Acceptor_def channel_do_def loop_updateChannel_def with_poller_def isInLoopThread_def assertInLoopThread_def)
qed

section \<open>Properties\<close>

text \<open>C29: an initialised loop is never destroyed.  After \<open>init()\<close>, whatever the program does with its pointers and channels,
  the wakeup channel keeps an owner of the loop that only the loop's own destructor would let go: the destructor does not run,
  even when every other owner has gone; the eventfd stays open and registered for reading, and \<open>getLoop()\<close> of a connection
  never gives a null pointer.\<close>

theorem loop_never_destroyed:
  assumes "EventLoop_init caller epollfd evtfd p (make_loop tid x) = Inr l0" "owner_step\<^sup>*\<^sup>* l0 l"
  shows "getLoop l \<and> \<not> ll_destroyed l \<and> evtfd \<in> ll_fds l
    \<and> (\<exists>m. ctl_replay (ep_calls (the (ll_poller l))) Map.empty = Some m \<and> m evtfd = Some (mask_of True False, p))
    \<and> (\<forall>t y. \<exists>l'. release_loop t (Held y) l = Inr l' \<and> getLoop l')"
proof -
  have h: "self_held tid evtfd p l" using life.inv_steps [OF assms(2)] self_held_init [OF assms(1)] by blast
  then obtain c where c: "ll_chans l p = Some c" "ch_fd c = evtfd" "ch_status c = LISTEN" "ch_events c = mask_of True False"
    and r: "reactor_inv (reactor_of l)" and own: "Channel_loop p \<in> ll_refs l" by (auto simp: self_held_def)
  from r obtain m where m: "ctl_replay (ep_calls (the (ll_poller l))) Map.empty = Some m" "listening (ll_chans l) m" "distinct_fds (ll_chans l)"
    by (auto simp: reactor_inv_def reactor_of_def)
  have "m evtfd = Some (mask_of True False, p)" using listening_lookup [OF m(2,3) c(1)] c by simp
  moreover have "\<exists>l'. release_loop t (Held y) l = Inr l' \<and> getLoop l'" for t y
    using own by (auto simp: release_loop_def getLoop_def Let_def)
  ultimately show ?thesis using h own m(1) by (auto simp: self_held_def getLoop_def)
qed

theorem loop_never_destroyed_witness:
  "\<exists>l0 l. EventLoop_init 1 4 5 7 (make_loop 1 0) = Inr l0 \<and> release_loop 1 (Held 0) l0 = Inr l \<and> ll_refs l = {Channel_loop 7}
    \<and> getLoop l \<and> \<not> ll_destroyed l \<and> 5 \<in> ll_fds l"
proof -
  obtain l0 where l0: "EventLoop_init 1 4 5 7 (make_loop 1 0) = Inr l0" "ll_refs l0 = {Channel_loop 7, Held 0}"
    by (simp add: EventLoop_init_def create_Epoller_def createEventfd_def construct_Channel_def drop_Channel_def make_loop_def Let_def
      channel_do_def loop_updateChannel_def with_poller_def isInLoopThread_def assertInLoopThread_def insert_commute)
  let ?l = "l0\<lparr>ll_refs := {Channel_loop 7}\<rparr>"
  have r: "release_loop 1 (Held 0) l0 = Inr ?l" using l0(2) by (simp add: release_loop_def insert_Diff_if)
  then have "owner_step\<^sup>*\<^sup>* l0 ?l" using owner_step.release [of 0 l0 1 ?l] l0(2) by blast
  from loop_never_destroyed [OF l0(1) this] l0 r show ?thesis by auto
qed

end
