(* ===== verification/Co_Main.thy ===== *)
theory Co_Main
  imports Co_Echo
begin

text \<open>
  The socket functions and the start of \<open>main\<close> in \<open>src/src/net/coro/co_echo_service.cpp\<close>.  They return \<open>errno\<close>, which
  a successful call leaves as it was, so it is part of the state; 0 is no error.  A system call gives a descriptor, or -1 with
  an error number.
\<close>

section \<open>Socket functions\<close>

record 'k co_net =
  cn_socket :: "'k \<Rightarrow> (int + int) \<times> 'k"
  cn_bind :: "'k \<Rightarrow> int \<Rightarrow> (int + unit) \<times> 'k"
  cn_listen :: "'k \<Rightarrow> int \<Rightarrow> (int + unit) \<times> 'k"
  cn_accept :: "'k \<Rightarrow> int \<Rightarrow> (int + int) \<times> 'k"

record 'k co_proc =
  cp_errno :: int
  cp_kernel :: 'k

text \<open>A call that failed (\<open>Inl\<close>) sets \<open>errno\<close>.\<close>

definition note_errno :: "(int + 'a) \<times> 'k \<Rightarrow> 'k co_proc \<Rightarrow> 'k co_proc" where
  "note_errno r s = \<lparr>cp_errno = (case fst r of Inl e \<Rightarrow> e | Inr _ \<Rightarrow> cp_errno s), cp_kernel = snd r\<rparr>"

definition socket_create :: "'k co_net \<Rightarrow> 'k co_proc \<Rightarrow> int \<times> 'k co_proc" where
  "socket_create net s = (let r = cn_socket net (cp_kernel s) in (case fst r of Inl e \<Rightarrow> - 1 | Inr fd \<Rightarrow> fd, note_errno r s))"

definition socket_bind :: "'k co_net \<Rightarrow> int \<Rightarrow> 'k co_proc \<Rightarrow> int \<times> 'k co_proc" where
  "socket_bind net fd s =
     (let r = cn_bind net (cp_kernel s) fd; s1 = note_errno r s in (if isl (fst r) then cp_errno s1 else 0, s1))"

definition socket_listen :: "'k co_net \<Rightarrow> int \<Rightarrow> 'k co_proc \<Rightarrow> int \<times> 'k co_proc" where
  "socket_listen net fd s = (let r = cn_listen net (cp_kernel s) fd; s1 = note_errno r s in (cp_errno s1, s1))"

definition socket_accept :: "'k co_net \<Rightarrow> int \<Rightarrow> 'k co_proc \<Rightarrow> (int \<times> int) \<times> 'k co_proc" where
  "socket_accept net ln s =
     (let r = cn_accept net (cp_kernel s) ln; s1 = note_errno r s in ((cp_errno s1, case fst r of Inl e \<Rightarrow> - 1 | Inr fd \<Rightarrow> fd), s1))"

text \<open>\<open>while (socket_accept(ln, sd) && sd == -1) ;\<close>\<close>

definition accept_pass :: "'k co_net \<Rightarrow> int \<Rightarrow> 'k co_proc \<Rightarrow> ('k co_proc, int \<times> 'k co_proc) flow result option" where
  "accept_pass net ln s =
     (case socket_accept net ln s of ((err, sd), s1) \<Rightarrow> ok (if err \<noteq> 0 \<and> sd = - 1 then Continue s1 else Return (sd, s1)))"

text \<open>\<open>main\<close> up to the accepted connection; the results of \<open>socket_bind\<close> and \<open>socket_listen\<close> are not looked at.\<close>

definition co_main :: "'k co_net \<Rightarrow> 'k co_proc \<Rightarrow> (int \<times> 'k co_proc) outcome" where
  "co_main net s =
     (let (ln, s1) = socket_create net s; (_, s2) = socket_bind net ln s1; (_, s3) = socket_listen net ln s2
      in run_loop (accept_pass net ln) s3)"

section \<open>Waiting for a connection\<close>

text \<open>\<open>n\<close> failed attempts and then a connection.\<close>

fun accepts_after :: "'k co_net \<Rightarrow> int \<Rightarrow> nat \<Rightarrow> 'k \<Rightarrow> int \<Rightarrow> 'k \<Rightarrow> bool" where
  "accepts_after net ln 0 k fd k' \<longleftrightarrow> cn_accept net k ln = (Inr fd, k') \<and> 0 \<le> fd"
| "accepts_after net ln (Suc n) k fd k' \<longleftrightarrow>
     (\<exists>e k1. cn_accept net k ln = (Inl e, k1) \<and> e \<noteq> 0 \<and> accepts_after net ln n k1 fd k')"

lemma accept_pass_cases:
  "cn_accept net (cp_kernel s) ln = (Inl e, k) \<Longrightarrow> e \<noteq> 0 \<Longrightarrow> accept_pass net ln s = ok (Continue \<lparr>cp_errno = e, cp_kernel = k\<rparr>)"
  "cn_accept net (cp_kernel s) ln = (Inr fd, k) \<Longrightarrow> 0 \<le> fd \<Longrightarrow> accept_pass net ln s = ok (Return (fd, \<lparr>cp_errno = cp_errno s, cp_kernel = k\<rparr>))"
  by (simp_all add: accept_pass_def socket_accept_def note_errno_def Let_def)

lemma accept_loop_returns:
  assumes "accepts_after net ln n (cp_kernel s) fd k"
  shows "\<exists>s'. run_loop (accept_pass net ln) s = ok (fd, s') \<and> cp_kernel s' = k"
  using assms
proof (induction n arbitrary: s)
  case 0
  then show ?case by (subst run_loop.simps) (simp add: accept_pass_cases)
next
  case (Suc n)
  then obtain e k1 where e: "cn_accept net (cp_kernel s) ln = (Inl e, k1)" "e \<noteq> 0" "accepts_after net ln n k1 fd k" by auto
  from Suc.IH [of "\<lparr>cp_errno = e, cp_kernel = k1\<rparr>"] e show ?case
    by (subst run_loop.simps) (simp add: accept_pass_cases)
qed

text \<open>When the socket could not be made or bound, every \<open>accept\<close> fails and the loop spins for ever.\<close>

lemma accept_loop_spins:
  assumes "\<And>k. \<exists>e k'. cn_accept net k ln = (Inl e, k') \<and> e \<noteq> 0"
  shows "run_loop (accept_pass net ln) s = None"
proof (rule run_loop_diverges [where I = "\<lambda>s. True"])
  fix s :: "'a co_proc"
  obtain e k' where "cn_accept net (cp_kernel s) ln = (Inl e, k')" "e \<noteq> 0" using assms by blast
  then show "\<exists>s'. accept_pass net ln s = Some (Inr (Continue s')) \<and> True"
    by (simp add: accept_pass_cases)
qed simp

section \<open>Properties\<close>

text \<open>The connection \<open>main\<close> serves.  Failed attempts to accept are repeated, whatever \<open>errno\<close> held before, and the first
  connection is the one returned; when there is no listening socket (its creation, binding or listening failed) \<open>main\<close> never
  gets past the loop.\<close>

theorem co_main_accepts:
  assumes "cn_socket net (cp_kernel s) = (sr, k1)" "cn_bind net k1 (case sr of Inl e \<Rightarrow> - 1 | Inr fd \<Rightarrow> fd) = (br, k2)"
    "cn_listen net k2 (case sr of Inl e \<Rightarrow> - 1 | Inr fd \<Rightarrow> fd) = (lr, k3)"
  shows "accepts_after net (case sr of Inl e \<Rightarrow> - 1 | Inr fd \<Rightarrow> fd) n k3 fd k \<Longrightarrow> \<exists>s'. co_main net s = ok (fd, s') \<and> cp_kernel s' = k"
    "(\<And>k. \<exists>e k'. cn_accept net k (case sr of Inl e \<Rightarrow> - 1 | Inr fd \<Rightarrow> fd) = (Inl e, k') \<and> e \<noteq> 0) \<Longrightarrow> co_main net s = None"
proof -
  let ?ln = "case sr of Inl e \<Rightarrow> - 1 | Inr fd \<Rightarrow> fd"
  obtain s3 where m: "co_main net s = run_loop (accept_pass net ?ln) s3" "cp_kernel s3 = k3"
    using assms by (simp add: co_main_def socket_create_def socket_bind_def socket_listen_def note_errno_def Let_def)
  show "\<exists>s'. co_main net s = ok (fd, s') \<and> cp_kernel s' = k" if "accepts_after net ?ln n k3 fd k"
    using accept_loop_returns [of net ?ln n s3 fd k] that m by simp
  show "co_main net s = None" if "\<And>k. \<exists>e k'. cn_accept net k ?ln = (Inl e, k') \<and> e \<noteq> 0"
    using accept_loop_spins [OF that] m(1) by simp
qed

end
