(* ===== verification/Weak_Callback.thy ===== *)
theory Weak_Callback
  imports Adl_Prelude
begin

text \<open>
  \<open>src/src/base/WeakCallback.h\<close>: a function bound to an object through a \<open>weak_ptr\<close>.  \<open>operator()\<close> has three points at which
  other threads can interfere: taking the \<open>shared_ptr\<close>, calling the function, and the end of the local pointer's life.  The
  object's control block counts its owners; the last one destroys the object.
\<close>

section \<open>Shared objects\<close>

datatype holder = Var nat | Local nat

record 'o block =
  bk_owners :: "holder set"
  bk_object :: "'o option"
  bk_destroyed :: nat

definition make_shared :: "nat \<Rightarrow> 'o \<Rightarrow> 'o block" where
  "make_shared x ob = \<lparr>bk_owners = {Var x}, bk_object = Some ob, bk_destroyed = 0\<rparr>"

definition lock_block :: "holder \<Rightarrow> 'o block \<Rightarrow> 'o block option" where
  "lock_block h b = (if bk_owners b = {} then None else Some (b\<lparr>bk_owners := insert h (bk_owners b)\<rparr>))"

definition release_block :: "holder \<Rightarrow> 'o block \<Rightarrow> 'o block" where
  "release_block h b =
     (let b1 = b\<lparr>bk_owners := bk_owners b - {h}\<rparr> in
      if h \<in> bk_owners b \<and> bk_owners b1 = {} then b1\<lparr>bk_object := None, bk_destroyed := Suc (bk_destroyed b)\<rparr> else b1)"

section \<open>WeakCallback\<close>

record ('o, 'a) weakCallback =
  wc_function :: "'o \<Rightarrow> 'a \<Rightarrow> 'o"

definition makeWeakCallback :: "('o \<Rightarrow> 'a \<Rightarrow> 'o) \<Rightarrow> ('o, 'a) weakCallback" where
  "makeWeakCallback f = \<lparr>wc_function = f\<rparr>"

text \<open>\<open>ptr(object_.lock())\<close>, the call through \<open>ptr.get()\<close>, the end of \<open>ptr\<close>; and the whole operator without interference.\<close>

definition wc_call_function :: "('o, 'a) weakCallback \<Rightarrow> 'a \<Rightarrow> 'o block \<Rightarrow> 'o block result" where
  "wc_call_function w a b = (case bk_object b of None \<Rightarrow> Inl Null_deref | Some ob \<Rightarrow> Inr (b\<lparr>bk_object := Some (wc_function w ob a)\<rparr>))"

definition wc_operator :: "('o, 'a) weakCallback \<Rightarrow> nat \<Rightarrow> 'a \<Rightarrow> 'o block \<Rightarrow> 'o block result" where
  "wc_operator w t a b =
     (case lock_block (Local t) b of
        None \<Rightarrow> Inr b
      | Some b1 \<Rightarrow> bind_res (wc_call_function w a b1) (\<lambda>b2. Inr (release_block (Local t) b2)))"

section \<open>Callers and owners in any order\<close>

text \<open>A caller between its lock and its call, or between its call and the end of its pointer; the calls made so far.\<close>

datatype 'a wc_pc = Has_ptr 'a | Called

record ('o, 'a) wsys =
  ws_block :: "'o block"
  ws_pc :: "nat \<rightharpoonup> 'a wc_pc"
  ws_calls :: "'a list"
  ws_fault :: bool

inductive wc_step :: "('o, 'a) weakCallback \<Rightarrow> ('o, 'a) wsys \<Rightarrow> ('o, 'a) wsys \<Rightarrow> bool" for w where
  copy: "bk_owners (ws_block s) \<noteq> {} \<Longrightarrow> wc_step w s (s\<lparr>ws_block := (ws_block s)\<lparr>bk_owners := insert (Var x) (bk_owners (ws_block s))\<rparr>\<rparr>)"
| release: "wc_step w s (s\<lparr>ws_block := release_block (Var x) (ws_block s)\<rparr>)"
| lock: "ws_pc s t = None \<Longrightarrow> lock_block (Local t) (ws_block s) = Some b \<Longrightarrow> wc_step w s (s\<lparr>ws_block := b, ws_pc := (ws_pc s)(t \<mapsto> Has_ptr a)\<rparr>)"
| expired: "ws_pc s t = None \<Longrightarrow> lock_block (Local t) (ws_block s) = None \<Longrightarrow> wc_step w s s"
| call: "ws_pc s t = Some (Has_ptr a) \<Longrightarrow> wc_call_function w a (ws_block s) = Inr b
    \<Longrightarrow> wc_step w s (s\<lparr>ws_block := b, ws_pc := (ws_pc s)(t \<mapsto> Called), ws_calls := ws_calls s @ [a]\<rparr>)"
| fault: "ws_pc s t = Some (Has_ptr a) \<Longrightarrow> wc_call_function w a (ws_block s) = Inl e \<Longrightarrow> wc_step w s (s\<lparr>ws_fault := True\<rparr>)"
| finish: "ws_pc s t = Some Called \<Longrightarrow> wc_step w s (s\<lparr>ws_block := release_block (Local t) (ws_block s), ws_pc := (ws_pc s)(t := None)\<rparr>)"

inductive_cases wc_stepE: "wc_step w s s'"

definition wc_init :: "'o \<Rightarrow> ('o, 'a) wsys \<Rightarrow> bool" where
  "wc_init ob s \<longleftrightarrow> (\<exists>x. s = \<lparr>ws_block = make_shared x ob, ws_pc = Map.empty, ws_calls = [], ws_fault = False\<rparr>)"

text \<open>The object exists exactly while it has owners, a running call is one of them, and the object is what the calls made of it.\<close>

definition wc_inv :: "('o, 'a) weakCallback \<Rightarrow> 'o \<Rightarrow> ('o, 'a) wsys \<Rightarrow> bool" where
  "wc_inv w ob s \<longleftrightarrow> \<not> ws_fault s
     \<and> bk_object (ws_block s) = (if bk_owners (ws_block s) = {} then None else Some (foldl (wc_function w) ob (ws_calls s)))
     \<and> bk_destroyed (ws_block s) = (if bk_owners (ws_block s) = {} then 1 else 0)
     \<and> (\<forall>t. ws_pc s t \<noteq> None \<longleftrightarrow> Local t \<in> bk_owners (ws_block s))"

lemma wc_inv_step:
  assumes "wc_inv w ob s" "wc_step w s s'"
  shows "wc_inv w ob s'"
  using assms(2)
proof (cases rule: wc_step.cases)
  case (call t a b)
  then have "Local t \<in> bk_owners (ws_block s)" using assms(1) unfolding wc_inv_def by (metis option.distinct(1))
  with call assms(1) show ?thesis by (auto simp: wc_inv_def wc_call_function_def split: option.splits if_splits)
next
  case (fault t a e)
  then have "Local t \<in> bk_owners (ws_block s)" using assms(1) unfolding wc_inv_def by (metis option.distinct(1))
  with fault assms(1) show ?thesis by (auto simp: wc_inv_def wc_call_function_def split: option.splits if_splits)
next
  case (finish t)
  then have "Local t \<in> bk_owners (ws_block s)" using assms(1) unfolding wc_inv_def by (metis option.distinct(1))
  with finish assms(1) show ?thesis by (auto simp: wc_inv_def release_block_def Let_def split: if_splits)
next
  case (release x)
  with assms(1) show ?thesis by (auto simp: wc_inv_def release_block_def Let_def split: if_splits)
next
  case (lock t b a)
  with assms(1) show ?thesis by (auto simp: wc_inv_def lock_block_def split: if_splits)
qed (use assms(1) in \<open>auto simp: wc_inv_def split: if_splits\<close>)

interpretation wcb: invariant_system "wc_init ob" "wc_step w" "wc_inv w ob" for w ob
proof unfold_locales
  show "wc_init ob s \<Longrightarrow> wc_inv w ob s" for s by (auto simp: wc_init_def wc_inv_def make_shared_def)
qed (rule wc_inv_step)

section \<open>Properties\<close>

text \<open>A callback never runs on a destroyed object.  However calls, copies and releases of the object interleave, no call
  follows a null pointer, the object is destroyed at most once and not while a call is running, and it has seen exactly the
  calls that were made, in order.\<close>

theorem weak_callback_safe:
  assumes "reachable (wc_init ob) (wc_step w) s"
  shows "\<not> ws_fault s \<and> bk_destroyed (ws_block s) \<le> 1
    \<and> (bk_object (ws_block s) \<noteq> None \<longrightarrow> bk_object (ws_block s) = Some (foldl (wc_function w) ob (ws_calls s)))
    \<and> (\<forall>t. ws_pc s t \<noteq> None \<longrightarrow> bk_object (ws_block s) \<noteq> None)"
proof -
  have "wc_inv w ob s" using assms by (rule wcb.inv_reachable)
  then show ?thesis unfolding wc_inv_def by (auto split: if_splits)
qed

text \<open>Without interference the operator applies the function once, or does nothing when the object is gone.\<close>

theorem weak_callback_operator:
  "wc_operator w t a (make_shared x ob) = Inr (make_shared x (wc_function w ob a))"
  "bk_owners b = {} \<Longrightarrow> wc_operator w t a b = Inr b"
  by (simp_all add: wc_operator_def lock_block_def make_shared_def wc_call_function_def release_block_def insert_Diff_if)

end
