(* ===== verification/Server_Start.thy ===== *)
theory Server_Start
  imports Loop_Life Socket_Ops Tcp_Server
begin

text \<open>
  How a server comes up: \<open>httpServer::httpServer\<close> and \<open>start\<close> (\<open>src/src/httpServer.h\<close>), \<open>TcpServer::TcpServer\<close> and \<open>start\<close>,
  \<open>Acceptor::Acceptor\<close> and \<open>listen\<close>, composed from the main loop (\<open>Loop_Life\<close>), the listening socket (\<open>Socket_Ops\<close>) and the
  pool of loops (\<open>Tcp_Server\<close>).
\<close>

section \<open>Construction\<close>

text \<open>The parts of a server that exist once; \<open>ms_channel\<close> is the address of \<open>acceptChannel_\<close>, and \<open>ms_pending\<close> says that
  \<open>listen\<close> was queued on the main loop instead of called.\<close>

record 'k main_server =
  ms_loop :: loop_obj
  ms_channel :: nat
  ms_acceptFd :: int
  ms_idleFd :: int
  ms_listening :: bool
  ms_pending :: bool
  ms_hasNewConnection :: bool
  ms_hasMessage :: bool
  ms_server :: server
  ms_kernel :: 'k

definition set_readCallback :: "nat \<Rightarrow> loop_obj \<Rightarrow> loop_obj" where
  "set_readCallback q l = l\<lparr>ll_chans := (ll_chans l)(q := map_option (\<lambda>c. c\<lparr>ch_hasRead := True\<rparr>) (ll_chans l q))\<rparr>"

text \<open>\<open>Acceptor::Acceptor\<close>: the descriptors and the loop with the new channel.\<close>

definition construct_Acceptor :: "'k sock_sys \<Rightarrow> sockaddr_in \<Rightarrow> nat \<Rightarrow> loop_obj \<Rightarrow> 'k \<Rightarrow> (int \<times> int \<times> loop_obj \<times> 'k) result" where
  "construct_Acceptor sys addr q l k =
     bind_res (open_acceptor sys addr k) (\<lambda>(fd, idleFd, k1). Inr (fd, idleFd, set_readCallback q (construct_Channel q fd l), k1))"

text \<open>\<open>TcpServer::TcpServer\<close>.  The two \<open>bool\<close>s are what \<open>started_\<close> of the server and of the pool hold before they are written.\<close>

definition construct_TcpServer :: "'k sock_sys \<Rightarrow> nat \<Rightarrow> int \<Rightarrow> int \<Rightarrow> nat \<Rightarrow> nat \<Rightarrow> sockaddr_in \<Rightarrow> bool \<times> bool \<times> int \<Rightarrow> int
    \<Rightarrow> loop_obj \<Rightarrow> 'k \<Rightarrow> 'k main_server result" where
  "construct_TcpServer sys caller epollfd evtfd p q addr garbage numThreads l k =
     (case garbage of (started0, pool_started0, n0) \<Rightarrow>
      bind_res (EventLoop_init caller epollfd evtfd p l) (\<lambda>l1.
      bind_res (construct_Acceptor sys addr q l1 k) (\<lambda>(fd, idleFd, l2, k1).
        Inr \<lparr>ms_loop = l2, ms_channel = q, ms_acceptFd = fd, ms_idleFd = idleFd, ms_listening = False, ms_pending = False,
             ms_hasNewConnection = True, ms_hasMessage = False,
             ms_server = new_TcpServer started0 pool_started0 n0 numThreads, ms_kernel = k1\<rparr>)))"

definition listen_Acceptor :: "'k sock_sys \<Rightarrow> nat \<Rightarrow> 'k main_server \<Rightarrow> 'k main_server result" where
  "listen_Acceptor sys caller m =
     bind_res (assertInLoopThread (isInLoopThread caller (ms_loop m))) (\<lambda>_.
     bind_res (listenOrDie sys (ms_acceptFd m) (ms_kernel m)) (\<lambda>k.
     bind_res (channel_do caller EnableReading (ms_channel m) (ms_loop m)) (\<lambda>l.
       Inr (m\<lparr>ms_listening := True, ms_kernel := k, ms_loop := l\<rparr>))))"

text \<open>\<open>TcpServer::start\<close> whole, with \<open>runInLoop\<close>.\<close>

definition start_TcpServer :: "'k sock_sys \<Rightarrow> nat \<Rightarrow> 'k main_server \<Rightarrow> 'k main_server result" where
  "start_TcpServer sys caller m =
     bind_res (server_start (isInLoopThread caller (ms_loop m)) (ms_listening m) (ms_server m)) (\<lambda>s.
       let m1 = m\<lparr>ms_server := s\<rparr> in
       if isInLoopThread caller (ms_loop m1) then listen_Acceptor sys caller m1 else Inr (m1\<lparr>ms_pending := True\<rparr>))"

text \<open>\<open>httpServer::httpServer\<close>, and \<open>httpServer::start\<close> up to \<open>mainLoop_->loop()\<close>.\<close>

definition construct_httpServer :: "'k sock_sys \<Rightarrow> nat \<Rightarrow> int \<Rightarrow> int \<Rightarrow> nat \<Rightarrow> nat \<Rightarrow> sockaddr_in \<Rightarrow> bool \<times> bool \<times> int \<Rightarrow> 'k \<Rightarrow> 'k main_server result" where
  "construct_httpServer sys caller epollfd evtfd p q addr garbage k =
     construct_TcpServer sys caller epollfd evtfd p q addr garbage 4 (make_loop caller 0) k"

definition start_httpServer :: "'k sock_sys \<Rightarrow> nat \<Rightarrow> 'k main_server \<Rightarrow> 'k main_server result" where
  "start_httpServer sys caller m = start_TcpServer sys caller (m\<lparr>ms_hasMessage := True\<rparr>)"

definition run_httpServer :: "'k sock_sys \<Rightarrow> nat \<Rightarrow> nat \<Rightarrow> int \<Rightarrow> int \<Rightarrow> nat \<Rightarrow> nat \<Rightarrow> sockaddr_in \<Rightarrow> bool \<times> bool \<times> int \<Rightarrow> 'k \<Rightarrow> 'k main_server result" where
  "run_httpServer sys caller starter epollfd evtfd p q addr garbage k =
     bind_res (construct_httpServer sys caller epollfd evtfd p q addr garbage k) (start_httpServer sys starter)"

section \<open>A turn of the main loop\<close>

text \<open>The channels of the main loop are the wakeup channel, whose callback only empties the eventfd, and \<open>acceptChannel_\<close>, whose
  read callback is \<open>Acceptor::handleRead\<close>.\<close>

definition acceptor_of :: "'k main_server \<Rightarrow> ('k, server) acceptor" where
  "acceptor_of m = \<lparr>ac_listening = ms_listening m, ac_idleFd = ms_idleFd m, ac_state = ms_server m, ac_closed = [], ac_kernel = ms_kernel m\<rparr>"

definition with_acceptor :: "('k, server) acceptor \<Rightarrow> 'k main_server \<Rightarrow> 'k main_server" where
  "with_acceptor a m = m\<lparr>ms_listening := ac_listening a, ms_idleFd := ac_idleFd a, ms_server := ac_state a, ms_kernel := ac_kernel a\<rparr>"

definition main_callback :: "'k acc_sys \<Rightarrow> nat \<Rightarrow> nat \<Rightarrow> callback \<Rightarrow> 'k main_server \<Rightarrow> 'k main_server outcome" where
  "main_callback asys caller r cb m =
     (if r = ms_channel m \<and> cb = ReadCallback
      then let here = isInLoopThread caller (ms_loop m) in
        bind_out (acceptor_handleRead asys (if ms_hasNewConnection m then Some (newConnection here) else None) here (acceptor_of m))
          (\<lambda>a. ok (with_acceptor a m))
      else ok m)"

fun main_callbacks :: "'k acc_sys \<Rightarrow> nat \<Rightarrow> nat \<Rightarrow> callback list \<Rightarrow> 'k main_server \<Rightarrow> 'k main_server outcome" where
  "main_callbacks asys caller r [] m = ok m"
| "main_callbacks asys caller r (cb # cbs) m = bind_out (main_callback asys caller r cb m) (main_callbacks asys caller r cbs)"

fun handle_active :: "'k acc_sys \<Rightarrow> nat \<Rightarrow> nat list \<Rightarrow> 'k main_server \<Rightarrow> 'k main_server outcome" where
  "handle_active asys caller [] m = ok m"
| "handle_active asys caller (r # rs) m =
     (case ll_chans (ms_loop m) r of
        None \<Rightarrow> Some (Inl Null_deref)
      | Some c \<Rightarrow> bind_out (main_callbacks asys caller r (handleEvent c) m) (handle_active asys caller rs))"

text \<open>A pass of \<open>loop\<close> up to \<open>doPendingFunctors\<close>: \<open>poll\<close> and the handlers of the active channels.\<close>

definition main_turn :: "'k acc_sys \<Rightarrow> nat \<Rightarrow> wait_result \<Rightarrow> 'k main_server \<Rightarrow> 'k main_server outcome" where
  "main_turn asys caller w m =
     (case ll_poller (ms_loop m) of
        None \<Rightarrow> Some (Inl Null_deref)
      | Some ep \<Rightarrow> bind_out (Some (poll w ep (ll_chans (ms_loop m)) [])) (\<lambda>(ep', cs, act).
          handle_active asys caller act (m\<lparr>ms_loop := (ms_loop m)\<lparr>ll_poller := Some ep', ll_chans := cs\<rparr>\<rparr>)))"

section \<open>The main loop of a server\<close>

lemma fresh_channel_inv:
  assumes "reactor_inv r" "re_chans r q = None" "\<And>x c. re_chans r x = Some c \<Longrightarrow> ch_fd c \<noteq> ch_fd d" "ch_status d = INIT"
  shows "reactor_inv (r\<lparr>re_chans := (re_chans r)(q \<mapsto> d)\<rparr>)"
proof -
  have same: "(\<exists>c. ((re_chans r)(q \<mapsto> d)) x = Some c \<and> P c \<and> (ch_status c = LISTEN \<or> ch_status c = NOT_LISTEN))
      \<longleftrightarrow> (\<exists>c. re_chans r x = Some c \<and> P c \<and> (ch_status c = LISTEN \<or> ch_status c = NOT_LISTEN))" for x P
    using assms(2,4) by (cases "x = q") auto
  have "listening ((re_chans r)(q \<mapsto> d)) m \<longleftrightarrow> listening (re_chans r) m" for m
  proof -
    have "(\<exists>c. ((re_chans r)(q \<mapsto> d)) x = Some c \<and> ch_fd c = fd \<and> ch_status c = LISTEN \<and> ch_events c = ev)
        \<longleftrightarrow> (\<exists>c. re_chans r x = Some c \<and> ch_fd c = fd \<and> ch_status c = LISTEN \<and> ch_events c = ev)" for x fd ev
      using assms(2,4) by (cases "x = q") auto
    then show ?thesis by (simp add: listening_def)
  qed
  moreover have "distinct_fds ((re_chans r)(q \<mapsto> d))"
    using assms(1) assms(3) not_sym [OF assms(3)] by (auto simp: reactor_inv_def distinct_fds_def)
  ultimately show ?thesis using assms(1) same [of _ "\<lambda>c. ch_fd c = _"] by (simp add: reactor_inv_def)
qed

text \<open>A loop with its wakeup channel and one more channel on the descriptor \<open>fd\<close>, registered for reading or not.\<close>

definition has_channel :: "nat \<Rightarrow> int \<Rightarrow> bool \<Rightarrow> loop_obj \<Rightarrow> bool" where
  "has_channel q fd on l \<longleftrightarrow> (\<exists>c. ll_chans l q = Some c \<and> ch_fd c = fd \<and> ch_hasRead c
     \<and> (if on then ch_status c = LISTEN \<and> ch_events c = mask_of True False else ch_status c = INIT \<and> ch_events c = kNoneEvent))"

text \<open>After \<open>init\<close> the wakeup channel is the only one.\<close>

lemma init_only_channel:
  assumes "EventLoop_init caller epollfd evtfd p (make_loop tid x) = Inr l"
  shows "dom (ll_chans l) = {p}" "caller = tid" "\<exists>ep. ll_poller l = Some ep \<and> ep_nevents ep = 16"
proof -
  let ?l3 = "(make_loop tid x)\<lparr>ll_poller := Some new_Epoller, ll_wakeupFd := Some evtfd, ll_fds := {evtfd}, ll_wakeup := Some p,
    ll_refs := {Channel_loop p, Held x}, ll_chans := [p \<mapsto> (new_Channel evtfd)\<lparr>ch_hasRead := True\<rparr>]\<rparr>"
  have "channel_do caller EnableReading p ?l3 = Inr l" using assms
    by (simp add: EventLoop_init_def create_Epoller_def createEventfd_def construct_Channel_def drop_Channel_def make_loop_def Let_def split: if_splits)
  then show "dom (ll_chans l) = {p}" "caller = tid" "\<exists>ep. ll_poller l = Some ep \<and> ep_nevents ep = 16"
    by (auto elim!: channel_do_cases simp: make_loop_def chan_do_nevents new_Epoller_def split: if_splits)
qed

lemma construct_keeps:
  assumes "self_held tid evtfd p l" "dom (ll_chans l) = {p}" "q \<noteq> p" "fd \<noteq> evtfd"
  shows "self_held tid evtfd p (set_readCallback q (construct_Channel q fd l)) \<and> has_channel q fd False (set_readCallback q (construct_Channel q fd l))"
proof -
  let ?d = "(new_Channel fd)\<lparr>ch_hasRead := True\<rparr>" and ?l = "set_readCallback q (construct_Channel q fd l)"
  note h = assms(1) [unfolded self_held_def]
  obtain c where c: "ll_chans l p = Some c" "ch_fd c = evtfd" using h by blast
  have "reactor_of ?l = (reactor_of l)\<lparr>re_chans := (re_chans (reactor_of l))(q \<mapsto> ?d)\<rparr>"
    by (simp add: reactor_of_def set_readCallback_def construct_Channel_def)
  moreover have "ch_fd x \<noteq> fd" if "ll_chans l y = Some x" for x y
    using that assms(2,4) c by (metis domI singletonD option.inject)
  moreover have "ll_chans l q = None" using assms(2,3) by auto
  ultimately have "reactor_inv (reactor_of ?l)"
    using fresh_channel_inv [of "reactor_of l" q ?d] h by (simp add: reactor_of_def new_Channel_def)
  with h assms(3) show ?thesis
    by (auto simp: self_held_def has_channel_def set_readCallback_def construct_Channel_def new_Channel_def)
qed

lemma enable_keeps:
  assumes "self_held tid evtfd p l" "has_channel q fd False l" "q \<noteq> p" "channel_do caller EnableReading q l = Inr l'"
  shows "self_held tid evtfd p l' \<and> has_channel q fd True l'"
proof -
  have "owner_step l l'" using assms(1,3,4) by (intro owner_step.channel_op [of l q caller]) (auto simp: self_held_def)
  moreover have "has_channel q fd True l'"
    using assms(2,4) by (auto simp: has_channel_def chan_defs mask_of_def elim!: channel_do_cases)
  ultimately show ?thesis using self_held_step [OF assms(1)] by blast
qed

text \<open>Two channels that listen for reading are both in the kernel's interest list.\<close>

lemma channels_registered:
  assumes "reactor_inv (reactor_of l)" "ll_chans l p = Some c" "ll_chans l q = Some d" "ch_status c = LISTEN" "ch_status d = LISTEN"
  shows "\<exists>m. ctl_replay (ep_calls (the (ll_poller l))) Map.empty = Some m
    \<and> m (ch_fd c) = Some (ch_events c, p) \<and> m (ch_fd d) = Some (ch_events d, q)"
proof -
  obtain m where m: "ctl_replay (ep_calls (the (ll_poller l))) Map.empty = Some m" "listening (ll_chans l) m" "distinct_fds (ll_chans l)"
    using assms(1) by (auto simp: reactor_inv_def reactor_of_def)
  with listening_lookup [OF m(2,3)] assms show ?thesis by auto
qed

section \<open>A server that has started\<close>

text \<open>What is known when \<open>start\<close> has come to the event loop: everything below was called in the thread of the main loop.\<close>

lemma run_httpServer_cases:
  assumes "run_httpServer sys caller starter epollfd evtfd p q addr garbage k = Inr m"
  obtains l1 fd idleFd where "EventLoop_init caller epollfd evtfd p (make_loop caller 0) = Inr l1"
    "start_listening sys addr k = Inr (fd, idleFd, ms_kernel m)"
    "channel_do caller EnableReading q (set_readCallback q (construct_Channel q fd l1)) = Inr (ms_loop m)"
    "server_start True False (new_TcpServer (fst garbage) (fst (snd garbage)) (snd (snd garbage)) 4) = Inr (ms_server m)"
    "starter = caller" "ms_listening m" "ms_acceptFd m = fd" "ms_idleFd m = idleFd" "ms_channel m = q"
    "ms_hasNewConnection m" "ms_hasMessage m"
proof -
  obtain g1 g2 g3 where g: "garbage = (g1, g2, g3)" by (cases garbage)
  obtain m0 where m0: "construct_httpServer sys caller epollfd evtfd p q addr garbage k = Inr m0" "start_httpServer sys starter m0 = Inr m"
    using assms by (auto simp: run_httpServer_def)
  obtain l1 fd idleFd k1 where c: "EventLoop_init caller epollfd evtfd p (make_loop caller 0) = Inr l1"
    "open_acceptor sys addr k = Inr (fd, idleFd, k1)" "m0 = \<lparr>ms_loop = set_readCallback q (construct_Channel q fd l1), ms_channel = q,
      ms_acceptFd = fd, ms_idleFd = idleFd, ms_listening = False, ms_pending = False, ms_hasNewConnection = True, ms_hasMessage = False,
      ms_server = new_TcpServer g1 g2 g3 4, ms_kernel = k1\<rparr>"
    using m0(1) by (auto simp: construct_httpServer_def construct_TcpServer_def construct_Acceptor_def g)
  have tid: "ll_tid (set_readCallback q (construct_Channel q fd l1)) = caller"
    using self_held_init [OF c(1)] by (simp add: self_held_def set_readCallback_def construct_Channel_def)
  have starter: "starter = caller" using m0(2) tid
    by (auto simp: start_httpServer_def start_TcpServer_def server_start_def pool_start_def assertInLoopThread_def c(3) isInLoopThread_def Let_def
      split: if_splits)
  with m0(2) tid c show thesis
    by (intro that) (auto simp: start_httpServer_def start_TcpServer_def listen_Acceptor_def start_listening_def isInLoopThread_def Let_def g)
qed


lemma idle_least: "least [0, 0, 0, 0] = 0"
  by code_simp

lemma server_up:
  assumes "sock_man socks sys" "\<And>k'. fst (so_socket sys k') \<noteq> evtfd" "p \<noteq> q"
    "run_httpServer sys caller starter epollfd evtfd p q addr garbage k = Inr m"
  shows "starter = caller" "ms_listening m" "ms_hasNewConnection m" "ms_hasMessage m" "ms_channel m = q"
    "self_held caller evtfd p (ms_loop m)" "has_channel q (ms_acceptFd m) True (ms_loop m)"
    "\<exists>ep. ll_poller (ms_loop m) = Some ep \<and> ep_nevents ep = 16"
    "start_listening sys addr k = Inr (ms_acceptFd m, ms_idleFd m, ms_kernel m)"
    "settled (ms_server m)" "loads (ms_server m) = [0, 0, 0, 0]" "sv_conns (ms_server m) = []"
proof -
  obtain l1 fd idleFd where up: "EventLoop_init caller epollfd evtfd p (make_loop caller 0) = Inr l1"
    "start_listening sys addr k = Inr (fd, idleFd, ms_kernel m)"
    "channel_do caller EnableReading q (set_readCallback q (construct_Channel q fd l1)) = Inr (ms_loop m)"
    "server_start True False (new_TcpServer (fst garbage) (fst (snd garbage)) (snd (snd garbage)) 4) = Inr (ms_server m)"
    and rest: "starter = caller" "ms_listening m" "ms_acceptFd m = fd" "ms_idleFd m = idleFd" "ms_channel m = q"
      "ms_hasNewConnection m" "ms_hasMessage m"
    using assms(4) by (rule run_httpServer_cases)
  have held: "self_held caller evtfd p l1" "dom (ll_chans l1) = {p}" "\<exists>ep. ll_poller l1 = Some ep \<and> ep_nevents ep = 16"
    using self_held_init [OF up(1)] init_only_channel [OF up(1)] by blast+
  have "fd \<noteq> evtfd" using up(2) assms(2) [of k]
    by (auto simp: start_listening_def open_acceptor_def createNonblockingOrDie_def Let_def split: prod.splits)
  with construct_keeps [OF held(1,2)] assms(3) have off: "self_held caller evtfd p (set_readCallback q (construct_Channel q fd l1))"
    "has_channel q fd False (set_readCallback q (construct_Channel q fd l1))" by auto
  show "self_held caller evtfd p (ms_loop m)" "has_channel q (ms_acceptFd m) True (ms_loop m)"
    using enable_keeps [OF off _ up(3)] assms(3) rest(3) by auto
  show "\<exists>ep. ll_poller (ms_loop m) = Some ep \<and> ep_nevents ep = 16"
    using up(3) held(3) by (auto elim!: channel_do_cases simp: set_readCallback_def construct_Channel_def chan_do_nevents)
  show "starter = caller" "ms_listening m" "ms_hasNewConnection m" "ms_hasMessage m" "ms_channel m = q"
    "start_listening sys addr k = Inr (ms_acceptFd m, ms_idleFd m, ms_kernel m)" using up(2) rest by simp_all
  show "settled (ms_server m)" "loads (ms_server m) = [0, 0, 0, 0]" "sv_conns (ms_server m) = []"
    using server_start_result [of 4 "fst garbage" "fst (snd garbage)" "snd (snd garbage)"] up(4)
    by (auto split: if_splits simp: numeral_eq_Suc)
qed

text \<open>C20: bringing a server up.  When \<open>httpServer::httpServer\<close> and \<open>start\<close> have come to \<open>mainLoop_->loop()\<close>, both ran in the same thread;
  the kernel's interest list of the main loop, replayed from the \<open>epoll_ctl\<close> calls made, has the eventfd with the wakeup channel and the
  listening socket with \<open>acceptChannel_\<close>, both for reading; the socket is new, bound to the address, reusable and listening; the HTTP callbacks
  are set; and the four sub-loops are empty, so that the first connection goes to loop 0.\<close>

theorem server_ready:
  assumes "sock_man socks sys" "\<And>k'. fst (so_socket sys k') \<noteq> evtfd" "p \<noteq> q"
    "run_httpServer sys caller starter epollfd evtfd p q addr garbage k = Inr m"
  shows "starter = caller \<and> ms_listening m \<and> 0 \<le> ms_idleFd m \<and> ms_hasNewConnection m \<and> ms_hasMessage m
    \<and> self_held caller evtfd p (ms_loop m)
    \<and> (\<exists>reg. ctl_replay (ep_calls (the (ll_poller (ms_loop m)))) Map.empty = Some reg
        \<and> reg evtfd = Some (mask_of True False, p) \<and> reg (ms_acceptFd m) = Some (mask_of True False, q))
    \<and> (\<exists>x. socks (ms_kernel m) = (socks k)(ms_acceptFd m \<mapsto> x) \<and> socks k (ms_acceptFd m) = None \<and> ks_addr x = Some addr
        \<and> ks_listening x \<and> ks_opts x SO_REUSEADDR \<and> ks_opts x SO_REUSEPORT)
    \<and> settled (ms_server m) \<and> sv_conns (ms_server m) = [] \<and> loads (ms_server m) = [0, 0, 0, 0] \<and> getNextLoop True (sv_pool (ms_server m)) = Inr 0"
proof -
  note up = server_up [OF assms]
  obtain c d where "ll_chans (ms_loop m) p = Some c" "ch_fd c = evtfd" "ch_status c = LISTEN" "ch_events c = mask_of True False"
    "ll_chans (ms_loop m) q = Some d" "ch_fd d = ms_acceptFd m" "ch_status d = LISTEN" "ch_events d = mask_of True False"
    using up(6,7) by (auto simp: self_held_def has_channel_def)
  with up(6) have reg: "\<exists>reg. ctl_replay (ep_calls (the (ll_poller (ms_loop m)))) Map.empty = Some reg
      \<and> reg evtfd = Some (mask_of True False, p) \<and> reg (ms_acceptFd m) = Some (mask_of True False, q)"
    using channels_registered [of "ms_loop m" p c q d] by (simp add: self_held_def)
  have "getNextLoop True (sv_pool (ms_server m)) = Inr 0"
    using getNextLoop_least [of "sv_pool (ms_server m)"] up(10,11) idle_least by (simp add: settled_def serving_def loads_def)
  with acceptor_socket_ready [OF assms(1) up(9)] reg up show ?thesis by (intro conjI) auto
qed

lemma map_kernel_starts:
  "\<exists>m. run_httpServer map_kernel 0 0 5 6 0 1 zero_addr (False, False, 0) Map.empty = Inr m"
  by (simp add: run_httpServer_def construct_httpServer_def construct_TcpServer_def construct_Acceptor_def EventLoop_init_def
      create_Epoller_def createEventfd_def construct_Channel_def drop_Channel_def make_loop_def set_readCallback_def channel_do_def
      loop_updateChannel_def with_poller_def put_channel_def isInLoopThread_def assertInLoopThread_def open_acceptor_def
      createNonblockingOrDie_def bindOrDie_def listenOrDie_def setReuseAddr_def setReusePort_def setsockopt_bool_def map_kernel_def live_def
      start_httpServer_def start_TcpServer_def server_start_def pool_start_def new_TcpServer_def new_EventLoopThreadPool_def
      pool_setThreadNum_def listen_Acceptor_def Let_def)

theorem server_ready_witness:
  "\<exists>m. run_httpServer map_kernel 0 0 5 6 0 1 zero_addr (False, False, 0) Map.empty = Inr m \<and> ms_listening m
    \<and> getNextLoop True (sv_pool (ms_server m)) = Inr 0
    \<and> (\<exists>reg. ctl_replay (ep_calls (the (ll_poller (ms_loop m)))) Map.empty = Some reg \<and> reg 6 = Some (mask_of True False, 0))"
proof -
  obtain m where m: "run_httpServer map_kernel 0 0 5 6 0 1 zero_addr (False, False, 0) Map.empty = Inr m"
    using map_kernel_starts by blast
  have "fst (so_socket map_kernel k) \<noteq> 6" for k by (simp add: map_kernel_def)
  from server_ready [OF map_kernel_man this _ m] m show ?thesis by auto
qed

text \<open>C21: the first connections.  Once the server is up, a turn of its main loop in which the kernel reports the listening socket
  readable hands exactly the connections the kernel then serves to the server, in order, and, as no sub-loop has run yet, all of
  them to loop 0; the server keeps listening.\<close>

theorem server_accepts:
  assumes "sock_man socks sys" "\<And>k'. fst (so_socket sys k') \<noteq> evtfd" "p \<noteq> q"
    "run_httpServer sys caller starter epollfd evtfd p q addr garbage k = Inr m"
    "serves asys (ms_idleFd m) (ms_kernel m) es"
  shows "\<exists>m'. main_turn asys caller (Ready [(EPOLLIN, q)]) m = ok m'
    \<and> sv_conns (ms_server m') = map (\<lambda>(fd, a). (fd, a, 0)) (conns_of es) \<and> loads (ms_server m') = [0, 0, 0, 0] \<and> ms_listening m'"
proof -
  note up = server_up [OF assms(1-4)]
  obtain ep where ep: "ll_poller (ms_loop m) = Some ep" "ep_nevents ep = 16" using up(8) by blast
  obtain c where c: "ll_chans (ms_loop m) q = Some c" "ch_hasRead c" using up(7) by (auto simp: has_channel_def)
  obtain ep' cs where poll: "poll (Ready [(EPOLLIN, q)]) ep (ll_chans (ms_loop m)) [] = Inr (ep', cs, [q])" "cs q = Some (c\<lparr>ch_revents := EPOLLIN\<rparr>)"
    using poll_dispatches [of "[(EPOLLIN, q)]" ep "ll_chans (ms_loop m)" "[]"] ep(2) c(1) by auto
  have ev: "handleEvent (c\<lparr>ch_revents := EPOLLIN\<rparr>) = [ReadCallback]" using c(2) by (simp add: handleEvent_def mask_defs)
  let ?m = "m\<lparr>ms_loop := (ms_loop m)\<lparr>ll_poller := Some ep', ll_chans := cs\<rparr>\<rparr>"
  have here: "isInLoopThread caller (ms_loop ?m)" using up(6) by (simp add: isInLoopThread_def self_held_def)
  have "serving (ms_server m)" using up(10) by (simp add: settled_def)
  with srv.handleRead_accepts [of asys "acceptor_of ?m" es] assms(5) up(2)
  obtain a where a: "acceptor_handleRead asys (Some (newConnection True)) True (acceptor_of ?m) = ok a"
    "burst (ms_server m) (conns_of es) (ac_state a)" "ac_listening a" by (auto simp: acceptor_of_def)
  have "main_turn asys caller (Ready [(EPOLLIN, q)]) m = ok (with_acceptor a ?m)"
    using here ep(1) poll ev up(3,5) a(1) by (simp add: main_turn_def main_callback_def)
  with a(2,3) up(11,12) idle_least show ?thesis by (simp add: with_acceptor_def burst_def)
qed

text \<open>A kernel that has connections to give and sockets.\<close>

definition blank_sock :: ksock where
  "blank_sock = \<lparr>ks_opts = (\<lambda>_. False), ks_addr = None, ks_listening = False, ks_flags = (\<lambda>_. 0)\<rparr>"

definition two_clients :: "(int \<rightharpoonup> ksock) acc_sys" where
  "two_clients = \<lparr>as_accept = (\<lambda>k. if k 7 = None then (Accepted 7 zero_addr, k(7 \<mapsto> blank_sock))
       else if k 8 = None then (Accepted 8 zero_addr, k(8 \<mapsto> blank_sock)) else (Acc_failed EAGAIN, k)), as_close = (\<lambda>k fd. k), as_open_null = (\<lambda>k. (5, k))\<rparr>"

theorem server_accepts_witness:
  "\<exists>m m'. run_httpServer map_kernel 0 0 5 6 0 1 zero_addr (False, False, 0) Map.empty = Inr m
    \<and> main_turn two_clients 0 (Ready [(EPOLLIN, 1)]) m = ok m' \<and> sv_conns (ms_server m') = [(7, zero_addr, 0), (8, zero_addr, 0)]"
proof -
  obtain m where m: "run_httpServer map_kernel 0 0 5 6 0 1 zero_addr (False, False, 0) Map.empty = Inr m"
    using map_kernel_starts by blast
  have e: "fst (so_socket map_kernel k) \<noteq> 6" for k by (simp add: map_kernel_def)
  have "start_listening map_kernel zero_addr Map.empty = Inr (ms_acceptFd m, ms_idleFd m, ms_kernel m)"
    by (rule server_up(9) [OF map_kernel_man e _ m]) simp
  then have "ms_kernel m 7 = None" "ms_kernel m 8 = None"
    by (auto simp: start_listening_def open_acceptor_def createNonblockingOrDie_def bindOrDie_def listenOrDie_def setReuseAddr_def
        setReusePort_def setsockopt_bool_def map_kernel_def live_def split: if_splits dest!: sym [of _ "ms_kernel m"])
  then have "serves two_clients (ms_idleFd m) (ms_kernel m) [Ev_conn 7 zero_addr, Ev_conn 8 zero_addr]"
    by (simp add: two_clients_def)
  from server_accepts [OF map_kernel_man e _ m this] m show ?thesis by auto
qed

end
