(* ===== verification/Co_Frames.thy ===== *)
theory Co_Frames
  imports Co_Echo
begin

text \<open>
  The life of coroutine frames: the promise types of \<open>src/src/net/coro/co_future_attr.hpp\<close> and
  \<open>co_promise_attr.hpp\<close>, which say where a coroutine suspends, and the handles \<open>co_epoll\<close> keeps in the kernel.  A handle is
  the address of a frame; it may be resumed only while the coroutine is suspended and not at its end.
\<close>

unbundle bit_operations_syntax

section \<open>Promise types\<close>

text \<open>\<open>promise_suspend_attr_return_void<init, finish>\<close>: whether the two are \<open>suspend_always\<close> (otherwise \<open>suspend_never\<close>).\<close>

record promise_attr =
  pa_initial :: bool
  pa_final :: bool

definition read_promise :: promise_attr where
  "read_promise = \<lparr>pa_initial = True, pa_final = True\<rparr>"

definition write_promise :: promise_attr where
  "write_promise = \<lparr>pa_initial = True, pa_final = True\<rparr>"

definition null_promise :: promise_attr where
  "null_promise = \<lparr>pa_initial = False, pa_final = False\<rparr>"

datatype frame = Initial_suspended | Awaiting | Running | Final_suspended | Destroyed

text \<open>A call makes the frame; \<open>co_return\<close> destroys it unless the final suspend point holds it; \<open>yield_value\<close> stores and suspends.
  After an exception, which \<open>unhandled_exception\<close> throws again, and after a fault of the body a run is not followed further.\<close>

definition initial_suspend :: "promise_attr \<Rightarrow> frame" where
  "initial_suspend a = (if pa_initial a then Initial_suspended else Running)"

definition final_suspend :: "promise_attr \<Rightarrow> frame" where
  "final_suspend a = (if pa_final a then Final_suspended else Destroyed)"

definition yield_value :: "'v \<Rightarrow> 'v option \<times> frame \<Rightarrow> 'v option \<times> frame" where
  "yield_value v s = (Some v, Awaiting)"

definition resumable :: "frame option \<Rightarrow> bool" where
  "resumable f \<longleftrightarrow> f = Some Initial_suspended \<or> f = Some Awaiting"

section \<open>Coroutines and the loop that resumes them\<close>

datatype misuse = Bad_handle | Endless | Body fault

record 'k co_world =
  cw_kernel :: 'k
  cw_frames :: "nat \<rightharpoonup> frame"
  cw_echo :: "nat \<Rightarrow> 'k echo"
  cw_failed :: "misuse option"

definition co_fail :: "misuse \<Rightarrow> 'k co_world \<Rightarrow> 'k co_world" where
  "co_fail m w = w\<lparr>cw_failed := Some m\<rparr>"

text \<open>The coroutine at \<open>p\<close> has run up to its next suspension, or to its end.\<close>

definition settle :: "nat \<Rightarrow> 'k echo outcome \<Rightarrow> 'k co_world \<Rightarrow> 'k co_world" where
  "settle p r w =
     (case r of
        None \<Rightarrow> co_fail Endless w
      | Some (Inl e) \<Rightarrow> co_fail (Body e) w
      | Some (Inr c) \<Rightarrow> w\<lparr>cw_kernel := ec_kernel c, cw_echo := (cw_echo w)(p := c),
          cw_frames := (cw_frames w)(p \<mapsto> if ec_pc c = Finished then final_suspend null_promise else Awaiting)\<rparr>)"

text \<open>\<open>co.resume()\<close> for a handle.\<close>

definition co_resume :: "'k echo_sys \<Rightarrow> int \<Rightarrow> nat \<Rightarrow> 'k co_world \<Rightarrow> bool \<times> 'k co_world" where
  "co_resume sys epfd p w =
     (if cw_failed w \<noteq> None then (False, w)
      else if \<not> resumable (cw_frames w p) then (False, co_fail Bad_handle w)
      else (False, settle p (echo_resume sys epfd p ((cw_echo w p)\<lparr>ec_kernel := cw_kernel w\<rparr>)) w))"

text \<open>The call \<open>tcp_echo_service(io_service, fd)\<close> with a descriptor that does not block: the coroutine starts at once and runs to its
  first \<open>co_await\<close>.  The frame is at an address where none is alive.\<close>

definition co_call :: "'k echo_sys \<Rightarrow> int \<Rightarrow> nat \<Rightarrow> int \<Rightarrow> 'k co_world \<Rightarrow> 'k co_world" where
  "co_call sys epfd p fd w =
     settle p (co_suspend (xs_ctl sys) epfd p (new_echo fd True (cw_kernel w))) (w\<lparr>cw_frames := (cw_frames w)(p \<mapsto> initial_suspend null_promise)\<rparr>)"

text \<open>\<open>co_epoll::run\<close> with the coroutines as what it resumes: the kernel of its \<open>epoll_wait\<close> is the one the coroutines use.  Between
  two passes of the loop coroutines may be called.\<close>

definition co_wait :: "'k epoll_wait \<Rightarrow> 'k co_world epoll_wait" where
  "co_wait epoll_wait w n = (case epoll_wait (cw_kernel w) n of (r, k) \<Rightarrow> (r, w\<lparr>cw_kernel := k\<rparr>))"

definition co_pass ::
    "('k co_world \<Rightarrow> bool) \<Rightarrow> 'k echo_sys \<Rightarrow> 'k epoll_wait \<Rightarrow> int \<Rightarrow> 'k co_world co_epoll
      \<Rightarrow> ('k co_world co_epoll, 'k co_world co_epoll) flow result option" where
  "co_pass stopped sys epoll_wait epfd = run_pass stopped (co_wait epoll_wait) (co_resume sys epfd)"

inductive co_step :: "('k co_world \<Rightarrow> bool) \<Rightarrow> 'k echo_sys \<Rightarrow> 'k epoll_wait \<Rightarrow> int \<Rightarrow> 'k co_world co_epoll \<Rightarrow> 'k co_world co_epoll \<Rightarrow> bool"
  for stopped sys epoll_wait epfd where
  call: "cw_failed (ce_kernel p) = None \<Longrightarrow> cw_frames (ce_kernel p) q = None \<or> cw_frames (ce_kernel p) q = Some Destroyed
    \<Longrightarrow> co_step stopped sys epoll_wait epfd p (p\<lparr>ce_kernel := co_call sys epfd q fd (ce_kernel p)\<rparr>)"
| pass: "cw_failed (ce_kernel p) = None \<Longrightarrow> co_pass stopped sys epoll_wait epfd p = ok (Continue p')
    \<Longrightarrow> co_step stopped sys epoll_wait epfd p p'"

section \<open>What the kernel promises\<close>

text \<open>A one-shot registration that has reported an event keeps only its private bits and reports nothing until it is modified
  (epoll_ctl(2)).  \<open>epoll_wait\<close> on a valid descriptor fails only with EINTR, and with EINVAL when there is no room for an event.\<close>

definition private_bits :: events where
  "private_bits = EPOLLONESHOT OR EPOLLET"

definition is_armed :: "events \<Rightarrow> bool" where
  "is_armed ev \<longleftrightarrow> ev AND NOT private_bits \<noteq> 0"

definition reports :: "events \<Rightarrow> events \<Rightarrow> bool" where
  "reports rv ev \<longleftrightarrow> rv AND NOT (ev OR EPOLLERR OR EPOLLHUP) = 0"

definition disarm :: "events \<times> nat \<Rightarrow> events \<times> nat" where
  "disarm x = (if fst x AND EPOLLONESHOT = 0 then x else (fst x AND private_bits, snd x))"

definition wait_man :: "('k \<Rightarrow> interest) \<Rightarrow> 'k epoll_wait \<Rightarrow> bool" where
  "wait_man il epoll_wait \<longleftrightarrow>
     (\<forall>k n rs k'. epoll_wait k n = (Ready rs, k') \<longrightarrow> 0 < n \<and> length rs \<le> n \<and>
       (\<exists>fds. distinct fds \<and> length fds = length rs
          \<and> (\<forall>i < length rs. \<exists>ev. il k (fds ! i) = Some (ev, snd (rs ! i)) \<and> is_armed ev \<and> reports (fst (rs ! i)) ev)
          \<and> il k' = (\<lambda>fd. if fd \<in> set fds then map_option disarm (il k fd) else il k fd)))
     \<and> (\<forall>k n e k'. epoll_wait k n = (Wait_failed e, k') \<longrightarrow> il k' = il k \<and> e = (if n = 0 then EINVAL else EINTR))"

definition keeps_interest :: "('k \<Rightarrow> interest) \<Rightarrow> 'k echo_sys \<Rightarrow> bool" where
  "keeps_interest il sys \<longleftrightarrow> (\<forall>k n. il (snd (xs_recv sys k n)) = il k) \<and> (\<forall>k bs. il (snd (xs_send sys k bs)) = il k)"

section \<open>One coroutine\<close>

definition wanted :: "'k echo \<Rightarrow> events" where
  "wanted c = (if ec_pc c = RecvData then recv_events else send_events)"

lemma co_suspend_registers:
  assumes "epoll_man il (xs_ctl sys)" "co_suspend (xs_ctl sys) epfd p c = ok c1" "ec_nonblock c" "ec_pc c \<noteq> Finished"
  shows "ec_fd c1 = ec_fd c \<and> ec_nonblock c1 \<and> ec_pc c1 = ec_pc c \<and> il (ec_kernel c1) = (il (ec_kernel c))(ec_fd c \<mapsto> (wanted c, p))"
proof -
  obtain k where k: "ew_try_add (xs_ctl sys) epfd (ec_fd c) (wanted c) p (ec_kernel c) = ok k" "c1 = c\<lparr>ec_kernel := k\<rparr>"
    using assms(2-4) by (auto simp: co_suspend_def wanted_def split: if_splits)
  then have "ec_fd c \<noteq> epfd" by (auto simp: ew_try_add_def ew_ctl_def)
  from try_add_registers [OF assms(1) this, of "wanted c" p "ec_kernel c"] k assms(3) show ?thesis by auto
qed

text \<open>What a coroutine does between two suspensions leaves its descriptor alone.\<close>

definition same_io :: "('k \<Rightarrow> interest) \<Rightarrow> 'k echo \<Rightarrow> 'k echo \<Rightarrow> bool" where
  "same_io il c c' \<longleftrightarrow> ec_fd c' = ec_fd c \<and> ec_nonblock c' = ec_nonblock c \<and> il (ec_kernel c') = il (ec_kernel c)"

lemma resume_io:
  assumes "keeps_interest il sys"
  shows "same_io il c (snd (recv_resume (xs_recv sys) c))" "same_io il c (snd (send_resume (xs_send sys) c))"
proof -
  note h = assms [unfolded keeps_interest_def]
  show "same_io il c (snd (recv_resume (xs_recv sys) c))"
    using h [THEN conjunct1, THEN spec, of "ec_kernel c", THEN spec, of "ec_len c"]
    by (auto simp: recv_resume_def same_io_def split: prod.splits sysret.splits)
  show "same_io il c (snd (send_resume (xs_send sys) c))"
    using h [THEN conjunct2, THEN spec, of "ec_kernel c", THEN spec, of "buf_bytes c"]
    by (auto simp: send_resume_def same_io_def split: prod.splits wret.splits)
qed

lemma after_io:
  "after_recv x = Inr c' \<Longrightarrow> same_io il (snd x) c'" "after_send x = Inr c' \<Longrightarrow> same_io il (snd x) c'"
  by (auto simp: after_recv_def after_send_def same_io_def set_buf_def Let_def split: prod.splits if_splits)

lemma same_io_trans: "same_io il a b \<Longrightarrow> same_io il b c \<Longrightarrow> same_io il a c"
  by (simp add: same_io_def)

lemma echo_resume_registers:
  assumes "epoll_man il (xs_ctl sys)" "keeps_interest il sys" "echo_resume sys epfd p c = ok c1" "ec_nonblock c"
  shows "ec_fd c1 = ec_fd c \<and> ec_nonblock c1
    \<and> il (ec_kernel c1) = (if ec_pc c1 = Finished then il (ec_kernel c) else (il (ec_kernel c))(ec_fd c \<mapsto> (wanted c1, p)))"
proof -
  obtain x c0 where x: "same_io il c (snd x)" "after_recv x = Inr c0 \<or> after_send x = Inr c0" "co_suspend (xs_ctl sys) epfd p c0 = ok c1"
  proof (cases "ec_pc c")
    case RecvData
    with that [OF resume_io(1) [OF assms(2)]] assms(3) show thesis by (auto simp: echo_resume_def bind_out_ok_iff)
  next
    case SendData
    with that [OF resume_io(2) [OF assms(2)]] assms(3) show thesis by (auto simp: echo_resume_def bind_out_ok_iff)
  qed (use assms(3) in \<open>simp add: echo_resume_def\<close>)
  with same_io_trans [OF x(1)] after_io [of x c0 il] have io: "same_io il c c0" by blast
  show ?thesis
  proof (cases "ec_pc c0 = Finished")
    case True
    with x(3) io assms(4) show ?thesis by (auto simp: co_suspend_def same_io_def)
  next
    case False
    have "ec_nonblock c0" using io assms(4) by (simp add: same_io_def)
    from co_suspend_registers [OF assms(1) x(3) this False] io False show ?thesis by (simp add: same_io_def wanted_def)
  qed
qed

section \<open>Handles stay valid\<close>

text \<open>The coroutine at \<open>p\<close> waits; it is in the interest list with what it waits for, or an event for it is still to be handled, not
  both.\<close>

definition waits :: "'k co_world \<Rightarrow> nat \<Rightarrow> bool" where
  "waits w p \<longleftrightarrow> cw_frames w p = Some Awaiting \<and> ec_nonblock (cw_echo w p) \<and> ec_pc (cw_echo w p) \<noteq> Finished"

definition has_armed :: "interest \<Rightarrow> nat \<Rightarrow> bool" where
  "has_armed m p \<longleftrightarrow> (\<exists>fd ev. m fd = Some (ev, p) \<and> is_armed ev)"

definition co_ok :: "('k \<Rightarrow> interest) \<Rightarrow> (events \<times> nat) list \<Rightarrow> 'k co_world \<Rightarrow> bool" where
  "co_ok il batch w \<longleftrightarrow> distinct (map snd batch)
     \<and> (\<forall>(rv, p) \<in> set batch. waits w p \<and> reports rv (wanted (cw_echo w p)) \<and> \<not> has_armed (il (cw_kernel w)) p)
     \<and> (\<forall>fd ev p. il (cw_kernel w) fd = Some (ev, p) \<and> is_armed ev \<longrightarrow>
          waits w p \<and> fd = ec_fd (cw_echo w p) \<and> ev = wanted (cw_echo w p))"

definition co_inv :: "('k \<Rightarrow> interest) \<Rightarrow> (events \<times> nat) list \<Rightarrow> 'k co_world \<Rightarrow> bool" where
  "co_inv il batch w \<longleftrightarrow> cw_failed w \<noteq> Some Bad_handle \<and> (cw_failed w = None \<longrightarrow> co_ok il batch w)"

lemma reports_one:
  assumes "reports rv (wanted c)"
  shows "rv AND EPOLLIN = 0 \<or> rv AND EPOLLOUT = 0"
proof -
  let ?m = "NOT (wanted c OR EPOLLERR OR EPOLLHUP)"
  have "?m AND EPOLLIN = EPOLLIN \<or> ?m AND EPOLLOUT = EPOLLOUT"
    by (simp add: wanted_def recv_events_def send_events_def mask_defs EPOLLONESHOT_def)
  moreover have "rv AND (?m AND x) = 0" for x using assms by (simp add: reports_def flip: and.assoc)
  ultimately show ?thesis by metis
qed

lemma handle_ready_once:
  assumes "reports rv (wanted c)"
  shows "handle_ready (co_resume sys epfd) (rv, p) w = w \<or> handle_ready (co_resume sys epfd) (rv, p) w = snd (co_resume sys epfd p w)"
  using reports_one [OF assms] by (auto simp: handle_ready_def Let_def split: prod.splits)

text \<open>A coroutine that nobody knows of runs to its next suspension.\<close>

lemma settle_ok:
  assumes "co_ok il b w" "\<not> has_armed (il (cw_kernel w)) p" "p \<notin> snd ` set b"
    "ec_nonblock c" "il (ec_kernel c) = (if ec_pc c = Finished then il (cw_kernel w) else (il (cw_kernel w))(ec_fd c \<mapsto> (wanted c, p)))"
  shows "co_ok il b (settle p (ok c) w)"
proof -
  let ?w = "settle p (ok c) w"
  have other: "waits ?w q = waits w q" "cw_echo ?w q = cw_echo w q" if "q \<noteq> p" for q using that by (auto simp: waits_def settle_def)
  have old: "il (ec_kernel c) fd = Some (ev, q) \<Longrightarrow> q \<noteq> p \<Longrightarrow> il (cw_kernel w) fd = Some (ev, q)" for fd ev q
    using assms(5) by (auto split: if_splits)
  have "waits ?w p" if "ec_pc c \<noteq> Finished" using assms(4) that by (simp add: waits_def settle_def)
  moreover have "ec_pc c \<noteq> Finished \<and> fd = ec_fd c \<and> ev = wanted c" if "il (ec_kernel c) fd = Some (ev, p)" "is_armed ev" for fd ev
    using that assms(2,5) by (auto simp: has_armed_def split: if_splits)
  ultimately have "waits ?w q \<and> fd = ec_fd (cw_echo ?w q) \<and> ev = wanted (cw_echo ?w q)"
    if "il (cw_kernel ?w) fd = Some (ev, q)" "is_armed ev" for fd ev q
    using that old [of fd ev q] other [of q] assms(1) by (cases "q = p") (auto simp: co_ok_def settle_def)
  moreover have "waits ?w q \<and> reports rv (wanted (cw_echo ?w q)) \<and> \<not> has_armed (il (cw_kernel ?w)) q" if "(rv, q) \<in> set b" for rv q
  proof -
    have "q \<noteq> p" using that assms(3) by force
    with that assms(1) other [of q] old show ?thesis by (fastforce simp: co_ok_def has_armed_def settle_def)
  qed
  moreover have "distinct (map snd b)" using assms(1) by (simp add: co_ok_def)
  ultimately show ?thesis unfolding co_ok_def by auto
qed

lemma settle_inv:
  assumes "co_ok il b w" "cw_failed w = None" "\<not> has_armed (il (cw_kernel w)) p" "p \<notin> snd ` set b"
    "\<And>c. r = ok c \<Longrightarrow> ec_nonblock c
      \<and> il (ec_kernel c) = (if ec_pc c = Finished then il (cw_kernel w) else (il (cw_kernel w))(ec_fd c \<mapsto> (wanted c, p)))"
  shows "co_inv il b (settle p r w)"
proof (cases r)
  case None
  then show ?thesis by (simp add: settle_def co_fail_def co_inv_def)
next
  case (Some x)
  with settle_ok [OF assms(1,3,4)] assms(5) show ?thesis
    by (cases x) (auto simp: co_inv_def settle_def co_fail_def assms(2))
qed

lemma co_call_inv:
  assumes "epoll_man il (xs_ctl sys)" "co_ok il [] w" "cw_failed w = None" "cw_frames w p = None \<or> cw_frames w p = Some Destroyed"
  shows "co_inv il [] (co_call sys epfd p fd w)"
proof -
  have p: "\<not> waits w p" using assms(4) by (auto simp: waits_def)
  then have free: "\<not> has_armed (il (cw_kernel w)) p" using assms(2) by (auto simp: co_ok_def has_armed_def)
  let ?w = "w\<lparr>cw_frames := (cw_frames w)(p \<mapsto> initial_suspend null_promise)\<rparr>"
  have "waits ?w q = (q \<noteq> p \<and> waits w q)" for q by (auto simp: waits_def initial_suspend_def null_promise_def)
  then have "co_ok il [] ?w" using assms(2) p by (fastforce simp: co_ok_def)
  moreover have "ec_nonblock c \<and> il (ec_kernel c) = (if ec_pc c = Finished then il (cw_kernel w) else (il (cw_kernel w))(ec_fd c \<mapsto> (wanted c, p)))"
    if "co_suspend (xs_ctl sys) epfd p (new_echo fd True (cw_kernel w)) = ok c" for c
    using co_suspend_registers [OF assms(1) that] by (simp add: new_echo_def wanted_def)
  ultimately show ?thesis unfolding co_call_def using assms(3) free by (intro settle_inv) auto
qed

lemma co_handle_inv:
  assumes "epoll_man il (xs_ctl sys)" "keeps_interest il sys" "co_ok il ((rv, p) # rest) w" "cw_failed w = None"
  shows "co_inv il rest (handle_ready (co_resume sys epfd) (rv, p) w)"
proof -
  have h: "waits w p" "reports rv (wanted (cw_echo w p))" "\<not> has_armed (il (cw_kernel w)) p" "p \<notin> snd ` set rest"
    using assms(3) by (auto simp: co_ok_def)
  have ok: "co_ok il rest w" using assms(3) by (auto simp: co_ok_def)
  have "co_inv il rest (snd (co_resume sys epfd p w))"
  proof -
    let ?r = "echo_resume sys epfd p ((cw_echo w p)\<lparr>ec_kernel := cw_kernel w\<rparr>)"
    have "snd (co_resume sys epfd p w) = settle p ?r w"
      using h(1) assms(4) by (simp add: co_resume_def resumable_def waits_def)
    moreover have "ec_nonblock c \<and> il (ec_kernel c) = (if ec_pc c = Finished then il (cw_kernel w) else (il (cw_kernel w))(ec_fd c \<mapsto> (wanted c, p)))"
      if "?r = ok c" for c
      using echo_resume_registers [OF assms(1,2) that] h(1) by (simp add: waits_def)
    ultimately show ?thesis using ok h assms(4) by (simp, intro settle_inv) auto
  qed
  moreover have "co_inv il rest w" using ok assms(4) by (simp add: co_inv_def)
  ultimately show ?thesis using handle_ready_once [OF h(2), of sys epfd p w] by auto
qed

text \<open>Once a run is not followed further nothing is resumed.\<close>

lemma handle_failed: "cw_failed w \<noteq> None \<Longrightarrow> handle_ready (co_resume sys epfd) ee w = w"
  by (simp add: handle_ready_def co_resume_def)

lemma handle_from_inv:
  assumes "epoll_man il (xs_ctl sys)" "keeps_interest il sys" "co_inv il (take n (drop i evs)) w" "i + n \<le> length evs"
  shows "\<exists>w'. handle_from (co_resume sys epfd) evs i n w = Inr w' \<and> co_inv il [] w'"
  using assms(3,4)
proof (induction n arbitrary: i w)
  case (Suc n)
  then have drop: "take (Suc n) (drop i evs) = (fst (evs ! i), snd (evs ! i)) # take n (drop (Suc i) evs)"
    by (simp flip: Cons_nth_drop_Suc)
  have "co_inv il (take n (drop (Suc i) evs)) (handle_ready (co_resume sys epfd) (evs ! i) w)"
  proof (cases "cw_failed w = None")
    case True
    with Suc.prems(1) drop co_handle_inv [OF assms(1,2), of "fst (evs ! i)" "snd (evs ! i)" _ w epfd] show ?thesis by (simp add: co_inv_def)
  next
    case False
    with Suc.prems(1) show ?thesis by (auto simp: handle_failed co_inv_def)
  qed
  from Suc.IH [OF this] Suc.prems(2) show ?case by simp
qed simp

lemma disarmed: "\<not> is_armed (ev AND private_bits)"
  by (simp add: is_armed_def and.assoc)

lemma wanted_oneshot: "wanted c AND EPOLLONESHOT \<noteq> 0"
  by (simp add: wanted_def recv_events_def send_events_def mask_defs EPOLLONESHOT_def)

lemma co_wait_inv:
  assumes "wait_man il epoll_wait" "co_ok il [] w" "epoll_wait (cw_kernel w) n = (Ready rs, k)"
  shows "co_ok il rs (w\<lparr>cw_kernel := k\<rparr>)"
proof -
  obtain fds where fds: "distinct fds" "length fds = length rs"
    "\<And>i. i < length rs \<Longrightarrow> \<exists>ev. il (cw_kernel w) (fds ! i) = Some (ev, snd (rs ! i)) \<and> is_armed ev \<and> reports (fst (rs ! i)) ev"
    "il k = (\<lambda>fd. if fd \<in> set fds then map_option disarm (il (cw_kernel w) fd) else il (cw_kernel w) fd)"
    using assms(1,3) unfolding wait_man_def by blast
  have reg: "il (cw_kernel w) fd = Some (ev, p) \<Longrightarrow> is_armed ev \<Longrightarrow> waits w p \<and> fd = ec_fd (cw_echo w p) \<and> ev = wanted (cw_echo w p)" for fd ev p
    using assms(2) by (simp add: co_ok_def)
  have src: "fds ! i = ec_fd (cw_echo w (snd (rs ! i)))" "waits w (snd (rs ! i))" "reports (fst (rs ! i)) (wanted (cw_echo w (snd (rs ! i))))"
    if "i < length rs" for i using fds(3) [OF that] reg by blast+
  have armed: "fd \<notin> set fds \<and> il (cw_kernel w) fd = Some (ev, p)" if "il k fd = Some (ev, p)" "is_armed ev" for fd ev p
  proof (cases "fd \<in> set fds")
    case True
    then obtain i where "i < length rs" "fd = fds ! i" using fds(2) by (metis in_set_conv_nth)
    with fds(3) reg obtain ev0 q where e: "il (cw_kernel w) fd = Some (ev0, q)" "ev0 = wanted (cw_echo w q)" by blast
    with that True fds(4) wanted_oneshot [of "cw_echo w q"] have "ev = ev0 AND private_bits" by (auto simp: disarm_def)
    with disarmed that(2) show ?thesis by blast
  qed (use that fds(4) in simp)
  have "distinct (map snd rs)"
    using src(1) fds(1,2) by (auto simp: distinct_conv_nth) metis
  moreover have "waits w p \<and> reports rv (wanted (cw_echo w p)) \<and> \<not> has_armed (il k) p" if x: "(rv, p) \<in> set rs" for rv p
  proof -
    obtain i where i: "i < length rs" "rs ! i = (rv, p)" using x by (metis in_set_conv_nth)
    have "\<not> has_armed (il k) p"
    proof
      assume "has_armed (il k) p"
      then obtain fd ev where "il k fd = Some (ev, p)" "is_armed ev" by (auto simp: has_armed_def)
      with armed reg have "fd \<notin> set fds" "fd = ec_fd (cw_echo w p)" by blast+
      with src(1) [OF i(1)] i fds(2) show False by (metis nth_mem snd_conv)
    qed
    with src [OF i(1)] i(2) show ?thesis by simp
  qed
  ultimately show ?thesis
    using armed reg unfolding co_ok_def by (fastforce simp: waits_def)
qed

lemma wait_man_fails:
  assumes "wait_man il epoll_wait" "epoll_wait k n = (Wait_failed e, k')"
  shows "il k' = il k \<and> e = (if n = 0 then EINVAL else EINTR)"
  using assms unfolding wait_man_def by blast

lemma wait_man_room:
  assumes "wait_man il epoll_wait" "epoll_wait k n = (Ready rs, k')"
  shows "0 < n \<and> length rs \<le> n"
  using assms unfolding wait_man_def by blast

text \<open>\<open>epoll_wrapper::loop\<close> with room for events returns ready ones, each for a coroutine that waits; without room it throws at once.\<close>

lemma ew_loop_ok:
  assumes "wait_man il epoll_wait" "co_ok il [] w" "cw_failed w = None" "0 < n" "ew_loop (co_wait epoll_wait) n w = Some x"
  shows "\<exists>rs w'. x = Inr (Some rs, w') \<and> length rs \<le> n \<and> co_ok il rs w' \<and> cw_failed w' = None \<and> cw_frames w' = cw_frames w"
proof (rule run_loop_invariant [OF assms(5) [unfolded ew_loop_def], where I = "\<lambda>u. co_ok il [] u \<and> cw_failed u = None \<and> cw_frames u = cw_frames w"])
  show "co_ok il [] w \<and> cw_failed w = None \<and> cw_frames w = cw_frames w" using assms by simp
next
  fix u u' assume u: "co_ok il [] u \<and> cw_failed u = None \<and> cw_frames u = cw_frames w" "wait_pass (co_wait epoll_wait) n u = ok (Continue u')"
  then obtain k where "u' = u\<lparr>cw_kernel := k\<rparr>" "epoll_wait (cw_kernel u) n = (Wait_failed EINTR, k)"
    by (auto simp: wait_pass_def co_wait_def split: prod.splits wait_result.splits if_splits)
  with u(1) wait_man_fails [OF assms(1), of "cw_kernel u" n EINTR k] show "co_ok il [] u' \<and> cw_failed u' = None \<and> cw_frames u' = cw_frames w"
    by (auto simp: co_ok_def waits_def)
next
  fix u r assume u: "co_ok il [] u \<and> cw_failed u = None \<and> cw_frames u = cw_frames w" "wait_pass (co_wait epoll_wait) n u = ok (Return r)"
  show "\<exists>rs w'. Inr r = Inr (Some rs, w') \<and> length rs \<le> n \<and> co_ok il rs w' \<and> cw_failed w' = None \<and> cw_frames w' = cw_frames w"
  proof (cases "epoll_wait (cw_kernel u) n")
    case (Pair a k)
    show ?thesis
    proof (cases a)
      case (Ready rs)
      with Pair wait_man_room [OF assms(1)] have "length rs \<le> n" by blast
      with co_wait_inv [OF assms(1), of u n rs k] Pair Ready u show ?thesis by (auto simp: wait_pass_def co_wait_def)
    next
      case (Wait_failed e)
      with Pair wait_man_fails [OF assms(1), of "cw_kernel u" n e k] assms(4) have "e = EINTR" by simp
      with Pair Wait_failed u(2) show ?thesis by (simp add: wait_pass_def co_wait_def)
    qed
  qed
qed (auto simp: wait_pass_def co_wait_def split: prod.splits wait_result.splits if_splits)

lemma ew_loop_no_room:
  assumes "wait_man il epoll_wait"
  shows "\<exists>k. ew_loop (co_wait epoll_wait) 0 w = ok (None, w\<lparr>cw_kernel := k\<rparr>) \<and> il k = il (cw_kernel w)"
proof -
  obtain a k where e: "epoll_wait (cw_kernel w) 0 = (a, k)" by fastforce
  with assms have "a = Wait_failed EINVAL \<and> il k = il (cw_kernel w)"
    using wait_man_fails [OF assms, of "cw_kernel w" 0 _ k] wait_man_room [OF assms, of "cw_kernel w" 0 _ k] by (cases a) auto
  with e have "wait_pass (co_wait epoll_wait) 0 w = ok (Return (None, w\<lparr>cw_kernel := k\<rparr>))" by (simp add: wait_pass_def co_wait_def)
  with \<open>a = _ \<and> _\<close> show ?thesis unfolding ew_loop_def by (auto intro: run_loop_step(2))
qed

text \<open>No coroutine yet, and nothing in the epoll instance.\<close>

definition co_init :: "('k \<Rightarrow> interest) \<Rightarrow> 'k co_world \<Rightarrow> bool" where
  "co_init il w \<longleftrightarrow> cw_failed w = None \<and> cw_frames w = Map.empty \<and> il (cw_kernel w) = Map.empty"

definition co_contract :: "('k \<Rightarrow> interest) \<Rightarrow> 'k echo_sys \<Rightarrow> 'k epoll_wait \<Rightarrow> bool" where
  "co_contract il sys epoll_wait \<longleftrightarrow> epoll_man il (xs_ctl sys) \<and> keeps_interest il sys \<and> wait_man il epoll_wait"

definition loop_inv :: "('k \<Rightarrow> interest) \<Rightarrow> 'k co_world co_epoll \<Rightarrow> bool" where
  "loop_inv il p \<longleftrightarrow> co_inv il [] (ce_kernel p) \<and> (ce_events p = [] \<longrightarrow> ce_cnt p \<noteq> None)"

text \<open>A pass with room for events does not fail; one without room does, when the pass before had an event.\<close>

lemma co_pass_cases:
  assumes "co_contract il sys epoll_wait" "loop_inv il p" "cw_failed (ce_kernel p) = None" "ce_events p \<noteq> []"
  shows "co_pass stopped sys epoll_wait epfd p = None \<or> co_pass stopped sys epoll_wait epfd p = ok (Return p)
    \<or> (\<exists>p'. co_pass stopped sys epoll_wait epfd p = ok (Continue p') \<and> loop_inv il p')"
proof (cases "stopped (ce_kernel p)")
  case False
  note c = assms(1) [unfolded co_contract_def]
  show ?thesis
  proof (cases "ew_loop (co_wait epoll_wait) (length (ce_events p)) (ce_kernel p)")
    case None
    with False show ?thesis by (simp add: co_pass_def run_pass_def)
  next
    case (Some x)
    from ew_loop_ok [OF _ _ assms(3) _ Some, of il] assms c obtain rs w where
      x: "x = Inr (Some rs, w)" "length rs \<le> length (ce_events p)" "co_ok il rs w" "cw_failed w = None"
      by (auto simp: loop_inv_def co_inv_def)
    let ?evs = "rs @ drop (length rs) (ce_events p)"
    obtain w' where "handle_from (co_resume sys epfd) ?evs 0 (length rs) w = Inr w'" "co_inv il [] w'"
      using handle_from_inv [of il sys "length rs" 0 ?evs w epfd] c x by (auto simp: co_inv_def)
    with False Some x show ?thesis by (simp add: co_pass_def run_pass_def loop_inv_def)
  qed
qed (simp add: co_pass_def run_pass_def)

lemma co_pass_no_room:
  assumes "wait_man il epoll_wait" "loop_inv il p" "ce_events p = []" "\<not> stopped (ce_kernel p)"
  shows "if ce_cnt p = Some 0 then (\<exists>p'. co_pass stopped sys epoll_wait epfd p = ok (Continue p') \<and> loop_inv il p')
    else co_pass stopped sys epoll_wait epfd p = Some (Inl Out_of_bounds)"
proof -
  obtain k where k: "ew_loop (co_wait epoll_wait) 0 (ce_kernel p) = ok (None, (ce_kernel p)\<lparr>cw_kernel := k\<rparr>)" "il k = il (cw_kernel (ce_kernel p))"
    using ew_loop_no_room [OF assms(1)] by blast
  obtain cnt where cnt: "ce_cnt p = Some cnt" using assms(2,3) by (auto simp: loop_inv_def)
  show ?thesis
  proof (cases cnt)
    case 0
    with k cnt assms show ?thesis
      by (auto simp: co_pass_def run_pass_def loop_inv_def co_inv_def co_ok_def waits_def)
  next
    case (Suc n)
    with k(1) cnt assms(3,4) show ?thesis by (simp add: co_pass_def run_pass_def)
  qed
qed

lemma co_step_inv:
  assumes "co_contract il sys epoll_wait" "loop_inv il p" "co_step stopped sys epoll_wait epfd p p'"
  shows "loop_inv il p'"
  using assms(3)
proof cases
  case (call q fd)
  with co_call_inv [of il sys] assms(1,2) show ?thesis by (simp add: loop_inv_def co_inv_def co_contract_def)
next
  case pass
  then have run: "\<not> stopped (ce_kernel p)" by (auto simp: co_pass_def run_pass_def)
  show ?thesis
  proof (cases "ce_events p = []")
    case True
    with co_pass_no_room [OF _ assms(2) True, of epoll_wait stopped sys epfd] run pass assms(1) show ?thesis
      by (auto simp: co_contract_def split: if_splits)
  next
    case False
    with co_pass_cases [OF assms(1,2), of stopped epfd] pass show ?thesis by auto
  qed
qed

lemma new_loop_inv: "co_init il w \<Longrightarrow> loop_inv il (new_co_epoll w)"
  by (simp add: co_init_def loop_inv_def co_inv_def co_ok_def new_co_epoll_def)

interpretation cow: invariant_system "\<lambda>p. co_contract il sys epoll_wait \<and> (\<exists>w. co_init il w \<and> p = new_co_epoll w)"
    "co_step stopped sys epoll_wait epfd" "\<lambda>p. co_contract il sys epoll_wait \<and> loop_inv il p" for il stopped sys epoll_wait epfd
  by unfold_locales (auto simp: new_loop_inv intro: co_step_inv)

text \<open>C32: handles stay valid for as long as the loop has room for events.  Coroutines are called between the passes of
  \<open>co_epoll::run\<close>, wait in epoll, are resumed by the events of each pass and end, in any order and any number, addresses of frames
  being used again after \<open>co_return\<close> has destroyed them.  While the kernel keeps its promises, no handle is resumed unless its coroutine
  is suspended; \<open>epoll_wait\<close> reports every coroutine at most once, each waiting; no registration of a coroutine that is not waiting can
  report an event, although \<open>co_return\<close> leaves it in the epoll instance; and a pass with room for events does not fault.  The loop
  shrinks its array, however: when it has come down to no entries the next pass reads outside it, unless the last one had no event.\<close>

theorem coroutine_handles_valid:
  assumes "reachable (\<lambda>p. co_contract il sys epoll_wait \<and> (\<exists>w. co_init il w \<and> p = new_co_epoll w)) (co_step stopped sys epoll_wait epfd) p"
  shows "cw_failed (ce_kernel p) \<noteq> Some Bad_handle
    \<and> (cw_failed (ce_kernel p) = None \<longrightarrow>
      (\<forall>fd ev q. il (cw_kernel (ce_kernel p)) fd = Some (ev, q) \<and> cw_frames (ce_kernel p) q \<noteq> Some Awaiting \<longrightarrow> \<not> is_armed ev)
      \<and> (\<forall>rs w. ew_loop (co_wait epoll_wait) (length (ce_events p)) (ce_kernel p) = ok (Some rs, w) \<longrightarrow>
           distinct (map snd rs) \<and> (\<forall>(rv, q) \<in> set rs. cw_frames w q = Some Awaiting))
      \<and> (if ce_events p \<noteq> [] then \<forall>e. co_pass stopped sys epoll_wait epfd p \<noteq> Some (Inl e)
         else \<not> stopped (ce_kernel p) \<and> ce_cnt p \<noteq> Some 0 \<longrightarrow> co_pass stopped sys epoll_wait epfd p = Some (Inl Out_of_bounds)))"
proof -
  have inv: "co_contract il sys epoll_wait" "loop_inv il p" using cow.inv_reachable [OF assms] by simp_all
  then have c: "wait_man il epoll_wait" "co_inv il [] (ce_kernel p)" by (simp_all add: co_contract_def loop_inv_def)
  have batch: "distinct (map snd rs) \<and> (\<forall>(rv, q) \<in> set rs. cw_frames w q = Some Awaiting)"
    if r: "cw_failed (ce_kernel p) = None" "ew_loop (co_wait epoll_wait) (length (ce_events p)) (ce_kernel p) = ok (Some rs, w)" for rs w
  proof (cases "ce_events p = []")
    case True
    with ew_loop_no_room [OF c(1), of "ce_kernel p"] r(2) show ?thesis by auto
  next
    case False
    with ew_loop_ok [OF c(1) _ r(1) _ r(2)] c(2) r(1) show ?thesis by (fastforce simp: co_inv_def co_ok_def waits_def)
  qed
  show ?thesis
    using c(2) batch co_pass_cases [OF inv, of stopped epfd] co_pass_no_room [OF c(1) inv(2), of stopped sys epfd]
    by (auto simp: co_inv_def co_ok_def waits_def split: if_splits)
qed

text \<open>A kernel with one connection, on the descriptor 4, which its peer has closed.\<close>

definition closed_peer :: "interest echo_sys" where
  "closed_peer = \<lparr>xs_recv = (\<lambda>k _. (Ret [], k)), xs_send = (\<lambda>k bs. (Wrote (length bs), k)), xs_ctl = list_ctl\<rparr>"

definition wait_4 :: "interest epoll_wait" where
  "wait_4 k n = (if n = 0 then (Wait_failed EINVAL, k) else case k 4 of
     Some (ev, p) \<Rightarrow> if is_armed ev then (Ready [(ev AND (EPOLLIN OR EPOLLOUT), p)], k(4 \<mapsto> disarm (ev, p))) else (Ready [], k)
   | None \<Rightarrow> (Ready [], k))"

lemma closed_peer_contract: "co_contract id closed_peer wait_4"
proof -
  have "epoll_man id list_ctl" by (auto simp: epoll_man_def list_ctl_def split: option.splits)
  moreover have "wait_man id wait_4"
    unfolding wait_man_def
  proof (intro conjI allI impI)
    fix k :: interest and n rs k' assume w: "wait_4 k n = (Ready rs, k')"
    show "0 < n" "length rs \<le> n" using w by (auto simp: wait_4_def split: if_splits option.splits)
    show "\<exists>fds. distinct fds \<and> length fds = length rs
        \<and> (\<forall>i < length rs. \<exists>ev. id k (fds ! i) = Some (ev, snd (rs ! i)) \<and> is_armed ev \<and> reports (fst (rs ! i)) ev)
        \<and> id k' = (\<lambda>fd. if fd \<in> set fds then map_option disarm (id k fd) else id k fd)"
    proof (cases "rs = []")
      case True
      with w show ?thesis by (intro exI [of _ "[]"]) (auto simp: wait_4_def split: option.splits if_splits)
    next
      case False
      have "reports (ev AND m) ev" for ev m :: events unfolding reports_def by (intro bit_word_eqI) (auto simp: bit_simps)
      with w False show ?thesis
        by (intro exI [of _ "[4]"]) (auto simp: wait_4_def split: option.splits if_splits intro!: ext)
    qed
  qed (auto simp: wait_4_def split: option.splits if_splits)
  ultimately show ?thesis by (simp add: co_contract_def closed_peer_def keeps_interest_def)
qed

text \<open>The coroutine is called, its event is reported and handled, it ends, and the array is empty.\<close>

lemma closed_peer_run:
  assumes "cw_kernel w = Map.empty" "cw_frames w = Map.empty" "cw_failed w = None"
  shows "\<exists>p. (co_step (\<lambda>_. False) closed_peer wait_4 3)\<^sup>*\<^sup>* (new_co_epoll w) p \<and> cw_frames (ce_kernel p) 0 = Some Destroyed
    \<and> cw_failed (ce_kernel p) = None \<and> cw_kernel (ce_kernel p) 4 \<noteq> None \<and> ce_events p = [] \<and> ce_cnt p = Some 1"
proof -
  have ctl: "ew_try_add list_ctl 3 4 ev 0 Map.empty = ok [4 \<mapsto> (ev, 0)]" for ev
    by (auto simp: ew_try_add_def ew_ctl_def ctl_pass_def list_ctl_def ctl_effect_def intro!: run_loop_step(2))
  let ?e = "new_echo 4 True Map.empty :: interest echo"
  let ?w1 = "co_call closed_peer 3 0 4 w"
  have w1: "?w1 = w\<lparr>cw_kernel := [4 \<mapsto> (recv_events, 0)], cw_echo := (cw_echo w)(0 := ?e\<lparr>ec_kernel := [4 \<mapsto> (recv_events, 0)]\<rparr>), cw_frames := [0 \<mapsto> Awaiting]\<rparr>"
    using assms by (simp add: co_call_def co_suspend_def ctl closed_peer_def settle_def new_echo_def)
  let ?p1 = "new_co_epoll ?w1"
  have "co_step (\<lambda>_. False) closed_peer wait_4 3 (new_co_epoll w) ((new_co_epoll w)\<lparr>ce_kernel := ?w1\<rparr>)"
    using co_step.call [of "new_co_epoll w" 0 "\<lambda>_. False" closed_peer wait_4 3 4] assms by (simp add: new_co_epoll_def)
  then have s1: "co_step (\<lambda>_. False) closed_peer wait_4 3 (new_co_epoll w) ?p1" by (simp add: new_co_epoll_def)
  have rd: "is_armed recv_events" "recv_events AND (EPOLLIN OR EPOLLOUT) = EPOLLIN"
    by (simp_all add: is_armed_def private_bits_def recv_events_def mask_defs EPOLLONESHOT_def)
  let ?k2 = "[4 \<mapsto> disarm (recv_events, 0)] :: interest"
  let ?w2 = "?w1\<lparr>cw_kernel := ?k2\<rparr>"
  have ew: "ew_loop (co_wait wait_4) 16 ?w1 = ok (Some [(EPOLLIN, 0)], ?w2)"
    unfolding ew_loop_def using w1 rd by (intro run_loop_step(2)) (simp add: wait_pass_def co_wait_def wait_4_def)
  let ?w3 = "handle_ready (co_resume closed_peer 3) (EPOLLIN, 0) ?w2"
  from ew have "co_pass (\<lambda>_. False) closed_peer wait_4 3 ?p1 = ok (Continue \<lparr>ce_events = [], ce_cnt = Some 1, ce_kernel = ?w3\<rparr>)"
    by (simp add: co_pass_def run_pass_def new_co_epoll_def adapt_def resize_def)
  with assms w1 have s2: "co_step (\<lambda>_. False) closed_peer wait_4 3 ?p1 \<lparr>ce_events = [], ce_cnt = Some 1, ce_kernel = ?w3\<rparr>"
    by (intro co_step.pass) (simp_all add: new_co_epoll_def)
  have "cw_frames ?w3 0 = Some Destroyed \<and> cw_failed ?w3 = None \<and> cw_kernel ?w3 = ?k2"
    using assms unfolding w1
    by (simp add: handle_ready_def co_resume_def resumable_def echo_resume_def new_echo_def recv_resume_def after_recv_def closed_peer_def
        co_suspend_def settle_def final_suspend_def null_promise_def mask_defs Let_def)
  with s1 s2 show ?thesis
    by (intro exI [of _ "\<lparr>ce_events = [], ce_cnt = Some 1, ce_kernel = ?w3\<rparr>"]) (auto intro: rtranclp.rtrancl_into_rtrancl)
qed

text \<open>After the one event of that connection nothing is armed any more, and the next pass reads outside the array.\<close>

theorem coroutine_handles_valid_witness:
  "\<exists>p ev. reachable (\<lambda>p. co_contract id closed_peer wait_4 \<and> (\<exists>w. co_init id w \<and> p = new_co_epoll w)) (co_step (\<lambda>_. False) closed_peer wait_4 3) p
    \<and> cw_frames (ce_kernel p) 0 = Some Destroyed \<and> cw_kernel (ce_kernel p) 4 = Some ev \<and> (snd ev = 0 \<longrightarrow> \<not> is_armed (fst ev))
    \<and> co_pass (\<lambda>_. False) closed_peer wait_4 3 p = Some (Inl Out_of_bounds)"
proof -
  let ?w0 = "\<lparr>cw_kernel = Map.empty, cw_frames = Map.empty, cw_echo = (\<lambda>_. new_echo 4 True Map.empty), cw_failed = None\<rparr> :: interest co_world"
  let ?init = "\<lambda>p. co_contract id closed_peer wait_4 \<and> (\<exists>w. co_init id w \<and> p = new_co_epoll w)"
  obtain p where p: "(co_step (\<lambda>_. False) closed_peer wait_4 3)\<^sup>*\<^sup>* (new_co_epoll ?w0) p" "cw_frames (ce_kernel p) 0 = Some Destroyed"
    "cw_failed (ce_kernel p) = None" "cw_kernel (ce_kernel p) 4 \<noteq> None" "ce_events p = []" "ce_cnt p = Some 1"
    using closed_peer_run [of ?w0] by auto
  have "co_init id ?w0" by (simp add: co_init_def)
  then have "?init (new_co_epoll ?w0)" using closed_peer_contract by blast
  with p(1) have r: "reachable ?init (co_step (\<lambda>_. False) closed_peer wait_4 3) p" unfolding reachable_def by blast
  note v = coroutine_handles_valid [OF r, THEN conjunct2, THEN mp, OF p(3)]
  have "\<not> is_armed ev" if "cw_kernel (ce_kernel p) 4 = Some (ev, 0)" for ev
    using v that p(2) by (metis frame.distinct(14) id_apply option.inject)
  moreover have "co_pass (\<lambda>_. False) closed_peer wait_4 3 p = Some (Inl Out_of_bounds)" using v p(5,6) by simp
  ultimately show ?thesis using r p(2,4) by fastforce
qed

end
