(* ===== verification/Async_Life.thy ===== *)
theory Async_Life
  imports Adl_Prelude
begin

text \<open>
  The life of the logging back-end of \<open>src/src/log/asyncLogging.{h,cpp}\<close>, line by line: the constructor (whose first member is the
  thread), \<open>start\<close>, the frame of \<open>threadFunc\<close> around its loop, and the destructor; and the global output functions of
  \<open>log/Logging.cpp\<close>, which the thread binds to its local \<open>logFile\<close>.  What the loop does with the buffers is \<open>Async_Logging\<close>.
\<close>

section \<open>The output functions\<close>

text \<open>\<open>gOut\<close> and \<open>gFlush\<close>: the functions for \<open>stdout\<close>, or those of the back-end's file.\<close>

datatype log_target = Std_out | Backend_file

record log_globals =
  lg_out :: log_target
  lg_flush :: log_target

definition init_globals :: log_globals where
  "init_globals = \<lparr>lg_out = Std_out, lg_flush = Std_out\<rparr>"

definition setglobalOutFunc :: "log_target \<Rightarrow> log_globals \<Rightarrow> log_globals" where
  "setglobalOutFunc f g = g\<lparr>lg_out := f\<rparr>"

definition setglobalFlushFunc :: "log_target \<Rightarrow> log_globals \<Rightarrow> log_globals" where
  "setglobalFlushFunc f g = g\<lparr>lg_flush := f\<rparr>"

section \<open>The lines\<close>

text \<open>Where the thread, \<open>start\<close> and the destructor are.\<close>

datatype back_pc = B_none | B_spin | B_open | B_flush_func | B_out_func | B_ready | B_while | B_body | B_last_flush | B_exited
datatype start_pc = St_none | St_flag | St_get | St_returned
datatype adtor_pc = A_none | A_notify | A_join | A_done

text \<open>\<open>li_members\<close> counts the members constructed, in the order of their declaration: \<open>td_\<close>, \<open>m_\<close>, \<open>cv_\<close>, \<open>p_\<close>, \<open>running_\<close>,
  \<open>roll_size_\<close>, \<open>flushInterval_\<close>, \<open>writeInterval_\<close>, \<open>cur_\<close>, \<open>prv_\<close>, \<open>transBufVec_\<close>, \<open>logFileName_\<close>.  \<open>running_\<close> has no
  initialiser: it keeps what was in memory.  \<open>li_early\<close> records that the thread used a member before it was constructed, which
  the language leaves undefined: the lines say nothing about such a run; \<open>li_file\<close> that the thread's \<open>logFile\<close> exists.\<close>

record alog =
  li_members :: nat
  li_running :: bool
  li_back :: back_pc
  li_start :: start_pc
  li_dtor :: adtor_pc
  li_promise :: bool
  li_file :: bool
  li_globals :: log_globals
  li_early :: bool

definition new_asyncLogging :: "bool \<Rightarrow> alog" where
  "new_asyncLogging garbage = \<lparr>li_members = 0, li_running = garbage, li_back = B_none, li_start = St_none, li_dtor = A_none,
     li_promise = False, li_file = False, li_globals = init_globals, li_early = False\<rparr>"

definition all_members :: nat where
  "all_members = 12"

definition alog_ctor :: "alog \<Rightarrow> alog" where
  "alog_ctor s =
     (if li_members s = 0 then s\<lparr>li_members := 1, li_back := B_spin\<rparr>
      else if li_members s < all_members then s\<lparr>li_members := Suc (li_members s)\<rparr> else s)"

text \<open>\<open>start\<close>: the future, the flag, and \<open>f.get()\<close>, which waits for the promise.\<close>

definition alog_start :: "alog \<Rightarrow> alog" where
  "alog_start s =
     (case li_start s of
        St_none \<Rightarrow> s\<lparr>li_start := St_flag\<rparr>
      | St_flag \<Rightarrow> s\<lparr>li_running := True, li_start := St_get\<rparr>
      | St_get \<Rightarrow> if li_promise s then s\<lparr>li_start := St_returned\<rparr> else s
      | St_returned \<Rightarrow> s)"

text \<open>\<open>uses n\<close>: a line that uses the first \<open>n\<close> members.\<close>

definition uses :: "nat \<Rightarrow> alog \<Rightarrow> alog" where
  "uses n s = s\<lparr>li_early := li_early s \<or> li_members s < n\<rparr>"

lemma uses_simps [simp]:
  "li_members (uses n s) = li_members s" "li_running (uses n s) = li_running s" "li_back (uses n s) = li_back s"
  "li_start (uses n s) = li_start s" "li_dtor (uses n s) = li_dtor s" "li_promise (uses n s) = li_promise s"
  "li_file (uses n s) = li_file s" "li_globals (uses n s) = li_globals s"
  by (simp_all add: uses_def)

definition alog_thread :: "alog \<Rightarrow> alog" where
  "alog_thread s =
     (case li_back s of
        B_none \<Rightarrow> s
      | B_spin \<Rightarrow> (uses 5 s)\<lparr>li_back := if li_running s then B_open else B_spin\<rparr>
      | B_open \<Rightarrow> (uses all_members s)\<lparr>li_file := True, li_back := B_flush_func\<rparr>
      | B_flush_func \<Rightarrow> s\<lparr>li_globals := setglobalFlushFunc Backend_file (li_globals s), li_back := B_out_func\<rparr>
      | B_out_func \<Rightarrow> s\<lparr>li_globals := setglobalOutFunc Backend_file (li_globals s), li_back := B_ready\<rparr>
      | B_ready \<Rightarrow> (uses 4 s)\<lparr>li_promise := True, li_back := B_while\<rparr>
      | B_while \<Rightarrow> (uses 5 s)\<lparr>li_back := if li_running s then B_body else B_last_flush\<rparr>
      | B_body \<Rightarrow> (uses all_members s)\<lparr>li_back := B_while\<rparr>
      | B_last_flush \<Rightarrow> s\<lparr>li_file := False, li_back := B_exited\<rparr>
      | B_exited \<Rightarrow> s)"

text \<open>The destructor: the flag, \<open>notify_one\<close> (the wait of the loop has a timeout in any case), \<open>join\<close>.\<close>

definition alog_dtor :: "alog \<Rightarrow> alog" where
  "alog_dtor s =
     (case li_dtor s of
        A_none \<Rightarrow> s\<lparr>li_running := False, li_dtor := A_notify\<rparr>
      | A_notify \<Rightarrow> s\<lparr>li_dtor := A_join\<rparr>
      | A_join \<Rightarrow> if li_back s = B_exited then s\<lparr>li_dtor := A_done\<rparr> else s
      | A_done \<Rightarrow> s)"

text \<open>The owner constructs, may call \<open>start\<close>, and destroys, in this order; the thread runs beside it.\<close>

inductive alog_step :: "alog \<Rightarrow> alog \<Rightarrow> bool" where
  ctor: "alog_step s (alog_ctor s)"
| start: "li_members s = all_members \<Longrightarrow> li_dtor s = A_none \<Longrightarrow> alog_step s (alog_start s)"
| backend: "alog_step s (alog_thread s)"
| dtor: "li_members s = all_members \<Longrightarrow> li_start s = St_none \<or> li_start s = St_returned \<Longrightarrow> alog_step s (alog_dtor s)"

inductive_cases alog_stepE: "alog_step s s'"

section \<open>Invariant\<close>

definition bound :: "back_pc \<Rightarrow> bool" where
  "bound b \<longleftrightarrow> b \<in> {B_ready, B_while, B_body, B_last_flush, B_exited}"

definition alog_inv :: "alog \<Rightarrow> bool" where
  "alog_inv s \<longleftrightarrow> (li_members s < all_members \<longrightarrow> li_start s = St_none \<and> li_dtor s = A_none)
     \<and> (li_start s \<in> {St_get, St_returned} \<or> li_back s \<notin> {B_none, B_spin} \<longrightarrow> li_running s \<or> li_dtor s \<noteq> A_none)
     \<and> (li_dtor s \<noteq> A_none \<longrightarrow> \<not> li_running s \<and> li_start s \<in> {St_none, St_returned})
     \<and> (li_promise s \<longleftrightarrow> li_back s \<in> {B_while, B_body, B_last_flush, B_exited})
     \<and> (li_start s = St_returned \<longrightarrow> li_promise s)
     \<and> (li_back s \<in> {B_last_flush, B_exited} \<longrightarrow> li_dtor s \<noteq> A_none)
     \<and> (li_file s \<longleftrightarrow> li_back s \<in> {B_flush_func, B_out_func, B_ready, B_while, B_body, B_last_flush})
     \<and> (li_globals s = (if bound (li_back s) then \<lparr>lg_out = Backend_file, lg_flush = Backend_file\<rparr>
           else if li_back s = B_out_func then \<lparr>lg_out = Std_out, lg_flush = Backend_file\<rparr> else init_globals))
     \<and> (li_dtor s = A_done \<longrightarrow> li_back s = B_exited)
     \<and> (li_back s = B_none \<longleftrightarrow> li_members s = 0) \<and> li_members s \<le> all_members"

lemma alog_ctor_inv: "alog_inv s \<Longrightarrow> alog_inv (alog_ctor s)"
  by (cases "li_back s"; simp add: alog_ctor_def; fastforce simp: alog_inv_def bound_def all_members_def)

lemma alog_start_inv: "alog_inv s \<Longrightarrow> li_members s = all_members \<Longrightarrow> li_dtor s = A_none \<Longrightarrow> alog_inv (alog_start s)"
  by (cases "li_start s") (auto simp: alog_inv_def alog_start_def all_members_def)

lemma alog_thread_inv: "alog_inv s \<Longrightarrow> alog_inv (alog_thread s)"
  by (cases "li_back s") (auto simp: alog_inv_def alog_thread_def bound_def setglobalOutFunc_def setglobalFlushFunc_def init_globals_def all_members_def)

lemma alog_dtor_inv:
  "alog_inv s \<Longrightarrow> li_members s = all_members \<Longrightarrow> li_start s = St_none \<or> li_start s = St_returned \<Longrightarrow> alog_inv (alog_dtor s)"
  by (cases "li_dtor s") (auto simp: alog_inv_def alog_dtor_def all_members_def bound_def)

lemma alog_step_inv: "alog_inv s \<Longrightarrow> alog_step s s' \<Longrightarrow> alog_inv s'"
  by (erule alog_stepE) (simp_all add: alog_ctor_inv alog_start_inv alog_thread_inv alog_dtor_inv)

lemma alog_init_inv: "alog_inv (new_asyncLogging garbage)"
  by (simp add: alog_inv_def new_asyncLogging_def bound_def all_members_def)

interpretation alog: invariant_system "\<lambda>s. s = new_asyncLogging garbage" alog_step alog_inv for garbage
  by unfold_locales (auto simp: alog_init_inv intro: alog_step_inv)

section \<open>Properties\<close>

lemma alog_thread_stops:
  "\<not> li_running s \<Longrightarrow> li_back s \<in> {B_while, B_body, B_last_flush, B_exited} \<Longrightarrow> li_back ((alog_thread ^^ 3) s) = B_exited"
  by (cases "li_back s") (simp_all add: alog_thread_def numeral_3_eq_3)

text \<open>C36: the logger from construction to destruction, whatever the memory of \<open>running_\<close> holds, in every interleaving of its owner
  and the thread in which the thread, which starts before the members behind \<open>td_\<close> exist, has used no member before its
  construction (a hypothesis: nothing in the code sees to it).  From the return of \<open>start\<close> to the destructor the log file is open
  and both output functions go to it; once the destructor has cleared the flag of a started logger three more lines end the
  thread; and when it has returned the thread has ended and its file is closed, but \<open>gOut\<close> and \<open>gFlush\<close> are still bound to that
  file.\<close>

theorem async_logger_life:
  assumes "reachable (\<lambda>s. s = new_asyncLogging garbage) alog_step s" "\<not> li_early s"
  shows "(li_start s = St_returned \<and> li_dtor s = A_none \<longrightarrow>
         li_file s \<and> lg_out (li_globals s) = Backend_file \<and> lg_flush (li_globals s) = Backend_file)
    \<and> (li_start s = St_returned \<and> li_dtor s \<noteq> A_none \<longrightarrow> li_back ((alog_thread ^^ 3) s) = B_exited)
    \<and> (li_dtor s = A_done \<longrightarrow> li_back s = B_exited \<and> \<not> li_file s
         \<and> lg_out (li_globals s) = Backend_file \<and> lg_flush (li_globals s) = Backend_file)"
proof -
  have inv: "alog_inv s" by (rule alog.inv_reachable [OF assms(1)])
  have up: "li_back s \<in> {B_while, B_body, B_last_flush, B_exited}" if "li_start s = St_returned"
    using inv that by (auto simp: alog_inv_def)
  have glob: "li_globals s = \<lparr>lg_out = Backend_file, lg_flush = Backend_file\<rparr>" if "bound (li_back s)"
    using inv that by (simp add: alog_inv_def)
  have fin: "li_back s = B_exited" if "li_dtor s = A_done" using inv that by (simp add: alog_inv_def)
  have stop: "\<not> li_running s" if "li_dtor s \<noteq> A_none" using inv that by (simp add: alog_inv_def)
  have run: "li_back s \<notin> {B_last_flush, B_exited}" if "li_dtor s = A_none" using inv that unfolding alog_inv_def by blast
  have opened: "li_file s \<longleftrightarrow> li_back s \<in> {B_flush_func, B_out_func, B_ready, B_while, B_body, B_last_flush}"
    using inv by (simp add: alog_inv_def)
  have "li_file s \<and> bound (li_back s)" if "li_start s = St_returned" "li_dtor s = A_none"
    using up [OF that(1)] run [OF that(2)] opened by (auto simp: bound_def)
  moreover have "li_back ((alog_thread ^^ 3) s) = B_exited" if "li_start s = St_returned" "li_dtor s \<noteq> A_none"
    using stop [OF that(2)] up [OF that(1)] by (rule alog_thread_stops)
  moreover have "li_back s = B_exited \<and> \<not> li_file s \<and> bound (li_back s)" if "li_dtor s = A_done"
    using fin [OF that] opened by (simp add: bound_def)
  ultimately show ?thesis using glob by auto
qed

text \<open>Runs as lists of lines.\<close>

datatype alog_line = Ctor_line | Start_line | Thread_line | Dtor_line

fun alog_exec :: "alog_line list \<Rightarrow> alog \<Rightarrow> alog option" where
  "alog_exec [] s = Some s"
| "alog_exec (Ctor_line # ls) s = alog_exec ls (alog_ctor s)"
| "alog_exec (Thread_line # ls) s = alog_exec ls (alog_thread s)"
| "alog_exec (Start_line # ls) s = (if li_members s = all_members \<and> li_dtor s = A_none then alog_exec ls (alog_start s) else None)"
| "alog_exec (Dtor_line # ls) s =
     (if li_members s = all_members \<and> (li_start s = St_none \<or> li_start s = St_returned) then alog_exec ls (alog_dtor s) else None)"

lemma alog_exec_reachable:
  "alog_exec ls s = Some t \<Longrightarrow> reachable init alog_step s \<Longrightarrow> reachable init alog_step t"
  by (induction ls s rule: alog_exec.induct) (auto split: if_splits intro: reachable_step alog_step.intros)

lemmas alog_eval = alog_ctor_def alog_start_def alog_thread_def alog_dtor_def uses_def new_asyncLogging_def all_members_def
  setglobalOutFunc_def setglobalFlushFunc_def init_globals_def

theorem async_logger_life_witness:
  "\<exists>s. reachable (\<lambda>s. s = new_asyncLogging False) alog_step s \<and> li_dtor s = A_done \<and> lg_out (li_globals s) = Backend_file \<and> \<not> li_file s"
proof -
  obtain s where s: "alog_exec (replicate 12 Ctor_line @ Start_line # Start_line # replicate 5 Thread_line @ Start_line # Dtor_line # Dtor_line
      # replicate 2 Thread_line @ [Dtor_line]) (new_asyncLogging False) = Some s" "li_dtor s = A_done" "\<not> li_early s"
    by (simp add: alog_eval numeral_eq_Suc)
  have r: "reachable (\<lambda>s. s = new_asyncLogging False) alog_step s" by (rule alog_exec_reachable [OF s(1)]) (simp add: reachable_init)
  with s(2) async_logger_life [OF r s(3)] show ?thesis by blast
qed

text \<open>A logger destroyed without \<open>start\<close>: the thread waits for \<open>running_\<close> and the destructor for the thread.\<close>

definition alog_hung :: "alog \<Rightarrow> bool" where
  "alog_hung s \<longleftrightarrow> li_members s = all_members \<and> li_dtor s = A_join \<and> li_back s = B_spin \<and> \<not> li_running s"

lemma alog_hung_forever: "alog_step\<^sup>*\<^sup>* s t \<Longrightarrow> alog_hung s \<Longrightarrow> alog_hung t"
  by (induction rule: rtranclp_induct) (auto elim!: alog_stepE simp: alog_hung_def alog_ctor_def alog_thread_def alog_dtor_def all_members_def)

text \<open>Three ways to go wrong.  A logger that is destroyed without having been started hangs in its destructor for ever, although the
  thread has used nothing too early; whatever is in memory there is a run in which the thread reads \<open>running_\<close> before it is
  constructed; and when that memory happens to hold \<open>true\<close> there is one in which it opens its file with members that do not exist
  yet.\<close>

theorem async_logger_hangs:
  "(\<exists>s. reachable (\<lambda>s. s = new_asyncLogging False) alog_step s \<and> \<not> li_early s \<and> li_dtor s = A_join
        \<and> \<not> (\<exists>t. alog_step\<^sup>*\<^sup>* s t \<and> li_dtor t = A_done))
    \<and> (\<exists>s. reachable (\<lambda>s. s = new_asyncLogging garbage) alog_step s \<and> li_early s)
    \<and> (\<exists>s. reachable (\<lambda>s. s = new_asyncLogging True) alog_step s \<and> li_file s \<and> li_members s < all_members)"
proof (intro conjI)
  obtain s where s: "alog_exec (replicate 12 Ctor_line @ [Dtor_line, Dtor_line]) (new_asyncLogging False) = Some s" "alog_hung s" "\<not> li_early s"
    by (simp add: alog_eval alog_hung_def numeral_eq_Suc)
  have "reachable (\<lambda>s. s = new_asyncLogging False) alog_step s" by (rule alog_exec_reachable [OF s(1)]) (simp add: reachable_init)
  with s(2,3) alog_hung_forever [of s] show "\<exists>s. reachable (\<lambda>s. s = new_asyncLogging False) alog_step s \<and> \<not> li_early s \<and> li_dtor s = A_join
      \<and> \<not> (\<exists>t. alog_step\<^sup>*\<^sup>* s t \<and> li_dtor t = A_done)"
    by (fastforce simp: alog_hung_def)
next
  obtain s where s: "alog_exec [Ctor_line, Thread_line] (new_asyncLogging garbage) = Some s" "li_early s" by (simp add: alog_eval)
  have "reachable (\<lambda>s. s = new_asyncLogging garbage) alog_step s" by (rule alog_exec_reachable [OF s(1)]) (simp add: reachable_init)
  with s(2) show "\<exists>s. reachable (\<lambda>s. s = new_asyncLogging garbage) alog_step s \<and> li_early s" by blast
next
  obtain s where s: "alog_exec [Ctor_line, Thread_line, Thread_line] (new_asyncLogging True) = Some s" "li_file s" "li_members s < all_members"
    by (simp add: alog_eval)
  have "reachable (\<lambda>s. s = new_asyncLogging True) alog_step s" by (rule alog_exec_reachable [OF s(1)]) (simp add: reachable_init)
  with s(2,3) show "\<exists>s. reachable (\<lambda>s. s = new_asyncLogging True) alog_step s \<and> li_file s \<and> li_members s < all_members" by blast
qed

end
