(* ===== verification/Spec2Isabelle.thy ===== *)
theory Spec2Isabelle
  imports Http_Serving Async_Logging Logging Tcp_Server Blocking_Queue Thread_Pool
    Loop_Thread Co_Echo Mmap_Wrap Socket_Ops Reflect_Server Http_Fragments Loop_Life
    Co_Main Weak_Callback Server_Start Co_Frames Async_Life
begin

text \<open>
  A verification development for adlServer, an HTTP server in C++14 built on an epoll reactor.
  File names below are relative to \<open>src/src/\<close>.

  \<^bold>\<open>The program.\<close>  A main thread accepts connections (\<open>net/Acceptor\<close>, \<open>net/tcpServer\<close>) and gives each
  to one of several sub-loops (\<open>net/EventLoopThreadPool\<close>).  A loop (\<open>net/EventLoop\<close>) waits in epoll
  (\<open>net/Epoller\<close>) for its channels (\<open>net/Channel\<close>), runs their handlers and then the tasks other
  threads queued for it.  The handlers of a connection (\<open>net/tcpConnection\<close>) move bytes between the
  socket and two growable buffers (\<open>net/netBuffer\<close>) and call back into the server
  (\<open>httpServer\<close>), which parses the request (\<open>http/httpParser\<close>), prints an answer
  (\<open>http/httpRespond\<close>) and sends it or a file.  Every part logs through \<open>LOG(level)\<close> statements
  (\<open>log/Logging\<close>, \<open>log/logStream\<close>), which end in rolling files (\<open>log/logFile\<close>), directly or through a
  double-buffered back-end thread (\<open>log/asyncLogging\<close>).

  \<^bold>\<open>How the code is read.\<close>  Classes are records, enums datatypes, one definition per member
  function in the order of the source.  An operation that can go wrong returns a \<open>result\<close>: a failed
  assertion, an access outside an array, a read of an unwritten value, signed overflow, an abort or
  an exception is an \<open>Inl\<close> with its name.  A loop that may run for ever is \<open>run_loop\<close> of its body, an
  \<open>outcome\<close>, in which \<open>None\<close> means that it never returns: no fuel occurs, and that a loop
  returns is part of what is proved, except where a statement names the other cases (the life cycle of a connection, which
  holds for the calls that returned).  Widths are kept where the code depends on them
  (\<open>int\<close> positions with an overflow check, \<open>size_t\<close> subtraction that wraps, 32-bit event masks as
  words, 16-bit ports).  Threads are steps of a relation over the shared state; a step is the code
  between two points at which another thread can interfere (a critical section, a wait, an atomic
  access), and the theorems hold for every interleaving of the steps.

  \<^bold>\<open>Parameters.\<close>  The kernel and the C library enter as functions over an abstract kernel state:
  \<open>syscalls\<close> (read, write, sendfile, pread, close), \<open>files\<close> (open, lstat, fopen, fwrite, the random name),
  \<open>acc_sys\<close> (accept4, close, /dev/null), \<open>log_env\<close> and \<open>logger_env\<close> (clock, disk, thread id, error
  texts), \<open>inet_pton\<close>.  A theorem that needs one of them to behave says so in a hypothesis
  (\<open>good_disk\<close>, \<open>serves\<close>, \<dots>) and has a witness with a concrete kernel.  The contracts allow what the manuals document:
  partial writes and partial \<open>sendfile\<close>, EAGAIN, EINTR.  Some theorems need more of the peer and say so: that it is alive (\<open>peer_alive\<close>:
  \<open>write\<close> does not fail with EPIPE or ECONNRESET, after which the code drops output), that it keeps the connection open while a
  request arrives in pieces (\<open>steady\<close>), and that \<open>fwrite\<close> takes a body whole.  What a client gets from a file answer depends on how much
  the kernel takes at once; \<open>file_answered\<close> and \<open>post_answered\<close> state every case, and \<open>takes_file_answer\<close>,
  \<open>takes_body_answer\<close> the ones in which all of it is sent.  Buffers are bounded by
  the hypothesis that positions stay below the \<open>int\<close> range, which is what their overflow checks need.

  \<^bold>\<open>The theories, from the bottom.\<close>

  \<^item> \<open>Adl_Prelude\<close>: results, outcomes, \<open>run_loop\<close> with its rules (invariant for returns, invariant for
    faults, measure for termination, closed set for divergence), integer conversions, errno, the
    locale of inductive invariants shared by all step relations.
  \<^item> \<open>C_String\<close>: reading a memory block that may hold unwritten cells; \<open>starts_with\<close>
    (\<open>tool/util.cpp\<close>), decimal printing and \<open>stoi\<close>.
  \<^item> \<open>Net_Buffer\<close> (\<open>net/netBuffer\<close>): the buffer with its two indices refines a byte queue, for any
    sequence of operations; \<open>readFd\<close> conserves the stream of the socket.
  \<^item> \<open>Http_Parser\<close>, \<open>Parser_Safety\<close> (\<open>http/httpParser\<close>): what the state machine returns for every
    well-formed GET and POST; memory safety, size bounds, termination and divergence for the rest.
  \<^item> \<open>Channel_Epoll\<close> (\<open>net/Channel\<close>, \<open>net/Epoller\<close>): event masks; the kernel's interest list mirrors the
    channels after any history of updates.
  \<^item> \<open>Event_Loop\<close> (\<open>net/EventLoop\<close>): other threads run the two halves of \<open>queueInLoop\<close> and \<open>quit\<close> as separate steps, the loop
    thread may itself call \<open>quit\<close>; no wake-up is lost and every task runs exactly once, in order
    and within two turns of the loop, in every interleaving.
  \<^item> \<open>Tcp_Connection\<close>, \<open>Conn_Life\<close> (\<open>net/tcpConnection\<close>): all handlers, whole; the order of bytes
    on the wire; the life cycle for any client callbacks that keep the invariant (locale
    \<open>conn_client\<close>), and the event that closes a connection twice.
  \<^item> \<open>File_Util\<close> (\<open>log/fileUtil\<close>): the retrying system call wrappers and the appending file.
  \<^item> \<open>Http_Respond\<close> (\<open>http/httpRespond\<close>): headers as a map, the answer as bytes on the wire.
  \<^item> \<open>Conn_Stream\<close>, \<open>Reflect_Server\<close> (\<open>net/tcpConnection\<close>, \<open>example/reflectServer\<close>): a connection between the two
    byte streams of its socket; the echo server keeps every byte, in order.
  \<^item> \<open>Http_Server\<close>, \<open>Http_Serving\<close> (\<open>httpServer\<close>): the callbacks of the server, an interpretation of
    \<open>conn_client\<close>; what a client gets for a GET, a POST, a missing file, a malformed request.
  \<^item> \<open>Http_Fragments\<close>: requests that arrive in pieces, through \<open>Channel::handleEvent\<close>, \<open>handleRead\<close>, \<open>readFd\<close>, the
    parser and the callback: which pieces are waited for, and that the answer does not depend on the cuts.
  \<^item> \<open>Loop_Thread\<close>, \<open>Loop_Life\<close> (\<open>base/Thread\<close>, \<open>base/currentThread\<close>, \<open>net/EventLoopThread\<close>, \<open>net/EventLoop\<close>): starting a
    thread and its loop, line by line; construction, destruction and ownership of a loop.
  \<^item> \<open>Socket_Ops\<close> (\<open>net/Socket\<close>): options, binding and listening; what the acceptor's socket is when it listens.
  \<^item> \<open>Inet_Address\<close>, \<open>Tcp_Server\<close> (\<open>net/InetAddress\<close>, \<open>net/Socket\<close>, \<open>net/Acceptor\<close>,
    \<open>net/EventLoopThreadPool\<close>, \<open>net/tcpServer\<close>): addresses; accepting bursts of connections with the
    reserve descriptor; how connections are spread over the loops.
  \<^item> \<open>Server_Start\<close> (\<open>httpServer.h\<close>, \<open>net/tcpServer\<close>, \<open>net/Acceptor\<close>): construction and start, composed from the loop, the
    listening socket and the pool: what is registered, bound and running when the main loop begins, and its first turn.
  \<^item> \<open>Double\<close>: what the code uses of \<open>double\<close>, with the error of its rounding.
  \<^item> \<open>Log_Stream\<close>, \<open>Log_File\<close>, \<open>Time_Stamp\<close>, \<open>Logging\<close>, \<open>Async_Logging\<close>, \<open>Async_Life\<close> (\<open>log/\<close>, \<open>base/timeStamp\<close>): no line overflows its
    buffer, a statement makes one line, lines reach the files in order whatever the rolling and the
    interleaving of threads; the back-end from construction to destruction, in the runs in which it uses no member before that is
    constructed.
  \<^item> \<open>Blocking_Queue\<close>, \<open>Thread_Pool\<close> (\<open>base/\<close>): the monitors, with Mesa-style wake-ups, and the pool, whose
    workers change \<open>idlThrNum\<close> outside the mutex in steps of their own.
  \<^item> \<open>Singleton\<close> (\<open>base/Singleton.hpp\<close>): the double-checked singletons under release/acquire memory, and the others.
  \<^item> \<open>Weak_Callback\<close> (\<open>base/WeakCallback.h\<close>): calls through a weak pointer interleaved with the owners of the object.
  \<^item> \<open>Co_Echo\<close>, \<open>Co_Frames\<close>, \<open>Co_Main\<close> (\<open>net/coro/\<close>): the epoll wrapper, the coroutine loop with its growing and
    shrinking array of events, the echo coroutine, the life of coroutine frames and their handles under that loop, and how \<open>main\<close> gets its connection.
  \<^item> \<open>Mmap_Wrap\<close> (\<open>file_options/mmap_wrap.hpp\<close>): a mapped file releases all it took, also when its constructor throws.

  \<^bold>\<open>Interfaces.\<close>  Each locale is what a client may rely on and is interpreted on the definitions of
  the component that provides it: byte queues (netBuffer), output sinks (connection, log stream,
  log file), insertion-keyed maps (headers), connection clients (the server's callbacks), accept
  callbacks (\<open>TcpServer::newConnection\<close>), objects made on first use (the singletons), and inductive invariants
  (every step relation).

  \<^bold>\<open>Not modelled.\<close>  Memory order weaker than sequential consistency, except in \<open>Singleton\<close>; the text of a
  \<open>double\<close> (an argument of the log item) and doubles that are not finite; object lifetime through
  \<open>shared_ptr\<close> outside \<open>Loop_Life\<close> and \<open>Weak_Callback\<close>; the values in the futures of the thread pool; exceptions that leave a
  coroutine; system call forwards of one line, which are the parameters above; debug printing; a
  second \<open>netBuffer\<close> that no build selects (\<open>#ifdef AAA\<close>); \<open>main\<close> functions that only construct a server; macros.
\<close>

end
